(* ===== verification/Prelude.thy ===== *)
theory Prelude
  imports Main "HOL-Library.AList" "HOL-Library.Char_ord" "HOL-Library.List_Lexorder"
    "HOL-Library.Sublist" "HOL-Library.Multiset"
begin

text \<open>
  Shared vocabulary of the development: the Python values the modelled code uses.
  A Python \<open>str\<close> is a \<^typ>\<open>string\<close> (a character stands for a code point below 256, compared
  by its number, so \<open><\<close> on strings is Python's), a \<open>dict\<close> is an association list in
  insertion order (\<open>AList.update\<close> replaces in place or appends, as Python does), a
  \<open>set\<close> that the code iterates over is a list in its iteration order.  An operation that may
  raise returns a value of \<open>py_exc + 'a\<close>; one that also mutates an object takes the object and
  returns it next to that result, so that the state at the time of a raise is not lost.
\<close>

section \<open>Exceptions and results\<close>

datatype py_exc =
    ValueError | KeyError | IndexError | TypeError | AttributeError
  | VersionStringException | ReError
  | NoProvider string | NoRProvider string | MultipleRProvider string
  | Fatal
  | ExpansionError | SelfReference | SkipRecipe | UnterminatedString | RecursionError
  | TooManyLoops | OSError | OutOfFuel

type_synonym 'a result = "py_exc + 'a"

fun bind_res :: "'a result \<Rightarrow> ('a \<Rightarrow> 'b result) \<Rightarrow> 'b result" where
  "bind_res (Inl e) f = Inl e"
| "bind_res (Inr a) f = f a"

lemma bind_res_Inr_iff:
  "bind_res r f = Inr b \<longleftrightarrow> (\<exists>a. r = Inr a \<and> f a = Inr b)"
  by (cases r) auto

lemma bind_res_Inl_iff:
  "bind_res r f = Inl e \<longleftrightarrow> r = Inl e \<or> (\<exists>a. r = Inr a \<and> f a = Inl e)"
  by (cases r) auto

text \<open>A \<open>for\<close> loop over a list whose body mutates a state and may raise.\<close>

fun foreach :: "('a \<Rightarrow> 's \<Rightarrow> unit result \<times> 's) \<Rightarrow> 'a list \<Rightarrow> 's \<Rightarrow> unit result \<times> 's" where
  "foreach f [] s = (Inr (), s)"
| "foreach f (x # xs) s =
     (case f x s of (Inl e, s') \<Rightarrow> (Inl e, s') | (Inr _, s') \<Rightarrow> foreach f xs s')"

text \<open>Sequential composition of two such statements.\<close>

definition seq_st :: "unit result \<times> 's \<Rightarrow> ('s \<Rightarrow> 'a result \<times> 's) \<Rightarrow> 'a result \<times> 's" where
  "seq_st r f = (case r of (Inl e, s) \<Rightarrow> (Inl e, s) | (Inr _, s) \<Rightarrow> f s)"

lemma seq_st_simps [simp]:
  "seq_st (Inl e, s) f = (Inl e, s)"
  "seq_st (Inr u, s) f = f s"
  by (simp_all add: seq_st_def)

lemma seq_st_Inr: "seq_st r f = (Inr v, t) \<longleftrightarrow> (\<exists>s. r = (Inr (), s) \<and> f s = (Inr v, t))"
  by (cases r; cases "fst r") (auto simp: seq_st_def)

text \<open>
  The rule for such loops: an invariant \<open>I\<close> kept by the body holds of the final state, however
  the loop ends.
\<close>

lemma foreach_inv:
  assumes "I s" and "\<And>x s. x \<in> set xs \<Longrightarrow> I s \<Longrightarrow> I (snd (f x s))"
  shows "I (snd (foreach f xs s))"
  using assms
proof (induction xs arbitrary: s)
  case (Cons x xs)
  obtain r s' where fx: "f x s = (r, s')" by (cases "f x s")
  with Cons.prems(1) Cons.prems(2) [of x s] have "I s'" by simp
  then have "I (snd (foreach f xs s'))" by (rule Cons.IH) (use Cons.prems(2) in auto)
  with fx \<open>I s'\<close> show ?case by (cases r) auto
qed simp

text \<open>
  A transitive relation that the body keeps relates the first and the last state.
\<close>

lemma foreach_rel:
  assumes "\<And>s. R s s" and "\<And>a b c. R a b \<Longrightarrow> R b c \<Longrightarrow> R a c"
    and "\<And>x s. x \<in> set xs \<Longrightarrow> R s (snd (f x s))"
  shows "R s (snd (foreach f xs s))"
  using foreach_inv [of "R s" s xs f] assms by blast

text \<open>A loop that ends without raising established each iteration's stable result.\<close>

lemma foreach_post:
  assumes "foreach f xs s = (Inr (), t)" and "x \<in> set xs"
    and "\<And>s t. f x s = (Inr (), t) \<Longrightarrow> P t"
    and "\<And>y s. y \<in> set xs \<Longrightarrow> P s \<Longrightarrow> P (snd (f y s))"
  shows "P t"
  using assms
proof (induction xs arbitrary: s)
  case (Cons y ys)
  obtain s' where fy: "f y s = (Inr (), s')" and rest: "foreach f ys s' = (Inr (), t)"
    using Cons.prems(1) by (auto split: prod.splits sum.splits)
  show ?case
  proof (cases "x \<in> set ys")
    case True
    show ?thesis by (rule Cons.IH [OF rest True]) (use Cons.prems in auto)
  next
    case False
    with Cons.prems fy have "P s'" by auto
    then have "P (snd (foreach f ys s'))"
      by (rule foreach_inv) (use Cons.prems(4) in auto)
    with rest show ?thesis by simp
  qed
qed simp

text \<open>A loop whose body cannot raise \<open>e\<close> under an invariant does not raise \<open>e\<close>.\<close>

lemma foreach_no_exc:
  assumes "I s"
    and "\<And>x s. x \<in> set xs \<Longrightarrow> I s \<Longrightarrow> I (snd (f x s)) \<and> fst (f x s) \<noteq> Inl e"
  shows "fst (foreach f xs s) \<noteq> Inl e"
  using assms
proof (induction xs arbitrary: s)
  case (Cons x xs)
  obtain r s' where fx: "f x s = (r, s')" by (cases "f x s")
  with Cons.prems(1) Cons.prems(2) [of x s] have s': "I s'" "r \<noteq> Inl e" by auto
  have "fst (foreach f xs s') \<noteq> Inl e"
    by (rule Cons.IH [OF s'(1)]) (use Cons.prems(2) in auto)
  with fx s'(2) show ?case by (auto split: sum.splits)
qed simp

section \<open>Characters and strings\<close>

definition code :: "char \<Rightarrow> nat" where
  "code c = of_char c"

definition is_space :: "char \<Rightarrow> bool" where
  "is_space c \<longleftrightarrow> (let n = code c in (9 \<le> n \<and> n \<le> 13) \<or> (28 \<le> n \<and> n \<le> 32) \<or> n = 133 \<or> n = 160)"

definition is_digit :: "char \<Rightarrow> bool" where
  "is_digit c \<longleftrightarrow> 48 \<le> code c \<and> code c \<le> 57"

definition is_letter :: "char \<Rightarrow> bool" where
  "is_letter c \<longleftrightarrow> (65 \<le> code c \<and> code c \<le> 90) \<or> (97 \<le> code c \<and> code c \<le> 122)"

abbreviation (input) newline :: char where
  "newline \<equiv> CHR 0x0A"

abbreviation startswith :: "string \<Rightarrow> string \<Rightarrow> bool" where
  "startswith s p \<equiv> prefix p s"

abbreviation endswith :: "string \<Rightarrow> string \<Rightarrow> bool" where
  "endswith s p \<equiv> suffix p s"

text \<open>\<open>s.split()\<close>: the maximal runs of non-space characters.\<close>

fun split_ws_aux :: "string \<Rightarrow> string \<Rightarrow> string list" where
  "split_ws_aux cur [] = (if cur = [] then [] else [rev cur])"
| "split_ws_aux cur (c # cs) =
     (if is_space c then (if cur = [] then split_ws_aux [] cs else rev cur # split_ws_aux [] cs)
      else split_ws_aux (c # cur) cs)"

definition split_ws :: "string \<Rightarrow> string list" where
  "split_ws s = split_ws_aux [] s"

text \<open>\<open>s.split(c)\<close> for a one-character separator: never empty.\<close>

fun split_on :: "char \<Rightarrow> string \<Rightarrow> string list" where
  "split_on c [] = [[]]"
| "split_on c (x # xs) =
     (if x = c then [] # split_on c xs
      else (case split_on c xs of [] \<Rightarrow> [[x]] | w # ws \<Rightarrow> (x # w) # ws))"

text \<open>\<open>sep.join(xs)\<close>.\<close>

fun join :: "string \<Rightarrow> string list \<Rightarrow> string" where
  "join sep [] = []"
| "join sep [x] = x"
| "join sep (x # y # zs) = x @ sep @ join sep (y # zs)"

text \<open>\<open>s.rsplit(c, 1)\<close>: \<open>None\<close> when \<open>c\<close> does not occur (Python returns \<open>[s]\<close> then).\<close>

definition rsplit1 :: "char \<Rightarrow> string \<Rightarrow> (string \<times> string) option" where
  "rsplit1 c s =
     (if c \<in> set s
      then let post = rev (takeWhile (\<lambda>x. x \<noteq> c) (rev s))
           in Some (take (length s - length post - 1) s, post)
      else None)"

text \<open>\<open>s.strip(chars)\<close> with the characters given as a predicate.\<close>

definition strip_by :: "(char \<Rightarrow> bool) \<Rightarrow> string \<Rightarrow> string" where
  "strip_by P s = rev (dropWhile P (rev (dropWhile P s)))"

text \<open>\<open>s.count(c)\<close> and \<open>s.replace(c, '')\<close> for one character.\<close>

definition count_char :: "char \<Rightarrow> string \<Rightarrow> nat" where
  "count_char c s = length (filter (\<lambda>x. x = c) s)"

definition remove_char :: "char \<Rightarrow> string \<Rightarrow> string" where
  "remove_char c s = filter (\<lambda>x. x \<noteq> c) s"

text \<open>\<open>int(s)\<close> on a string: surrounding space, a sign, digits with single underscores between.\<close>

definition digit_val :: "char \<Rightarrow> int" where
  "digit_val c = int (code c) - 48"

definition nat_of_digits :: "string \<Rightarrow> nat" where
  "nat_of_digits ds = foldl (\<lambda>n c. 10 * n + (code c - 48)) 0 ds"

fun py_digits :: "string \<Rightarrow> string option" where
  "py_digits [] = None"
| "py_digits [c] = (if is_digit c then Some [c] else None)"
| "py_digits (c # d # ds) =
     (if \<not> is_digit c then None
      else if d = CHR ''_'' then map_option ((#) c) (py_digits ds)
      else map_option ((#) c) (py_digits (d # ds)))"

definition py_int :: "string \<Rightarrow> int option" where
  "py_int s =
     (case strip_by is_space s of
        [] \<Rightarrow> None
      | c # cs \<Rightarrow>
          if c = CHR ''-'' then map_option (\<lambda>ds. - int (nat_of_digits ds)) (py_digits cs)
          else if c = CHR ''+'' then map_option (\<lambda>ds. int (nat_of_digits ds)) (py_digits cs)
          else map_option (\<lambda>ds. int (nat_of_digits ds)) (py_digits (c # cs)))"

subsection \<open>Laws of the string operations\<close>

lemma split_on_not_Nil [simp]: "split_on c s \<noteq> []"
  by (cases s) (auto split: list.splits)

lemma split_on_no_sep [simp]: "c \<notin> set s \<Longrightarrow> split_on c s = [s]"
  by (induction s) auto

lemma split_on_append [simp]:
  "c \<notin> set p \<Longrightarrow> split_on c (p @ c # s) = p # split_on c s"
  by (induction p) auto

lemma split_on_parts: "w \<in> set (split_on c s) \<Longrightarrow> c \<notin> set w"
  by (induction s arbitrary: w) (auto split: if_splits list.splits)

lemma length_split_on: "length (split_on c s) = Suc (count_char c s)"
  by (induction s) (auto simp: count_char_def split: list.splits)

lemma join_Cons: "ws \<noteq> [] \<Longrightarrow> join sep (w # ws) = w @ sep @ join sep ws"
  by (cases ws) simp_all

lemma join_split_on: "join [c] (split_on c s) = s"
proof (induction s)
  case (Cons x xs)
  then show ?case
    by (cases "split_on c xs") (auto simp: join_Cons, cases "tl (split_on c xs)", auto)
qed simp

lemma split_on_snoc:
  "c \<notin> set t \<Longrightarrow> split_on c (s @ c # t) = split_on c s @ [t]"
  by (induction s) (auto split: list.splits)

lemma rsplit1_snoc [simp]: "c \<notin> set t \<Longrightarrow> rsplit1 c (s @ c # t) = Some (s, t)"
proof -
  assume c: "c \<notin> set t"
  have "takeWhile (\<lambda>x. x \<noteq> c) (rev t @ c # rev s) = rev t"
    using c by (subst takeWhile_append2) auto
  then show ?thesis by (simp add: rsplit1_def)
qed

lemma rsplit1_None [simp]: "rsplit1 c s = None \<longleftrightarrow> c \<notin> set s"
  by (simp add: rsplit1_def Let_def)

lemma rsplit1_Some:
  assumes "rsplit1 c s = Some (p, t)"
  shows "s = p @ c # t \<and> c \<notin> set t"
proof -
  from assms have "c \<in> set s" using rsplit1_None [of c s] by auto
  then obtain p' t' where "s = p' @ c # t'" "c \<notin> set t'"
    by (meson split_list_last)
  with assms rsplit1_snoc [of c t' p'] show ?thesis by simp
qed

lemma count_char_append [simp]: "count_char c (s @ t) = count_char c s + count_char c t"
  by (simp add: count_char_def)

lemma count_char_Cons [simp]:
  "count_char c (x # s) = (if x = c then Suc (count_char c s) else count_char c s)"
  by (simp add: count_char_def)

lemma count_char_Nil [simp]: "count_char c [] = 0"
  by (simp add: count_char_def)

lemma count_char_0 [simp]: "count_char c s = 0 \<longleftrightarrow> c \<notin> set s"
  by (auto simp: count_char_def filter_empty_conv)

lemma is_space_blank [simp]: "is_space (CHR '' '')"
  by (simp add: is_space_def code_def)

lemma split_ws_aux_word:
  "\<forall>c \<in> set w. \<not> is_space c \<Longrightarrow> split_ws_aux cur (w @ s) = split_ws_aux (rev w @ cur) s"
  by (induction w arbitrary: cur) auto

lemma split_ws_Nil [simp]: "split_ws [] = []"
  by (simp add: split_ws_def)

lemma split_ws_word:
  assumes "w \<noteq> []" and "\<forall>c \<in> set w. \<not> is_space c"
  shows "split_ws w = [w]"
  using split_ws_aux_word [OF assms(2), of "[]" "[]"] assms(1) by (simp add: split_ws_def)

lemma split_ws_word_append:
  assumes "w \<noteq> []" and "\<forall>c \<in> set w. \<not> is_space c" and "is_space b"
  shows "split_ws (w @ b # s) = w # split_ws s"
  using split_ws_aux_word [OF assms(2), of "[]" "b # s"] assms(1,3) by (simp add: split_ws_def)

lemma split_ws_aux_append:
  "is_space b \<Longrightarrow> split_ws_aux cur (x @ b # s) = split_ws_aux cur x @ split_ws s"
  by (induction x arbitrary: cur) (auto simp: split_ws_def)

lemma split_ws_append:
  "is_space b \<Longrightarrow> split_ws (x @ b # s) = split_ws x @ split_ws s"
  by (simp add: split_ws_def split_ws_aux_append)

lemma split_ws_join: "split_ws (join '' '' xs) = concat (map split_ws xs)"
  by (induction xs rule: induct_list012) (auto simp: split_ws_append)

lemma remove_char_append [simp]: "remove_char c (s @ t) = remove_char c s @ remove_char c t"
  by (simp add: remove_char_def)

lemma remove_char_id [simp]: "c \<notin> set s \<Longrightarrow> remove_char c s = s"
  by (simp add: remove_char_def filter_id_conv) auto

lemma remove_char_Cons: "remove_char c (x # s) = (if x = c then remove_char c s else x # remove_char c s)"
  by (simp add: remove_char_def)

lemma remove_char_join:
  "remove_char c (join sep xs) = join (remove_char c sep) (map (remove_char c) xs)"
  by (induction sep xs rule: join.induct) (simp_all add: remove_char_def)

lemma split_ws_aux_words:
  "\<forall>c \<in> set cur. \<not> is_space c \<Longrightarrow> w \<in> set (split_ws_aux cur s) \<Longrightarrow>
     w \<noteq> [] \<and> (\<forall>c \<in> set w. \<not> is_space c)"
proof (induction s arbitrary: cur)
  case Nil
  then show ?case by (cases "cur = []") auto
next
  case (Cons c cs)
  show ?case
  proof (cases "is_space c")
    case True
    with Cons.prems Cons.IH [of "[]"] show ?thesis by (cases "cur = []") auto
  next
    case False
    with Cons.prems Cons.IH [of "c # cur"] show ?thesis by simp
  qed
qed

lemma split_ws_words:
  "w \<in> set (split_ws s) \<Longrightarrow> w \<noteq> [] \<and> (\<forall>c \<in> set w. \<not> is_space c)"
  unfolding split_ws_def by (rule split_ws_aux_words) simp_all

section \<open>Dictionaries and lists\<close>

abbreviation dset :: "'k \<Rightarrow> 'v \<Rightarrow> ('k \<times> 'v) list \<Rightarrow> ('k \<times> 'v) list" where
  "dset \<equiv> AList.update"

abbreviation ddel :: "'k \<Rightarrow> ('k \<times> 'v) list \<Rightarrow> ('k \<times> 'v) list" where
  "ddel \<equiv> AList.delete"

abbreviation dget :: "('k \<times> 'v) list \<Rightarrow> 'k \<Rightarrow> 'v option" where
  "dget \<equiv> map_of"

abbreviation dkeys :: "('k \<times> 'v) list \<Rightarrow> 'k list" where
  "dkeys d \<equiv> map fst d"

definition dget_or :: "('k \<times> 'v) list \<Rightarrow> 'k \<Rightarrow> 'v \<Rightarrow> 'v" where
  "dget_or d k v = (case map_of d k of None \<Rightarrow> v | Some x \<Rightarrow> x)"

definition wf_dict :: "('k \<times> 'v) list \<Rightarrow> bool" where
  "wf_dict d \<longleftrightarrow> distinct (dkeys d)"

lemma wf_dict_Nil [simp]: "wf_dict []"
  by (simp add: wf_dict_def)

lemma wf_dict_dset [simp]: "wf_dict d \<Longrightarrow> wf_dict (dset k v d)"
  by (simp add: wf_dict_def distinct_update)

lemma dget_dset [simp]: "dget (dset k v d) j = (if j = k then Some v else dget d j)"
  by (auto simp: update_conv')

lemma dget_or_dset [simp]: "dget_or (dset k v d) j w = (if j = k then v else dget_or d j w)"
  by (simp add: dget_or_def)

lemma set_dkeys_dset [simp]: "set (dkeys (dset k v d)) = insert k (set (dkeys d))"
  by (simp only: update_keys) (auto split: if_splits)

lemma fst_set_dset [simp]: "fst ` set (dset k v d) = insert k (fst ` set d)"
  using set_dkeys_dset [of k v d] by simp

lemma dget_in_dkeys: "k \<in> set (dkeys d) \<longleftrightarrow> (\<exists>v. dget d k = Some v)"
  using dom_map_of_conv_image_fst [of d] by (auto simp: dom_def)

lemma dget_None_dkeys: "dget d k = None \<longleftrightarrow> k \<notin> set (dkeys d)"
  by (simp add: map_of_eq_None_iff)

lemma dset_new: "k \<notin> set (dkeys d) \<Longrightarrow> dset k v d = d @ [(k, v)]"
  by (induction d) auto

lemma dset_append_old:
  "k \<notin> set (dkeys d) \<Longrightarrow> dset k v (d @ (k, u) # e) = d @ (k, v) # e"
  by (induction d) auto

lemma dkeys_dset_same: "k \<in> set (dkeys d) \<Longrightarrow> dkeys (dset k v d) = dkeys d"
  by (induction d) auto

lemma dget_append_old: "k \<notin> set (dkeys d) \<Longrightarrow> dget (d @ (k, u) # e) k = Some u"
  by (induction d) auto

lemma dget_or_append_old [simp]: "k \<notin> set (dkeys d) \<Longrightarrow> dget_or (d @ (k, u) # e) k v = u"
  using dget_append_old [of k d u e] by (simp add: dget_or_def)

lemma dget_or_new [simp]: "k \<notin> set (dkeys d) \<Longrightarrow> dget_or d k v = v"
  using dget_None_dkeys [of d k] by (simp add: dget_or_def)

text \<open>\<open>xs.remove(x)\<close> removes the first occurrence; on a list without it Python raises.\<close>

abbreviation remove_first :: "'a \<Rightarrow> 'a list \<Rightarrow> 'a list" where
  "remove_first \<equiv> remove1"

text \<open>\<open>if x not in xs: xs.append(x)\<close>.\<close>

definition append_new :: "'a \<Rightarrow> 'a list \<Rightarrow> 'a list" where
  "append_new x xs = (if x \<in> set xs then xs else xs @ [x])"

lemma set_append_new [simp]: "set (append_new x xs) = insert x (set xs)"
  by (auto simp: append_new_def)

lemma distinct_append_new [simp]: "distinct xs \<Longrightarrow> distinct (append_new x xs)"
  by (simp add: append_new_def)

text \<open>\<open>xs.index(x)\<close>: \<open>None\<close> for the \<open>ValueError\<close>.\<close>

fun index_of :: "'a list \<Rightarrow> 'a \<Rightarrow> nat option" where
  "index_of [] x = None"
| "index_of (y # ys) x = (if y = x then Some 0 else map_option Suc (index_of ys x))"

lemma index_of_Some: "index_of xs x = Some i \<Longrightarrow> i < length xs \<and> xs ! i = x"
  by (induction xs arbitrary: i) (auto split: if_splits)

lemma index_of_None [simp]: "index_of xs x = None \<longleftrightarrow> x \<notin> set xs"
  by (induction xs) auto

section \<open>Grouping\<close>

text \<open>
  A stable sort by a key is the concatenation of the groups of equal keys in ascending order.
\<close>

lemma mset_concat_groups:
  assumes "distinct ks" "f ` set xs \<subseteq> set ks"
  shows "mset (concat (map (\<lambda>k. filter (\<lambda>x. f x = k) xs) ks)) = mset xs"
  using assms
proof (induction xs)
  case (Cons x xs)
  have "mset (concat (map (\<lambda>k. filter (\<lambda>x. f x = k) (x # xs)) ks)) =
      (\<Sum>k\<leftarrow>ks. (if f x = k then {#x#} else {#}) + mset (filter (\<lambda>x. f x = k) xs))"
    by (simp add: mset_concat comp_def if_distrib cong: if_cong)
      (rule arg_cong [where f = sum_list], auto)
  also have "\<dots> = (\<Sum>k\<leftarrow>ks. if f x = k then {#x#} else {#}) +
      mset (concat (map (\<lambda>k. filter (\<lambda>x. f x = k) xs) ks))"
    by (simp add: sum_list_addf mset_concat comp_def)
  also have "(\<Sum>k\<leftarrow>ks. if f x = k then {#x#} else {#}) = {#x#}"
    using Cons.prems by (simp add: sum_list_distinct_conv_sum_set)
  also have "mset (concat (map (\<lambda>k. filter (\<lambda>x. f x = k) xs) ks)) = mset xs"
    using Cons by simp
  finally show ?case by simp
qed simp

lemma sort_key_groups:
  assumes "sorted ks" "distinct ks" "f ` set xs \<subseteq> set ks"
  shows "concat (map (\<lambda>k. filter (\<lambda>x. f x = k) xs) ks) = sort_key f xs"
proof (rule properties_for_sort_key [symmetric])
  show "mset (concat (map (\<lambda>k. filter (\<lambda>x. f x = k) xs) ks)) = mset xs"
    by (rule mset_concat_groups) fact+
next
  fix y assume "y \<in> set (concat (map (\<lambda>k. filter (\<lambda>x. f x = k) xs) ks))"
  then have y: "f y \<in> set ks" by auto
  have "filter (\<lambda>x. f y = f x) (concat (map (\<lambda>k. filter (\<lambda>x. f x = k) xs) ks')) =
      (if f y \<in> set ks' then filter (\<lambda>x. f y = f x) xs else [])" if "distinct ks'" for ks'
    using that by (induction ks') (auto simp: filter_empty_conv intro!: filter_cong)
  with assms(2) y
  show "filter (\<lambda>x. f y = f x) (concat (map (\<lambda>k. filter (\<lambda>x. f x = k) xs) ks)) =
      filter (\<lambda>x. f y = f x) xs" by simp
next
  show "sorted (map f (concat (map (\<lambda>k. filter (\<lambda>x. f x = k) xs) ks)))"
  proof -
    have "sorted (map f (filter (\<lambda>x. f x = a) xs))" for a
      using sorted_map_same [of f "\<lambda>_. a" xs] by simp
    then show ?thesis using assms(1) by (induction ks) (auto simp: sorted_append)
  qed
qed

section \<open>Statements that return a value or raise\<close>

definition bind_st :: "'a result \<times> 's \<Rightarrow> ('a \<Rightarrow> 's \<Rightarrow> 'b result \<times> 's) \<Rightarrow> 'b result \<times> 's" where
  "bind_st r f = (case r of (Inl e, s) \<Rightarrow> (Inl e, s) | (Inr a, s) \<Rightarrow> f a s)"

definition with_key :: "('k \<times> 'v) list \<Rightarrow> 'k \<Rightarrow> 's \<Rightarrow> ('v \<Rightarrow> 'b result \<times> 's) \<Rightarrow> 'b result \<times> 's" where
  "with_key d k s f = (case dget d k of None \<Rightarrow> (Inl KeyError, s) | Some v \<Rightarrow> f v)"

lemma bind_st_simps [simp]:
  "bind_st (Inl e, s) f = (Inl e, s)"
  "bind_st (Inr a, s) f = f a s"
  by (simp_all add: bind_st_def)

lemma with_key_Some [simp]: "dget d k = Some v \<Longrightarrow> with_key d k s f = f v"
  by (simp add: with_key_def)

text \<open>
  A relation between the state before and after that is reflexive and transitive is kept by a
  composed statement when each part keeps it.
\<close>

locale frame =
  fixes R :: "'s \<Rightarrow> 's \<Rightarrow> bool"
  assumes same: "R s s" and trans: "R a b \<Longrightarrow> R b d \<Longrightarrow> R a d"
begin

lemma bind: "R s (snd r) \<Longrightarrow> (\<And>a t. R t (snd (f a t))) \<Longrightarrow> R s (snd (bind_st r f))"
  by (cases r; cases "fst r") (auto simp: bind_st_def intro: trans)

lemma seq: "R s (snd r) \<Longrightarrow> (\<And>t. R t (snd (f t))) \<Longrightarrow> R s (snd (seq_st r f))"
  by (cases r; cases "fst r") (auto simp: seq_st_def intro: trans)

lemma key: "(\<And>v. R s (snd (f v))) \<Longrightarrow> R s (snd (with_key d k s f))"
  by (simp add: with_key_def same split: option.splits)

lemma loop: "(\<And>x t. x \<in> set xs \<Longrightarrow> R t (snd (f x t))) \<Longrightarrow> R s (snd (foreach f xs s))"
  by (rule foreach_rel [where R = R]) (auto intro: same trans)

lemma choice: "R s (snd a) \<Longrightarrow> R s (snd b) \<Longrightarrow> R s (snd (if P then a else b))"
  by simp

lemma after: "R s t \<Longrightarrow> R t (snd r) \<Longrightarrow> R s (snd r)"
  by (rule trans)

lemmas rules = bind seq key loop choice

end

end
