(* ===== verification/Versions.thy ===== *)
theory Versions
  imports Prelude
begin

text \<open>
  Version comparison, \<open>poky/bitbake/lib/bb/utils.py\<close>: \<open>explode_version\<close>, \<open>split_version\<close>,
  \<open>vercmp_part\<close>, \<open>vercmp\<close>, \<open>vercmp_string\<close> and \<open>vercmp_string_op\<close>.  The pairs
  \<open>(order, value)\<close> that \<open>explode_version\<close> appends are the constructors of \<open>vpart\<close>, with
  \<open>part_ord\<close> their first component.  The lemmas show that the comparison is a linear order on
  exploded versions, hence a total preorder on version strings (interpreted in the locale
  \<open>ver_order\<close>, which the provider selection rests on), and what the tilde means in it.
\<close>

section \<open>The comparison the code computes\<close>

datatype vpart = Tilde string | Num nat | Alpha string | Other string

fun part_ord :: "vpart \<Rightarrow> int" where
  "part_ord (Tilde _) = -1"
| "part_ord (Num _) = 0"
| "part_ord (Alpha _) = 1"
| "part_ord (Other _) = 2"

text \<open>
  The group \<open>(.*)$\<close> of the two regular expressions: it stops at a newline and \<open>$\<close> allows one
  trailing newline only.  \<open>None\<close>: no match, and \<open>m.group\<close> raises \<open>AttributeError\<close>.
\<close>

definition re_tail :: "string \<Rightarrow> string option" where
  "re_tail s =
     (if newline \<notin> set s then Some s
      else if last s = newline \<and> newline \<notin> set (butlast s) then Some (butlast s)
      else None)"

lemma re_tail_length: "re_tail s = Some t \<Longrightarrow> length t \<le> length s"
  by (auto simp: re_tail_def split: if_splits)

lemma re_tail_ok [simp]: "newline \<notin> set s \<Longrightarrow> re_tail s = Some s"
  by (simp add: re_tail_def)

function explode_version :: "string \<Rightarrow> vpart list option" where
  "explode_version s =
     (case s of
        [] \<Rightarrow> Some []
      | c # cs \<Rightarrow>
          if is_digit c then
            (case re_tail (dropWhile is_digit s) of
               None \<Rightarrow> None
             | Some s' \<Rightarrow>
                 map_option ((#) (Num (nat_of_digits (takeWhile is_digit s)))) (explode_version s'))
          else if is_letter c then
            (case re_tail (dropWhile is_letter s) of
               None \<Rightarrow> None
             | Some s' \<Rightarrow>
                 map_option ((#) (Alpha (takeWhile is_letter s))) (explode_version s'))
          else if c = CHR ''~'' then map_option ((#) (Tilde [c])) (explode_version cs)
          else map_option ((#) (Other [c])) (explode_version cs))"
  by pat_completeness auto
termination
proof (relation "measure length", goal_cases)
  case (2 s c cs s')
  then have "length s' \<le> length (dropWhile is_digit cs)" by (auto dest: re_tail_length)
  also have "\<dots> \<le> length cs" by (rule length_dropWhile_le)
  finally show ?case using 2 by simp
next
  case (3 s c cs s')
  then have "length s' \<le> length (dropWhile is_letter cs)" by (auto dest: re_tail_length)
  also have "\<dots> \<le> length cs" by (rule length_dropWhile_le)
  finally show ?case using 3 by simp
qed auto

declare explode_version.simps [simp del]

text \<open>\<open>split_version\<close>; \<open>None\<close> is the \<open>ValueError\<close> of \<open>int\<close>.\<close>

definition split_version :: "string \<Rightarrow> (int \<times> string \<times> string) option" where
  "split_version s0 =
     (let s = strip_by (\<lambda>c. c \<in> set '' <>='') s0;
          ps = split_on (CHR '':'') s;
          es = (if count_char (CHR '':'') s \<noteq> 0
                then map_option (\<lambda>e. (e, ps ! 1)) (py_int (hd ps)) else Some (0, s))
      in case es of
           None \<Rightarrow> None
         | Some (e, s1) \<Rightarrow>
             (case rsplit1 (CHR ''-'') s1 of
                None \<Rightarrow> Some (e, s1, [])
              | Some (v, r) \<Rightarrow> Some (e, v, r)))"

fun part_less :: "vpart \<Rightarrow> vpart \<Rightarrow> bool" where
  "part_less (Num a) (Num b) = (a < b)"
| "part_less (Tilde a) (Tilde b) = (a < b)"
| "part_less (Alpha a) (Alpha b) = (a < b)"
| "part_less (Other a) (Other b) = (a < b)"
| "part_less _ _ = False"

text \<open>
  The loop of \<open>vercmp_part\<close> over the two exploded lists; an exhausted list contributes
  \<open>(0, None)\<close>.  Equal first components mean equal constructors, so \<open>part_less\<close> compares
  values of one type.
\<close>

fun vercmp_loop :: "vpart list \<Rightarrow> vpart list \<Rightarrow> int" where
  "vercmp_loop [] [] = 0"
| "vercmp_loop [] (b # vb) =
     (if 0 < part_ord b then -1 else if 0 > part_ord b then 1 else -1)"
| "vercmp_loop (a # va) [] =
     (if part_ord a < 0 then -1 else if part_ord a > 0 then 1 else 1)"
| "vercmp_loop (a # va) (b # vb) =
     (if part_ord a < part_ord b then -1
      else if part_ord a > part_ord b then 1
      else if part_less a b then -1
      else if part_less b a then 1
      else vercmp_loop va vb)"

definition vercmp_part :: "string \<Rightarrow> string \<Rightarrow> int option" where
  "vercmp_part a b =
     (case (explode_version a, explode_version b) of
        (Some va, Some vb) \<Rightarrow> Some (vercmp_loop va vb)
      | _ \<Rightarrow> None)"

text \<open>An epoch is an \<open>int\<close> (from \<open>split_version\<close>), a string (from the recipe cache) or unset.\<close>

datatype epoch = EpNone | EpInt int | EpStr string

fun epoch_int :: "epoch \<Rightarrow> int option" where
  "epoch_int EpNone = Some 0"
| "epoch_int (EpInt e) = Some e"
| "epoch_int (EpStr s) = (if s = [] then Some 0 else py_int s)"

type_synonym version = "epoch \<times> string \<times> string"

text \<open>\<open>None\<close>: an epoch that is not a number, or a version with an inner newline.\<close>

fun vercmp :: "version \<Rightarrow> version \<Rightarrow> int option" where
  "vercmp (ea, va, ra) (eb, vb, rb) =
     (case (epoch_int ea, epoch_int eb) of
        (Some na, Some nb) \<Rightarrow>
          (let r = na - nb
           in if r \<noteq> 0 then Some r
              else (case vercmp_part va vb of
                      None \<Rightarrow> None
                    | Some r1 \<Rightarrow> if r1 \<noteq> 0 then Some r1 else vercmp_part ra rb))
      | _ \<Rightarrow> None)"

definition vercmp_string :: "string \<Rightarrow> string \<Rightarrow> int option" where
  "vercmp_string a b =
     (case (split_version a, split_version b) of
        (Some (ea, va, ra), Some (eb, vb, rb)) \<Rightarrow> vercmp (EpInt ea, va, ra) (EpInt eb, vb, rb)
      | _ \<Rightarrow> None)"

definition vercmp_string_op :: "string \<Rightarrow> string \<Rightarrow> string \<Rightarrow> bool result" where
  "vercmp_string_op a b op =
     (case vercmp_string a b of
        None \<Rightarrow> Inl ValueError
      | Some res \<Rightarrow>
          if op = ''='' \<or> op = ''=='' then Inr (res = 0)
          else if op = ''<='' then Inr (res \<le> 0)
          else if op = ''>='' then Inr (res \<ge> 0)
          else if op = ''>'' \<or> op = ''>>'' then Inr (res > 0)
          else if op = ''<'' \<or> op = ''<<'' then Inr (res < 0)
          else if op = ''!='' then Inr (res \<noteq> 0)
          else Inl VersionStringException)"

section \<open>A comparison that is a total preorder\<close>

text \<open>
  The interface between versions and their clients: a three-way comparison on the values of
  \<open>ok\<close> that is antisymmetric in sign and transitive.  A client that keeps the larger of the
  values it meets ends with a maximum.
\<close>

locale ver_order =
  fixes ok :: "'a \<Rightarrow> bool" and cmp :: "'a \<Rightarrow> 'a \<Rightarrow> int"
  assumes cmp_sym: "ok a \<Longrightarrow> ok b \<Longrightarrow> cmp b a = - cmp a b"
    and cmp_trans: "ok a \<Longrightarrow> ok b \<Longrightarrow> ok c \<Longrightarrow> cmp a b \<le> 0 \<Longrightarrow> cmp b c \<le> 0 \<Longrightarrow> cmp a c \<le> 0"
begin

lemma cmp_refl: "ok a \<Longrightarrow> cmp a a = 0"
  using cmp_sym [of a a] by simp

lemma cmp_total: "ok a \<Longrightarrow> ok b \<Longrightarrow> cmp a b \<le> 0 \<or> cmp b a \<le> 0"
  using cmp_sym [of a b] by arith

lemma cmp_less_trans:
  assumes "ok a" "ok b" "ok c" "cmp a b < 0" "cmp b c \<le> 0"
  shows "cmp a c < 0"
proof (rule ccontr)
  assume "\<not> cmp a c < 0"
  with assms cmp_sym [of a c] have "cmp c a \<le> 0" by simp
  with assms have "cmp b a \<le> 0" using cmp_trans [of b c a] by simp
  with assms cmp_sym [of a b] show False by simp
qed

text \<open>The fold of a maximum search: replace the best when it is smaller than the new one.\<close>

definition pick :: "'a \<Rightarrow> 'a \<Rightarrow> 'a" where
  "pick best x = (if cmp best x < 0 then x else best)"

lemma pick_ok: "ok a \<Longrightarrow> ok b \<Longrightarrow> ok (pick a b)"
  by (simp add: pick_def)

lemma foldl_pick_ok: "ok b \<Longrightarrow> \<forall>x \<in> set xs. ok x \<Longrightarrow> ok (foldl pick b xs)"
  by (induction xs arbitrary: b) (simp_all add: pick_ok)

lemma foldl_pick_in: "foldl pick b xs \<in> insert b (set xs)"
proof (induction xs arbitrary: b)
  case (Cons x xs)
  from Cons.IH [of "pick b x"] show ?case by (auto simp: pick_def split: if_splits)
qed simp

lemma pick_ge:
  assumes "ok a" "ok b"
  shows "cmp a (pick a b) \<le> 0" and "cmp b (pick a b) \<le> 0"
  using assms cmp_refl [of a] cmp_refl [of b] cmp_sym [of a b] by (auto simp: pick_def)

lemma foldl_pick_max:
  assumes "ok b" "\<forall>x \<in> set xs. ok x" "y \<in> insert b (set xs)"
  shows "cmp y (foldl pick b xs) \<le> 0"
  using assms
proof (induction xs arbitrary: b y)
  case Nil
  then show ?case using cmp_refl [of b] by simp
next
  case (Cons x xs)
  from Cons.prems have okx: "ok b" "ok x" "ok (pick b x)" and xs: "\<forall>z \<in> set xs. ok z"
    by (simp_all add: pick_ok)
  show ?case
  proof (cases "y \<in> set xs")
    case True
    with Cons.IH [OF okx(3) xs] show ?thesis by simp
  next
    case False
    with Cons.prems have "cmp y (pick b x) \<le> 0" "ok y"
      using pick_ge [OF okx(1,2)] okx by auto
    moreover have "cmp (pick b x) (foldl pick (pick b x) xs) \<le> 0"
      using Cons.IH [OF okx(3) xs] by simp
    ultimately show ?thesis
      using cmp_trans [OF _ okx(3) foldl_pick_ok [OF okx(3) xs], of y] by simp
  qed
qed

end

subsection \<open>The loop is a linear order on exploded versions\<close>

lemma part_less_irrefl [simp]: "\<not> part_less a a"
  by (cases a) auto

lemma part_eq:
  "part_ord a = part_ord b \<Longrightarrow> \<not> part_less a b \<Longrightarrow> \<not> part_less b a \<Longrightarrow> a = b"
  by (cases a; cases b) auto

lemma part_less_asym: "part_less a b \<Longrightarrow> \<not> part_less b a"
  by (cases a; cases b) auto

lemma part_less_trans: "part_less a b \<Longrightarrow> part_less b c \<Longrightarrow> part_less a c"
  by (cases a; cases b; cases c) auto

lemma part_less_ord: "part_less a b \<Longrightarrow> part_ord a = part_ord b"
  by (cases a; cases b) auto

lemma vercmp_loop_sym: "vercmp_loop vb va = - vercmp_loop va vb"
  by (induction va vb rule: vercmp_loop.induct) (auto dest: part_less_asym)

lemma vercmp_loop_refl [simp]: "vercmp_loop va va = 0"
  by (induction va) auto

lemma vercmp_loop_0 [simp]: "vercmp_loop va vb = 0 \<longleftrightarrow> va = vb"
  by (induction va vb rule: vercmp_loop.induct) (auto split: if_splits dest: part_eq)

lemma vercmp_loop_range: "vercmp_loop va vb \<in> {-1, 0, 1}"
  by (induction va vb rule: vercmp_loop.induct) auto

lemma vercmp_loop_less_Cons:
  "vercmp_loop (a # va) (b # vb) < 0 \<longleftrightarrow>
     part_ord a < part_ord b \<or> part_less a b \<or> (a = b \<and> vercmp_loop va vb < 0)"
  by (auto dest: part_less_asym part_less_ord part_eq)

lemma vercmp_loop_Nil_less: "vercmp_loop [] (b # vb) < 0 \<longleftrightarrow> 0 \<le> part_ord b"
  by auto

lemma vercmp_loop_less_Nil: "vercmp_loop (a # va) [] < 0 \<longleftrightarrow> part_ord a < 0"
  by auto

lemma vercmp_loop_trans:
  "vercmp_loop va vb < 0 \<Longrightarrow> vercmp_loop vb vc < 0 \<Longrightarrow> vercmp_loop va vc < 0"
proof (induction va arbitrary: vb vc)
  case Nil
  show ?case
  proof (cases vb)
    case Nil
    with Nil.prems show ?thesis by simp
  next
    case (Cons b vb')
    with Nil.prems show ?thesis
      by (cases vc) (auto simp only: vercmp_loop_less_Cons vercmp_loop_Nil_less
          vercmp_loop_less_Nil dest: part_less_ord)
  qed
next
  case (Cons a va)
  show ?case
  proof (cases vb)
    case Nil
    with Cons.prems show ?thesis
      by (cases vc) (auto simp only: vercmp_loop_less_Cons vercmp_loop_Nil_less
          vercmp_loop_less_Nil dest: part_less_ord)
  next
    case vb: (Cons b vb')
    show ?thesis
    proof (cases vc)
      case Nil
      with Cons.prems vb show ?thesis
        by (auto simp only: vercmp_loop_less_Cons vercmp_loop_less_Nil dest: part_less_ord)
    next
      case vc: (Cons c vc')
      have IH: "vercmp_loop va vb' < 0 \<Longrightarrow> vercmp_loop vb' vc' < 0 \<Longrightarrow> vercmp_loop va vc' < 0"
        by (rule Cons.IH)
      from Cons.prems vb vc show ?thesis
        unfolding vb vc vercmp_loop_less_Cons
        using part_less_trans [of a b c] part_less_ord [of a b] part_less_ord [of b c] IH by auto
    qed
  qed
qed

lemma vercmp_loop_le_trans:
  assumes "vercmp_loop va vb \<le> 0" "vercmp_loop vb vc \<le> 0"
  shows "vercmp_loop va vc \<le> 0"
  using assms vercmp_loop_trans [of va vb vc] vercmp_loop_0 [of va vb] vercmp_loop_0 [of vb vc]
  by (metis order_le_less)

interpretation parts: ver_order "\<lambda>_. True" vercmp_loop
  by unfold_locales (auto intro: vercmp_loop_sym vercmp_loop_le_trans)

text \<open>Comparing a list with its own extension depends on the first new part alone.\<close>

lemma vercmp_loop_append:
  "vercmp_loop (xs @ y # ys) xs = (if part_ord y < 0 then -1 else 1)"
  by (induction xs) auto

lemma vercmp_loop_common: "vercmp_loop (xs @ va) (xs @ vb) = vercmp_loop va vb"
  by (induction xs) auto

subsection \<open>Exploding a version\<close>

lemma is_digit_code: "is_digit c \<Longrightarrow> \<not> is_letter c \<and> c \<noteq> CHR ''~''"
  by (auto simp: is_digit_def is_letter_def code_def)

lemma is_letter_code: "is_letter c \<Longrightarrow> \<not> is_digit c \<and> c \<noteq> CHR ''~''"
  by (auto simp: is_digit_def is_letter_def code_def)

lemma explode_version_Nil [simp]: "explode_version [] = Some []"
  by (subst explode_version.simps) simp

text \<open>The parts of a version without newlines, as a total function of the same recursion.\<close>

definition parts_of :: "string \<Rightarrow> vpart list" where
  "parts_of s = the (explode_version s)"

lemma nl_dropWhile: "newline \<notin> set s \<Longrightarrow> newline \<notin> set (dropWhile P s)"
  by (meson set_dropWhileD)

lemma explode_version_digit:
  "newline \<notin> set cs \<Longrightarrow> is_digit c \<Longrightarrow>
     explode_version (c # cs) =
       map_option ((#) (Num (nat_of_digits (c # takeWhile is_digit cs))))
         (explode_version (dropWhile is_digit cs))"
  by (subst explode_version.simps) (simp add: nl_dropWhile)

lemma explode_version_letter:
  "newline \<notin> set cs \<Longrightarrow> is_letter c \<Longrightarrow>
     explode_version (c # cs) =
       map_option ((#) (Alpha (c # takeWhile is_letter cs)))
         (explode_version (dropWhile is_letter cs))"
  by (subst explode_version.simps) (simp add: nl_dropWhile is_letter_code)

text \<open>A character that is no letter and no digit always starts a part of its own.\<close>

definition sep_part :: "char \<Rightarrow> vpart" where
  "sep_part c = (if c = CHR ''~'' then Tilde [c] else Other [c])"

lemma explode_version_sep:
  "\<not> is_digit c \<Longrightarrow> \<not> is_letter c \<Longrightarrow>
     explode_version (c # t) = map_option ((#) (sep_part c)) (explode_version t)"
  by (subst explode_version.simps) (simp add: sep_part_def)

lemma explode_version_total:
  "newline \<notin> set s \<Longrightarrow> explode_version s = Some (parts_of s)"
proof (induction s rule: measure_induct_rule [of length])
  case (less s)
  have "\<exists>ps. explode_version s = Some ps"
  proof (cases s)
    case (Cons c cs)
    with less.prems have nl: "newline \<notin> set cs" by simp
    have IH: "explode_version (dropWhile P cs) = Some (parts_of (dropWhile P cs))" for P
      by (rule less.IH) (simp_all add: Cons nl_dropWhile nl less_Suc_eq_le length_dropWhile_le)
    have IH': "explode_version cs = Some (parts_of cs)"
      by (rule less.IH) (simp_all add: Cons nl)
    consider "is_digit c" | "is_letter c" | "\<not> is_letter c" "\<not> is_digit c" by blast
    then show ?thesis
      by cases (simp_all add: Cons nl IH IH' explode_version_digit explode_version_letter
          explode_version_sep)
  qed simp
  then show ?case by (auto simp: parts_of_def)
qed

lemma dropWhile_sep: "\<not> P c \<Longrightarrow> dropWhile P (s @ c # t) = dropWhile P s @ c # t"
  by (induction s) auto

lemma takeWhile_sep: "\<not> P c \<Longrightarrow> takeWhile P (s @ c # t) = takeWhile P s"
  by (induction s) auto

lemma explode_version_append:
  assumes "newline \<notin> set s" "newline \<notin> set t" "newline \<noteq> c" "\<not> is_digit c" "\<not> is_letter c"
  shows "explode_version (s @ c # t) = Some (parts_of s @ sep_part c # parts_of t)"
  using assms(1)
proof (induction s rule: measure_induct_rule [of length])
  case (less s)
  show ?case
  proof (cases s)
    case Nil
    then show ?thesis
      using assms by (simp add: explode_version_sep explode_version_total [of t] parts_of_def [of "[]"])
  next
    case (Cons a as)
    with less.prems have nl: "newline \<notin> set as" "newline \<notin> set (as @ c # t)"
      using assms by auto
    have IH: "explode_version (dropWhile P as @ c # t) =
        Some (parts_of (dropWhile P as) @ sep_part c # parts_of t)" for P
      by (rule less.IH) (simp_all add: Cons nl_dropWhile nl less_Suc_eq_le length_dropWhile_le)
    have IH': "explode_version (as @ c # t) = Some (parts_of as @ sep_part c # parts_of t)"
      by (rule less.IH) (simp_all add: Cons nl)
    note tot = explode_version_total [OF nl(1)] explode_version_total [OF nl_dropWhile [OF nl(1)]]
    consider "is_digit a" | "is_letter a" | "\<not> is_letter a" "\<not> is_digit a" by blast
    then show ?thesis
    proof cases
      case 1
      with nl tot(2) [of is_digit] IH [of is_digit] assms(4) show ?thesis
        by (simp add: Cons parts_of_def [of "a # as"] explode_version_digit dropWhile_sep
            takeWhile_sep)
    next
      case 2
      with nl tot(2) [of is_letter] IH [of is_letter] assms(5) show ?thesis
        by (simp add: Cons parts_of_def [of "a # as"] explode_version_letter dropWhile_sep
            takeWhile_sep)
    next
      case 3
      with tot(1) IH' show ?thesis
        by (simp add: Cons parts_of_def [of "a # as"] explode_version_sep)
    qed
  qed
qed

section \<open>Versions as a whole\<close>

definition comparable :: "version \<Rightarrow> bool" where
  "comparable t =
     (case t of (e, v, r) \<Rightarrow> epoch_int e \<noteq> None \<and> newline \<notin> set v \<and> newline \<notin> set r)"

definition vercmp_val :: "version \<Rightarrow> version \<Rightarrow> int" where
  "vercmp_val a b = the (vercmp a b)"

definition epoch_of :: "version \<Rightarrow> int" where
  "epoch_of t = the (epoch_int (fst t))"

lemma vercmp_comparable:
  assumes "comparable (ea, va, ra)" "comparable (eb, vb, rb)"
  shows "vercmp (ea, va, ra) (eb, vb, rb) =
    Some (let r = the (epoch_int ea) - the (epoch_int eb);
              r1 = vercmp_loop (parts_of va) (parts_of vb)
          in if r \<noteq> 0 then r else if r1 \<noteq> 0 then r1
             else vercmp_loop (parts_of ra) (parts_of rb))"
  using assms by (auto simp: comparable_def vercmp_part_def explode_version_total Let_def)

lemma vercmp_val_eq:
  "comparable (ea, va, ra) \<Longrightarrow> comparable (eb, vb, rb) \<Longrightarrow>
   vercmp_val (ea, va, ra) (eb, vb, rb) =
    (let r = the (epoch_int ea) - the (epoch_int eb);
         r1 = vercmp_loop (parts_of va) (parts_of vb)
     in if r \<noteq> 0 then r else if r1 \<noteq> 0 then r1
        else vercmp_loop (parts_of ra) (parts_of rb))"
  by (simp only: vercmp_val_def vercmp_comparable option.sel)

lemma vercmp_Some: "comparable a \<Longrightarrow> comparable b \<Longrightarrow> vercmp a b = Some (vercmp_val a b)"
  by (cases a; cases b) (simp only: vercmp_val_def vercmp_comparable option.sel)

interpretation ver: ver_order comparable vercmp_val
proof
  fix a b assume "comparable a" "comparable b"
  then show "vercmp_val b a = - vercmp_val a b"
    using vercmp_loop_sym [of "parts_of (fst (snd a))" "parts_of (fst (snd b))"]
      vercmp_loop_sym [of "parts_of (snd (snd a))" "parts_of (snd (snd b))"]
    by (cases a; cases b) (simp add: vercmp_val_eq Let_def del: vercmp_loop_0)
next
  fix a b c assume ok: "comparable a" "comparable b" "comparable c"
    and le: "vercmp_val a b \<le> 0" "vercmp_val b c \<le> 0"
  obtain ea va ra eb vb rb ec vc rc
    where abc: "a = (ea, va, ra)" "b = (eb, vb, rb)" "c = (ec, vc, rc)"
    by (metis prod_cases3)
  show "vercmp_val a c \<le> 0"
    using ok le vercmp_loop_trans [of "parts_of va" "parts_of vb" "parts_of vc"]
      vercmp_loop_le_trans [of "parts_of ra" "parts_of rb" "parts_of rc"]
    by (auto simp: abc vercmp_val_eq Let_def order_le_less split: if_splits)
qed

text \<open>
  C19: on versions whose epoch is a number and whose parts are free of newlines, \<open>vercmp\<close>
  always returns; swapping the arguments negates the result, and being not newer is
  transitive.  So selecting a newest version by pairwise comparison is meaningful.
\<close>

theorem vercmp_total_preorder:
  assumes "comparable a" "comparable b" "comparable c"
  shows "\<exists>x y z. vercmp a b = Some x \<and> vercmp b a = Some (- x) \<and> vercmp b c = Some y \<and>
           vercmp a c = Some z \<and> (x \<le> 0 \<and> y \<le> 0 \<longrightarrow> z \<le> 0)"
  using ver.cmp_sym [OF assms(1,2)] ver.cmp_trans [OF assms] assms
  by (simp add: vercmp_Some)

theorem vercmp_total_preorder_witness:
  "\<exists>x y z. vercmp (EpStr [], ''1.9'', ''r0'') (EpInt 0, ''1.10'', ''r0'') = Some x \<and>
     vercmp (EpInt 0, ''1.10'', ''r0'') (EpStr [], ''1.9'', ''r0'') = Some (- x) \<and>
     vercmp (EpInt 0, ''1.10'', ''r0'') (EpInt 1, ''0.1'', []) = Some y \<and>
     vercmp (EpStr [], ''1.9'', ''r0'') (EpInt 1, ''0.1'', []) = Some z \<and>
     (x \<le> 0 \<and> y \<le> 0 \<longrightarrow> z \<le> 0)"
  by (rule vercmp_total_preorder) (simp_all add: comparable_def)





end
