(* ===== verification/DepStrings.thy ===== *)
theory DepStrings
  imports Prelude
begin

text \<open>
  Dependency strings, \<open>poky/bitbake/lib/bb/utils.py\<close>: \<open>explode_deps\<close>,
  \<open>explode_dep_versions2\<close>, \<open>explode_dep_versions\<close> and \<open>join_deps\<close>.  A result of
  \<open>explode_dep_versions2\<close> is a dict from a dependency to the list of its constraints; its key
  is an option because a constraint before any name is stored under Python's \<open>None\<close>.
\<close>

section \<open>The parsers and the printer\<close>

fun explode_deps_loop :: "bool \<Rightarrow> string list \<Rightarrow> string list" where
  "explode_deps_loop flag [] = []"
| "explode_deps_loop flag (i # l) =
     (let flag1 = (flag \<or> hd i = CHR ''('');
          rest = explode_deps_loop (flag1 \<and> \<not> endswith i '')'') l
      in if flag1 then rest else i # rest)"

definition explode_deps :: "string \<Rightarrow> string list" where
  "explode_deps s = explode_deps_loop False (split_ws s)"

type_synonym dep_dict = "(string option \<times> string list) list"

record dep_state =
  ds_r :: dep_dict
  lastdep :: "string option"
  lastcmp :: string
  lastver :: string
  incmp :: bool
  inversion :: bool

definition dep_state0 :: dep_state where
  "dep_state0 = \<lparr>ds_r = [], lastdep = None, lastcmp = [], lastver = [], incmp = False,
     inversion = False\<rparr>"

definition two_char_ops :: "string list" where
  "two_char_ops = [''<='', ''=<'', ''<<'', ''=='', ''!='', ''>='', ''=>'', ''>>'']"

text \<open>
  The part of the loop body after the handling of the operator: inside a version
  (\<open>inversion\<close>) the word is a piece of the version, otherwise it is a dependency name.
\<close>

definition dep_word :: "string \<Rightarrow> dep_state \<Rightarrow> dep_state" where
  "dep_word i st =
     (if inversion st then
        (let close = endswith i '')'';
             i1 = (if close then butlast i else i);
             ver1 = (if close \<and> lastver st \<noteq> [] \<and> i1 \<noteq> [] then lastver st @ '' '' else lastver st);
             st1 = st\<lparr>inversion := \<not> close, lastver := ver1\<rparr>
         in if i1 = [] then st1
            else (let ver2 = ver1 @ i1;
                      old = dget_or (ds_r st) (lastdep st) []
                  in st1\<lparr>lastver := ver2,
                         ds_r := dset (lastdep st) (old @ [lastcmp st @ '' '' @ ver2]) (ds_r st)\<rparr>))
      else
        st\<lparr>lastdep := Some i, lastver := [], lastcmp := [],
           ds_r := (if dget_or (ds_r st) (Some i) [] \<noteq> [] then ds_r st
                    else dset (Some i) [] (ds_r st))\<rparr>)"

text \<open>One iteration of the loop: \<open>Inl\<close> is the raised exception.\<close>

definition dep_step :: "dep_state \<Rightarrow> string \<Rightarrow> dep_state result" where
  "dep_step st i0 =
     (let opening = (hd i0 = CHR ''('');
          i = (if opening then strip_by is_space (tl i0) else i0);
          st0 = (if opening then st\<lparr>incmp := True\<rparr> else st)
      in if opening \<and> i = [] then Inr st0
         else if incmp st0 then
           (let st1 = st0\<lparr>incmp := False, inversion := True\<rparr>
            in if \<exists>op \<in> set two_char_ops. startswith i op then
                 (let st2 = st1\<lparr>lastcmp := take 2 i\<rparr>; i2 = drop 2 i
                  in Inr (if i2 = [] then st2 else dep_word i2 st2))
               else if startswith i ''<'' \<or> startswith i ''>'' \<or> startswith i ''='' then
                 (let st2 = st1\<lparr>lastcmp := take 1 i\<rparr>; i2 = drop 1 i
                  in Inr (if i2 = [] then st2 else dep_word i2 st2))
               else Inl VersionStringException)
         else Inr (dep_word i st0))"

fun dep_loop :: "dep_state \<Rightarrow> string list \<Rightarrow> dep_state result" where
  "dep_loop st [] = Inr st"
| "dep_loop st (i # l) = bind_res (dep_step st i) (\<lambda>st'. dep_loop st' l)"

text \<open>
  \<open>sorted(r.items(), key=lambda x: x[0])\<close>: comparing \<open>None\<close> with a string raises
  \<open>TypeError\<close>; a single item is not compared with anything.
\<close>

definition sort_deps :: "dep_dict \<Rightarrow> dep_dict result" where
  "sort_deps r =
     (if None \<in> set (dkeys r) \<and> length r > 1 then Inl TypeError
      else Inr (sort_key (\<lambda>x. case fst x of None \<Rightarrow> [] | Some k \<Rightarrow> k) r))"

definition explode_dep_versions2 :: "string \<Rightarrow> bool \<Rightarrow> dep_dict result" where
  "explode_dep_versions2 s srt =
     bind_res (dep_loop dep_state0 (split_ws (remove_char (CHR '','') s)))
       (\<lambda>st. if srt then sort_deps (ds_r st) else Inr (ds_r st))"

text \<open>A later constraint on the same name is dropped (with a warning the model leaves out).\<close>

definition explode_dep_versions :: "string \<Rightarrow> (string option \<times> string option) list result" where
  "explode_dep_versions s =
     bind_res (explode_dep_versions2 s True)
       (\<lambda>r. Inr (map (\<lambda>(d, vs). (d, case vs of [] \<Rightarrow> None | v # _ \<Rightarrow> Some v)) r))"

definition dep_entry :: "string \<times> string list \<Rightarrow> string list" where
  "dep_entry e =
     (case e of (d, []) \<Rightarrow> [d] | (d, vs) \<Rightarrow> map (\<lambda>v. d @ '' ('' @ v @ '')'') vs)"

text \<open>
  \<open>join_deps\<close> on a dict of lists.  A scalar version is passed as the one-element list and an
  unset one as the empty list: the branches compute the same entry.
\<close>

definition join_deps :: "(string \<times> string list) list \<Rightarrow> bool \<Rightarrow> string" where
  "join_deps deps commasep =
     join (if commasep then '', '' else '' '') (concat (map dep_entry deps))"

section \<open>Printing and parsing\<close>

text \<open>
  What a name and a constraint must look like to survive: names and versions are plain words
  (no space, comma or parenthesis), a name does not start like a constraint, and a constraint
  is one of the listed operators, a blank and a version that does not extend the operator.
\<close>

definition plain :: "string \<Rightarrow> bool" where
  "plain w \<longleftrightarrow> w \<noteq> [] \<and> (\<forall>c \<in> set w. \<not> is_space c \<and> c \<notin> {CHR '','', CHR ''('', CHR '')''})"

definition dep_ops :: "string list" where
  "dep_ops = two_char_ops @ [''<'', ''>'', ''='']"

text \<open>A constraint \<open>op ver\<close> that is a possible value of the dict.\<close>

definition constraint_ok :: "string \<Rightarrow> bool" where
  "constraint_ok c \<longleftrightarrow> (\<exists>op \<in> set dep_ops. \<exists>v. c = op @ '' '' @ v \<and> plain v)"

definition dep_ok :: "string \<times> string list \<Rightarrow> bool" where
  "dep_ok e \<longleftrightarrow> plain (fst e) \<and> (\<forall>c \<in> set (snd e). constraint_ok c)"

lemma plain_not_Nil [simp]: "plain w \<Longrightarrow> w \<noteq> []"
  by (simp add: plain_def)

lemma plain_space: "plain w \<Longrightarrow> c \<in> set w \<Longrightarrow> \<not> is_space c"
  by (simp add: plain_def)

lemma plain_hd: "plain w \<Longrightarrow> hd w \<noteq> CHR ''(''"
  by (cases w) (simp_all add: plain_def)

lemma not_space_chars [simp]:
  "\<not> is_space (CHR ''('')" "\<not> is_space (CHR '')'')" "\<not> is_space (CHR ''<'')"
  "\<not> is_space (CHR ''>'')" "\<not> is_space (CHR ''='')" "\<not> is_space (CHR ''!'')"
  by (simp_all add: is_space_def code_def)

lemma dep_ops_word:
  "\<forall>op \<in> set dep_ops. op \<noteq> [] \<and> (\<forall>c \<in> set op. \<not> is_space c \<and> c \<noteq> CHR '','')"
  by (simp add: dep_ops_def two_char_ops_def)

lemma dep_ops_split:
  "\<forall>op \<in> set dep_ops. strip_by is_space op = op \<and>
     (if \<exists>o2 \<in> set two_char_ops. startswith op o2 then take 2 op = op \<and> drop 2 op = []
      else (startswith op ''<'' \<or> startswith op ''>'' \<or> startswith op ''='') \<and>
        take 1 op = op \<and> drop 1 op = [])"
  by (simp add: dep_ops_def two_char_ops_def strip_by_def)

text \<open>The tokens of one printed entry.\<close>

definition con_tokens :: "string \<Rightarrow> string list" where
  "con_tokens c = split_ws (''('' @ c @ '')'')"

text \<open>The words of an entry with one constraint, and the two steps that read the constraint.\<close>

lemma con_tokens_ok:
  assumes "op \<in> set dep_ops" "plain v"
  shows "con_tokens (op @ CHR '' '' # v) = [CHR ''('' # op, v @ '')'']"
  using split_ws_word_append [of "CHR ''('' # op" "CHR '' ''" "v @ '')''"]
    split_ws_word [of "v @ '')''"] bspec [OF dep_ops_word assms(1)] plain_space [OF assms(2)]
  by (auto simp: con_tokens_def)

lemma suffix_snoc [simp]: "suffix [x] (xs @ [y]) \<longleftrightarrow> x = y"
  by (auto simp: suffix_def)

lemma dep_step_name:
  assumes "plain d" "\<not> inversion st" "\<not> incmp st"
  shows "dep_step st d = Inr (st\<lparr>lastdep := Some d, lastver := [], lastcmp := [],
     ds_r := (if dget_or (ds_r st) (Some d) [] \<noteq> [] then ds_r st else dset (Some d) [] (ds_r st))\<rparr>)"
  using assms plain_hd [OF assms(1)] by (simp add: dep_step_def dep_word_def)

lemma dep_step_op:
  assumes "op \<in> set dep_ops" "\<not> incmp st"
  shows "dep_step st (CHR ''('' # op) = Inr (st\<lparr>inversion := True, lastcmp := op, incmp := False\<rparr>)"
  using bspec [OF dep_ops_split assms(1)] bspec [OF dep_ops_word assms(1)] assms(2)
  by (cases "\<exists>o2 \<in> set two_char_ops. startswith op o2") (auto simp: dep_step_def)

lemma dep_step_ver:
  assumes "plain v" "inversion st" "\<not> incmp st" "lastver st = []"
  shows "dep_step st (v @ '')'') =
    Inr (st\<lparr>inversion := False, lastver := v,
      ds_r := dset (lastdep st) (dget_or (ds_r st) (lastdep st) [] @ [lastcmp st @ '' '' @ v]) (ds_r st)\<rparr>)"
proof -
  from assms(1) plain_hd [OF assms(1)] have "hd (v @ '')'') \<noteq> CHR ''(''" "v \<noteq> []"
    by (auto simp: hd_append)
  with assms show ?thesis by (simp add: dep_step_def dep_word_def Let_def)
qed

text \<open>The state between two entries, up to the fields the next entry overwrites.\<close>

definition between :: "dep_state \<Rightarrow> dep_dict \<Rightarrow> bool" where
  "between st r \<longleftrightarrow> ds_r st = r \<and> \<not> incmp st \<and> \<not> inversion st"

lemma dep_loop_append:
  "dep_loop st (xs @ ys) = bind_res (dep_loop st xs) (\<lambda>st'. dep_loop st' ys)"
proof (induction xs arbitrary: st)
  case (Cons x xs)
  then show ?case by (cases "dep_step st x") auto
qed simp

lemma dep_loop_con:
  assumes "between st r" "plain d" "constraint_ok c"
  shows "\<exists>st'. dep_loop st (d # con_tokens c) = Inr st' \<and>
           between st' (dset (Some d) (dget_or r (Some d) [] @ [c]) (if dget_or r (Some d) [] = []
             then dset (Some d) [] r else r))"
proof -
  from assms(3) obtain op v where c: "op \<in> set dep_ops" "c = op @ '' '' @ v" "plain v"
    by (auto simp: constraint_ok_def)
  show ?thesis
    using assms(1,2) c(3)
    by (auto simp: c(2) con_tokens_ok [OF c(1)] dep_step_name dep_step_op [OF c(1)]
        dep_step_ver between_def dep_ops_word)
qed

lemma dep_loop_cons:
  assumes "between st (r @ [(Some d, us)])" "plain d" "Some d \<notin> set (dkeys r)"
    and "\<forall>c \<in> set vs. constraint_ok c"
  shows "\<exists>st'. dep_loop st (concat (map (\<lambda>c. d # con_tokens c) vs)) = Inr st' \<and>
           between st' (r @ [(Some d, us @ vs)])"
  using assms(1,4)
proof (induction vs arbitrary: st us)
  case (Cons v vs)
  from dep_loop_con [OF Cons.prems(1) assms(2), of v] Cons.prems(2) assms(3)
  obtain st1 where st1: "dep_loop st (d # con_tokens v) = Inr st1"
      "between st1 (r @ [(Some d, us @ [v])])"
    by (auto simp: dset_append_old simp del: dep_loop.simps split: if_splits)
  from Cons.prems(2) obtain st2
    where "dep_loop st1 (concat (map (\<lambda>c. d # con_tokens c) vs)) = Inr st2"
      "between st2 (r @ [(Some d, us @ v # vs)])"
    using Cons.IH [OF st1(2)] by auto
  with st1(1) show ?case
    using dep_loop_append [of st "d # con_tokens v"] by (simp del: dep_loop.simps)
qed simp

definition entry_tokens :: "string \<times> string list \<Rightarrow> string list" where
  "entry_tokens e =
     (if snd e = [] then [fst e] else concat (map (\<lambda>c. fst e # con_tokens c) (snd e)))"

lemma dep_loop_entry:
  assumes "between st r" "dep_ok e" "Some (fst e) \<notin> set (dkeys r)"
  shows "\<exists>st'. dep_loop st (entry_tokens e) = Inr st' \<and> between st' (r @ [(Some (fst e), snd e)])"
proof -
  obtain d vs where e: "e = (d, vs)" by (cases e)
  from assms(2) have d: "plain d" and vs: "\<forall>c \<in> set vs. constraint_ok c"
    by (auto simp: dep_ok_def e)
  have new: "dget_or r (Some d) [] = []"
    using assms(3) by (simp add: e)
  show ?thesis
  proof (cases vs)
    case Nil
    then show ?thesis
      using assms new d by (auto simp: e entry_tokens_def dep_step_name between_def dset_new)
  next
    case (Cons c cs)
    from dep_loop_con [OF assms(1) d, of c] vs Cons assms(3) new
    obtain st1 where st1: "dep_loop st (d # con_tokens c) = Inr st1"
        "between st1 (r @ [(Some d, [c])])"
      by (auto simp: e dset_new dset_append_old simp del: dep_loop.simps)
    from assms(3) vs Cons e
    obtain st2 where "dep_loop st1 (concat (map (\<lambda>c. d # con_tokens c) cs)) = Inr st2"
        "between st2 (r @ [(Some d, c # cs)])"
      using dep_loop_cons [OF st1(2) d, of cs] by auto
    moreover have "entry_tokens e =
        (d # con_tokens c) @ concat (map (\<lambda>c. d # con_tokens c) cs)"
      by (simp add: e Cons entry_tokens_def)
    ultimately show ?thesis
      using st1(1) dep_loop_append [of st "d # con_tokens c"]
      by (simp add: e Cons del: dep_loop.simps)
  qed
qed

lemma dep_loop_entries:
  assumes "between st r" "\<forall>e \<in> set es. dep_ok e" "distinct (dkeys es)"
    and "\<forall>e \<in> set es. Some (fst e) \<notin> set (dkeys r)"
  shows "\<exists>st'. dep_loop st (concat (map entry_tokens es)) = Inr st' \<and>
           between st' (r @ map (\<lambda>e. (Some (fst e), snd e)) es)"
  using assms
proof (induction es arbitrary: st r)
  case (Cons e es)
  from dep_loop_entry [OF Cons.prems(1), of e] Cons.prems
  obtain st1 where st1: "dep_loop st (entry_tokens e) = Inr st1"
      "between st1 (r @ [(Some (fst e), snd e)])"
    by auto
  have "\<forall>e' \<in> set es. Some (fst e') \<notin> set (dkeys (r @ [(Some (fst e), snd e)]))"
    using Cons.prems(3,4) by (auto simp: image_iff)
  with Cons.IH [OF st1(2)] Cons.prems(2,3) obtain st2
    where "dep_loop st1 (concat (map entry_tokens es)) = Inr st2"
      "between st2 ((r @ [(Some (fst e), snd e)]) @ map (\<lambda>e. (Some (fst e), snd e)) es)"
    by auto
  with st1(1) show ?case by (simp add: dep_loop_append)
qed simp

lemma insort_key_Some:
  "insort_key (\<lambda>x. case fst x of None \<Rightarrow> [] | Some k \<Rightarrow> k) (Some (fst a), snd a)
       (map (\<lambda>e. (Some (fst e), snd e)) xs) =
     map (\<lambda>e. (Some (fst e), snd e)) (insort_key fst a xs)"
  by (induction xs) auto

lemma sort_key_map_Some:
  "sort_key (\<lambda>x. case fst x of None \<Rightarrow> [] | Some k \<Rightarrow> k) (map (\<lambda>e. (Some (fst e), snd e)) es) =
     map (\<lambda>e. (Some (fst e), snd e)) (sort_key fst es)"
  by (induction es) (simp_all add: insort_key_Some)

text \<open>Printing gives back exactly the tokens.\<close>

lemma plain_comma: "plain w \<Longrightarrow> CHR '','' \<notin> set w"
  by (auto simp: plain_def)

lemma dep_entry_tokens:
  assumes "dep_ok e"
  shows "concat (map split_ws (map (remove_char (CHR '','')) (dep_entry e))) = entry_tokens e"
proof -
  obtain d vs where e: "e = (d, vs)" by (cases e)
  from assms have d: "plain d" "CHR '','' \<notin> set d" and vs: "\<forall>c \<in> set vs. constraint_ok c"
    by (auto simp: dep_ok_def e plain_def)
  have sd: "split_ws d = [d]" using d(1) by (auto simp: plain_def intro: split_ws_word)
  have c: "CHR '','' \<notin> set c" if "c \<in> set vs" for c
    using vs that dep_ops_word by (fastforce simp: constraint_ok_def dest: plain_comma)
  have one: "split_ws (remove_char (CHR '','') (d @ '' ('' @ c @ '')'')) = d # con_tokens c"
    if "c \<in> set vs" for c
    using c [OF that] d(2) sd by (simp add: remove_char_Cons split_ws_append con_tokens_def)
  show ?thesis
  proof (cases "vs = []")
    case True
    then show ?thesis using sd d(2) by (simp add: e dep_entry_def entry_tokens_def)
  next
    case False
    then have "dep_entry e = map (\<lambda>v. d @ '' ('' @ v @ '')'') vs"
      by (cases vs) (simp_all add: e dep_entry_def)
    then have "map split_ws (map (remove_char (CHR '','')) (dep_entry e)) =
        map (\<lambda>c. d # con_tokens c) vs"
      using one by (simp only: map_map comp_def) (simp cong: map_cong)
    then show ?thesis using False by (simp add: e entry_tokens_def)
  qed
qed

lemma join_deps_tokens:
  assumes "\<forall>e \<in> set es. dep_ok e"
  shows "split_ws (remove_char (CHR '','') (join_deps es cs)) = concat (map entry_tokens es)"
proof -
  have "split_ws (remove_char (CHR '','') (join_deps es cs)) =
      concat (map split_ws (map (remove_char (CHR '','')) (concat (map dep_entry es))))"
    by (cases cs) (simp_all add: join_deps_def remove_char_join remove_char_Cons split_ws_join)
  also have "\<dots> = concat (map entry_tokens es)"
    using assms dep_entry_tokens by (induction es) auto
  finally show ?thesis .
qed

text \<open>
  C21: parsing what \<open>join_deps\<close> prints gives the printed dict back, with or without commas,
  for every dict with distinct plain names and well-formed constraints; with \<open>sort\<close> the dict
  comes back ordered by name.
\<close>

theorem explode_join_deps:
  assumes "\<forall>e \<in> set es. dep_ok e" "wf_dict es"
  shows "explode_dep_versions2 (join_deps es cs) False = Inr (map (\<lambda>e. (Some (fst e), snd e)) es) \<and>
         explode_dep_versions2 (join_deps es cs) True =
           Inr (map (\<lambda>e. (Some (fst e), snd e)) (sort_key fst es))"
proof -
  have "between dep_state0 []" by (simp add: between_def dep_state0_def)
  from dep_loop_entries [OF this assms(1)] assms(2)
  obtain st where "dep_loop dep_state0 (concat (map entry_tokens es)) = Inr st"
      "ds_r st = map (\<lambda>e. (Some (fst e), snd e)) es"
    by (auto simp: wf_dict_def between_def)
  then show ?thesis
    by (simp add: explode_dep_versions2_def join_deps_tokens [OF assms(1)] sort_deps_def
        sort_key_map_Some image_iff)
qed

theorem explode_join_deps_witness:
  "explode_dep_versions2 (join_deps [(''libc'', [''>= 2.38'']), (''gcc'', [])] True) False =
     Inr [(Some ''libc'', [''>= 2.38'']), (Some ''gcc'', [])]"
proof -
  have "constraint_ok ''>= 2.38''"
    unfolding constraint_ok_def
    by (rule bexI [of _ "''>=''"], rule exI [of _ "''2.38''"])
      (simp_all add: plain_def is_space_def code_def dep_ops_def two_char_ops_def)
  then have "dep_ok (''libc'', [''>= 2.38''])" "dep_ok (''gcc'', [])"
    by (simp_all add: dep_ok_def plain_def is_space_def code_def)
  then show ?thesis
    using explode_join_deps [of "[(''libc'', [''>= 2.38'']), (''gcc'', [])]" True]
    by (simp add: wf_dict_def)
qed

end
