(* ===== verification/Tids.thy ===== *)
theory Tids
  imports Prelude
begin

text \<open>
  Task identifiers and task counters, \<open>poky/bitbake/lib/bb/runqueue.py\<close>: the functions that
  take a task id \<open>[mc:<config>:]<recipe file>:<task>\<close> apart and build it, the index that pairs
  deferred tasks across configurations, and \<open>RunQueueStats\<close>.  A \<open>None\<close> result is the
  \<open>IndexError\<close> of an id without a colon.
\<close>

section \<open>Taking task ids apart\<close>

definition fn_from_tid :: "string \<Rightarrow> string" where
  "fn_from_tid tid = (case rsplit1 (CHR '':'') tid of None \<Rightarrow> tid | Some (fn, _) \<Rightarrow> fn)"

definition taskname_from_tid :: "string \<Rightarrow> string option" where
  "taskname_from_tid tid = map_option snd (rsplit1 (CHR '':'') tid)"

text \<open>The test all four functions share: a multiconfig id.\<close>

definition is_mc :: "string \<Rightarrow> bool" where
  "is_mc n \<longleftrightarrow> startswith n ''mc:'' \<and> 2 \<le> count_char (CHR '':'') n"

definition mc_from_tid :: "string \<Rightarrow> string" where
  "mc_from_tid tid = (if is_mc tid then split_on (CHR '':'') tid ! 1 else [])"

definition split_mc :: "string \<Rightarrow> string \<times> string" where
  "split_mc n =
     (if is_mc n
      then (let ps = split_on (CHR '':'') n in (ps ! 1, join '':'' (drop 2 ps)))
      else ([], n))"

definition split_tid_mcfn :: "string \<Rightarrow> (string \<times> string \<times> string \<times> string) option" where
  "split_tid_mcfn tid =
     (if is_mc tid then
        (let elems = split_on (CHR '':'') tid;
             mc = elems ! 1;
             fn = join '':'' (butlast (drop 2 elems));
             taskname = last elems
         in Some (mc, fn, taskname, ''mc:'' @ mc @ '':'' @ fn))
      else
        (case rsplit1 (CHR '':'') tid of
           None \<Rightarrow> None
         | Some (fn, taskname) \<Rightarrow> Some ([], fn, taskname, fn)))"

definition split_tid :: "string \<Rightarrow> (string \<times> string \<times> string) option" where
  "split_tid tid = map_option (\<lambda>(mc, fn, taskname, _). (mc, fn, taskname)) (split_tid_mcfn tid)"

definition build_tid :: "string \<Rightarrow> string \<Rightarrow> string \<Rightarrow> string" where
  "build_tid mc fn taskname =
     (if mc \<noteq> [] then ''mc:'' @ mc @ '':'' @ fn @ '':'' @ taskname else fn @ '':'' @ taskname)"

text \<open>
  The index of deferred tasks: \<open>pkg_fn\<close> gives a recipe's name per configuration, \<open>unihash\<close> the
  hash of a task entry.  The code joins the literal word \<open>taskname\<close>, not the task's name.
\<close>

definition pending_hash_index ::
  "string \<Rightarrow> (string \<Rightarrow> (string \<times> string) list) \<Rightarrow> (string \<times> string) list \<Rightarrow> string option"
where
  "pending_hash_index tid pkg_fn unihash =
     (case split_tid_mcfn tid of
        None \<Rightarrow> None
      | Some (mc, fn, taskname, taskfn) \<Rightarrow>
          (case (dget (pkg_fn mc) taskfn, dget unihash tid) of
             (Some pn, Some h) \<Rightarrow> Some (pn @ '':'' @ ''taskname'' @ h)
           | _ \<Rightarrow> None))"

section \<open>Task counters\<close>

record rq_stats =
  completed :: int
  skipped :: int
  failed :: int
  active :: int
  setscene_active :: int
  setscene_covered :: int
  setscene_notcovered :: int
  setscene_total :: int
  total :: int

definition init_stats :: "int \<Rightarrow> int \<Rightarrow> rq_stats" where
  "init_stats tot sc_total =
     \<lparr>completed = 0, skipped = 0, failed = 0, active = 0, setscene_active = 0,
      setscene_covered = 0, setscene_notcovered = 0, setscene_total = sc_total, total = tot\<rparr>"

definition taskFailed :: "rq_stats \<Rightarrow> rq_stats" where
  "taskFailed s = s\<lparr>active := active s - 1, failed := failed s + 1\<rparr>"

definition taskCompleted :: "rq_stats \<Rightarrow> rq_stats" where
  "taskCompleted s = s\<lparr>active := active s - 1, completed := completed s + 1\<rparr>"

definition taskSkipped :: "rq_stats \<Rightarrow> rq_stats" where
  "taskSkipped s = s\<lparr>active := active s + 1, skipped := skipped s + 1\<rparr>"

definition taskActive :: "rq_stats \<Rightarrow> rq_stats" where
  "taskActive s = s\<lparr>active := active s + 1\<rparr>"

definition updateCovered :: "int \<Rightarrow> int \<Rightarrow> rq_stats \<Rightarrow> rq_stats" where
  "updateCovered covered notcovered s =
     s\<lparr>setscene_covered := covered, setscene_notcovered := notcovered\<rparr>"

definition updateActiveSetscene :: "int \<Rightarrow> rq_stats \<Rightarrow> rq_stats" where
  "updateActiveSetscene n s = s\<lparr>setscene_active := n\<rparr>"

section \<open>Building and splitting are inverse\<close>

lemma fn_from_tid_snoc [simp]: "CHR '':'' \<notin> set t \<Longrightarrow> fn_from_tid (fn @ CHR '':'' # t) = fn"
  by (simp add: fn_from_tid_def)

lemma taskname_from_tid_snoc [simp]:
  "CHR '':'' \<notin> set t \<Longrightarrow> taskname_from_tid (fn @ CHR '':'' # t) = Some t"
  by (simp add: taskname_from_tid_def)

lemma taskname_from_tid_Some:
  "taskname_from_tid tid = Some t \<Longrightarrow> tid = fn_from_tid tid @ CHR '':'' # t \<and> CHR '':'' \<notin> set t"
  by (auto simp: taskname_from_tid_def fn_from_tid_def dest: rsplit1_Some split: option.splits)

lemma butlast_split_on_snoc:
  "CHR '':'' \<notin> set t \<Longrightarrow>
     butlast (split_on (CHR '':'') (s @ CHR '':'' # t)) = split_on (CHR '':'') s \<and>
     last (split_on (CHR '':'') (s @ CHR '':'' # t)) = t"
  by (simp add: split_on_snoc)

lemma split_mc_tid:
  assumes "CHR '':'' \<notin> set mc"
  shows "split_on (CHR '':'') (''mc:'' @ mc @ CHR '':'' # rest) =
           [''mc'', mc] @ split_on (CHR '':'') rest"
  using split_on_append [of "CHR '':''" "''mc''" "mc @ CHR '':'' # rest"]
    split_on_append [OF assms, of rest] by simp

text \<open>A plain recipe file: one that cannot be mistaken for a multiconfig id.\<close>

definition plain_fn :: "string \<Rightarrow> bool" where
  "plain_fn fn \<longleftrightarrow> \<not> startswith fn ''mc:''"

lemma not_is_mc_plain:
  assumes "plain_fn fn" "CHR '':'' \<notin> set t"
  shows "\<not> is_mc (fn @ CHR '':'' # t)"
proof
  assume mc: "is_mc (fn @ CHR '':'' # t)"
  have "count_char (CHR '':'') t = 0" using assms(2) by simp
  with mc have "1 \<le> count_char (CHR '':'') fn" "prefix ''mc:'' (fn @ CHR '':'' # t)"
    by (auto simp: is_mc_def simp del: count_char_0)
  moreover from this(1) have "CHR '':'' \<in> set fn"
    using count_char_0 [of "CHR '':''" fn] by linarith
  moreover have "prefix ''mc:'' fn \<or> prefix fn ''mc:''"
    using calculation(2) prefix_same_cases [of "''mc:''" "fn @ CHR '':'' # t" fn] by simp
  ultimately show False
    using assms(1) by (auto simp: plain_fn_def prefix_Cons)
qed

text \<open>
  C32: splitting a built task id gives its components back, for configurations and task names
  without colons; without a configuration the recipe file must not itself start like a
  multiconfig id.
\<close>

theorem split_build_tid:
  assumes "CHR '':'' \<notin> set mc" "CHR '':'' \<notin> set task" "mc = [] \<longrightarrow> plain_fn fn"
  shows "split_tid_mcfn (build_tid mc fn task) =
           Some (mc, fn, task, if mc = [] then fn else ''mc:'' @ mc @ '':'' @ fn) \<and>
         mc_from_tid (build_tid mc fn task) = mc \<and>
         taskname_from_tid (build_tid mc fn task) = Some task \<and>
         fn_from_tid (build_tid mc fn task) = (if mc = [] then fn else ''mc:'' @ mc @ '':'' @ fn)"
proof -
  have names: "taskname_from_tid (build_tid mc fn task) = Some task"
    "fn_from_tid (build_tid mc fn task) = (if mc = [] then fn else ''mc:'' @ mc @ '':'' @ fn)"
    using assms(2) taskname_from_tid_snoc [of task "''mc:'' @ mc @ '':'' @ fn"]
      fn_from_tid_snoc [of task "''mc:'' @ mc @ '':'' @ fn"]
    by (simp_all add: build_tid_def)
  show ?thesis
  proof (cases "mc = []")
    case True
    with assms not_is_mc_plain [of fn task] names show ?thesis
      by (simp add: build_tid_def split_tid_mcfn_def mc_from_tid_def)
  next
    case False
    have mc: "is_mc (build_tid mc fn task)"
      using False by (simp add: is_mc_def build_tid_def)
    have elems: "split_on (CHR '':'') (build_tid mc fn task) =
        [''mc'', mc] @ split_on (CHR '':'') fn @ [task]"
      using False split_mc_tid [OF assms(1), of "fn @ CHR '':'' # task"] split_on_snoc [OF assms(2), of fn]
      by (simp add: build_tid_def)
    show ?thesis
      using False mc names by (simp add: split_tid_mcfn_def mc_from_tid_def elems join_split_on)
  qed
qed

theorem split_build_tid_witness:
  "split_tid_mcfn (build_tid ''musl'' ''virtual:native:/a.bb'' ''do_fetch'') =
     Some (''musl'', ''virtual:native:/a.bb'', ''do_fetch'', ''mc:musl:virtual:native:/a.bb'')"
  using split_build_tid [of "''musl''" "''do_fetch''" "''virtual:native:/a.bb''"] by simp

text \<open>
  The index of deferred tasks does not depend on the task: two tasks of one recipe with
  equal hashes share it, although the comment in the code says the task name is part of it.
\<close>

lemma pending_hash_index_ignores_task:
  assumes "split_tid_mcfn t1 = Some (mc, fn, task1, taskfn)"
    and "split_tid_mcfn t2 = Some (mc, fn, task2, taskfn)"
    and "dget unihash t1 = dget unihash t2"
  shows "pending_hash_index t1 pkg_fn unihash = pending_hash_index t2 pkg_fn unihash"
  using assms by (simp add: pending_hash_index_def)

section \<open>The counters of a run\<close>

text \<open>The events that the run queue reports, and a run of them.\<close>

datatype stat_event = EvActive | EvSkipped | EvCompleted | EvFailed

fun stat_step :: "rq_stats \<Rightarrow> stat_event \<Rightarrow> rq_stats" where
  "stat_step s EvActive = taskActive s"
| "stat_step s EvSkipped = taskSkipped s"
| "stat_step s EvCompleted = taskCompleted s"
| "stat_step s EvFailed = taskFailed s"

definition stat_inv :: "int \<Rightarrow> rq_stats \<Rightarrow> bool" where
  "stat_inv n s \<longleftrightarrow> active s + completed s + failed s = n"

lemma stat_step_inv:
  "stat_inv n s \<Longrightarrow>
     stat_inv (if ev = EvActive \<or> ev = EvSkipped then n + 1 else n) (stat_step s ev)"
  by (cases ev)
    (auto simp: stat_inv_def taskActive_def taskSkipped_def taskCompleted_def taskFailed_def)

lemma stat_run_inv:
  "stat_inv n s \<Longrightarrow>
     stat_inv (n + int (length (filter (\<lambda>ev. ev = EvActive \<or> ev = EvSkipped) evs)))
       (foldl stat_step s evs)"
proof (induction evs arbitrary: s n)
  case (Cons ev evs)
  from Cons.IH [OF stat_step_inv [OF Cons.prems, of ev]] show ?case
    by (auto simp: algebra_simps split: if_splits)
qed simp

end
