(* ===== verification/Providers.thy ===== *)
theory Providers
  imports Versions "HOL-Library.Multiset"
begin

text \<open>
  The choice of providers, \<open>poky/bitbake/lib/bb/providers.py\<close>.  The recipe cache
  (\<open>data_cache\<close>) holds what the cooker collected from the recipes: the tables keyed by a recipe
  file, which the cache fills for every file it knows, are total functions of the file; the
  dicts whose keys the code tests are association lists.  The datastore is its \<open>getVar\<close>, a
  function from names to optional strings.  Log messages are not modelled.  \<open>_filterProviders\<close>
  sorts the list it is given in place; nothing that reads the list again depends on its order,
  so the model sorts a copy.
\<close>

section \<open>The recipe cache\<close>

record data_cache =
  pkg_fn :: "string \<Rightarrow> string"
  pkg_fn_items :: "string list"
  pkg_pn :: "(string \<times> string list) list"
  pkg_pepvpr :: "string \<Rightarrow> string \<times> string \<times> string"
  pkg_dp :: "string \<Rightarrow> int"
  bbfile_priority :: "string \<Rightarrow> int"
  providers :: "(string \<times> string list) list"
  rproviders :: "(string \<times> string list) list"
  packages :: "(string \<times> string list) list"
  packages_dynamic :: "(string \<times> string list) list"
  pn_provides :: "string \<Rightarrow> string list"
  preferred :: "(string \<times> string) list"
  ignored_dependencies :: "string list"
  possible_world :: "string list"
  world_target :: "string list"

type_synonym getvar = "string \<Rightarrow> string option"

definition version_of :: "data_cache \<Rightarrow> string \<Rightarrow> version" where
  "version_of dc f = (case pkg_pepvpr dc f of (e, v, r) \<Rightarrow> (EpStr e, v, r))"

text \<open>Python's truth value of an optional string.\<close>

definition truthy :: "string option \<Rightarrow> bool" where
  "truthy v \<longleftrightarrow> v \<noteq> None \<and> v \<noteq> Some []"

section \<open>All providers and the order of a recipe's files\<close>

definition allProviders :: "data_cache \<Rightarrow> (string \<times> ((string \<times> string \<times> string) \<times> string) list) list" where
  "allProviders dc =
     foldl (\<lambda>d f. dset (pkg_fn dc f) (dget_or d (pkg_fn dc f) [] @ [(pkg_pepvpr dc f, f)]) d)
       [] (pkg_fn_items dc)"

definition add_priority ::
  "data_cache \<Rightarrow> (int \<times> (int \<times> string list) list) list \<Rightarrow> string \<Rightarrow> (int \<times> (int \<times> string list) list) list"
where
  "add_priority dc pris f =
     (let priority = bbfile_priority dc f;
          preference = pkg_dp dc f;
          inner = dget_or pris priority []
      in dset priority (dset preference (dget_or inner preference [] @ [f]) inner) pris)"

text \<open>\<open>pkg_pn[pn]\<close> raises \<open>KeyError\<close> for an unknown name.\<close>

definition sortPriorities ::
  "string \<Rightarrow> data_cache \<Rightarrow> (string \<times> string list) list \<Rightarrow> string list list result"
where
  "sortPriorities pn dc pkgs =
     (let pk = (if pkgs = [] then pkg_pn dc else pkgs)
      in case dget pk pn of
           None \<Rightarrow> Inl KeyError
         | Some files \<Rightarrow>
             (let priorities = foldl (add_priority dc) [] files
              in Inr (foldl (\<lambda>tmp pri.
                        (let prefs = dget_or priorities pri []
                         in concat (map (\<lambda>pref. dget_or prefs pref []) (sort (dkeys prefs))) # tmp))
                      [] (sort (dkeys priorities)))))"

section \<open>Preferred and latest versions\<close>

definition versionVariableMatch :: "getvar \<Rightarrow> string \<Rightarrow> string \<Rightarrow> string option" where
  "versionVariableMatch cfg keyword pn =
     (let v1 = cfg (keyword @ ''_VERSION:pn-'' @ pn);
          v2 = (if truthy v1 then v1 else cfg (keyword @ ''_VERSION_'' @ pn))
      in if truthy v2 then v2 else cfg (keyword @ ''_VERSION''))"

definition preferredVersionMatch ::
  "string \<times> string \<times> string \<Rightarrow> string option \<Rightarrow> string \<Rightarrow> string option \<Rightarrow> bool"
where
  "preferredVersionMatch ver preferred_e preferred_v preferred_r =
     (case ver of (pe, pv, pr) \<Rightarrow>
        (preferred_r = Some pr \<or> preferred_r = None) \<and>
        (preferred_e = Some pe \<or> preferred_e = None) \<and>
        (preferred_v = pv \<or>
         (endswith preferred_v ''%'' \<and> startswith pv (take (length preferred_v - 1) preferred_v))))"

text \<open>
  The groups of \<open>re.match(r'(\d+:)*(.*)(_.*)*', s)\<close>: the last repetition of the first group
  without its colon, everything up to a newline, and what the third group finds after that.
\<close>

function epoch_groups :: "string option \<Rightarrow> string \<Rightarrow> string option \<times> string" where
  "epoch_groups e s =
     (let ds = takeWhile is_digit s; rest = dropWhile is_digit s
      in if ds \<noteq> [] \<and> rest \<noteq> [] \<and> hd rest = CHR '':'' then epoch_groups (Some ds) (tl rest)
         else (e, s))"
  by pat_completeness auto
termination
proof (relation "measure (\<lambda>(e, s). length s)", goal_cases)
  case (2 e s ds rest)
  have "length (dropWhile is_digit s) \<le> length s" by (rule length_dropWhile_le)
  with 2 show ?case by (cases "dropWhile is_digit s") auto
qed simp

declare epoch_groups.simps [simp del]

definition parse_preferred :: "string \<Rightarrow> string option \<times> string \<times> string option" where
  "parse_preferred s =
     (let (e, rest) = epoch_groups None s;
          v = takeWhile (\<lambda>c. c \<noteq> newline) rest;
          after = dropWhile (\<lambda>c. c \<noteq> newline) rest
      in (e, v, if after \<noteq> [] \<and> hd after = CHR ''_''
                then Some (takeWhile (\<lambda>c. c \<noteq> newline) (tl after)) else None))"

text \<open>The two nested searches; the outer one goes on after a match whose name is empty.\<close>

fun search_sets :: "(string \<Rightarrow> bool) \<Rightarrow> string list list \<Rightarrow> string option \<Rightarrow> string option" where
  "search_sets P [] found = found"
| "search_sets P (file_set # sets) found =
     (case List.find P file_set of
        Some f \<Rightarrow> if f \<noteq> [] then Some f else search_sets P sets (Some f)
      | None \<Rightarrow> search_sets P sets found)"

definition findPreferredProvider ::
  "string \<Rightarrow> getvar \<Rightarrow> data_cache \<Rightarrow> string list list \<Rightarrow>
     (string \<times> string \<times> string) option \<times> string option \<times> bool"
where
  "findPreferredProvider pn cfg dc sets =
     (let required_v = versionVariableMatch cfg ''REQUIRED'' pn;
          required = (required_v \<noteq> None);
          preferred_v = (if required then required_v else versionVariableMatch cfg ''PREFERRED'' pn)
      in case preferred_v of
           Some v \<Rightarrow>
             if v = [] then (None, None, required)
             else (case parse_preferred v of (e, pv, r) \<Rightarrow>
                     (let file = search_sets (\<lambda>f. preferredVersionMatch (pkg_pepvpr dc f) e pv r)
                                   sets None
                      in (map_option (pkg_pepvpr dc) file, file, required)))
         | None \<Rightarrow> (None, None, required))"

text \<open>
  One iteration of \<open>findLatestProvider\<close> over \<open>(latest, latest_p, latest_f)\<close>; versions are
  compared only between files of equal default preference.
\<close>

type_synonym latest_state = "(string \<times> int) option"

definition latest_step :: "data_cache \<Rightarrow> latest_state \<Rightarrow> string \<Rightarrow> latest_state result" where
  "latest_step dc st f =
     (let dp = pkg_dp dc f
      in case st of
           None \<Rightarrow> Inr (Some (f, dp))
         | Some (lf, lp) \<Rightarrow>
             if lp = dp then
               (case vercmp (version_of dc lf) (version_of dc f) of
                  None \<Rightarrow> Inl ValueError
                | Some r \<Rightarrow> Inr (if r < 0 \<or> dp > lp then Some (f, dp) else st))
             else Inr (if dp > lp then Some (f, dp) else st))"

fun latest_loop :: "data_cache \<Rightarrow> latest_state \<Rightarrow> string list \<Rightarrow> latest_state result" where
  "latest_loop dc st [] = Inr st"
| "latest_loop dc st (f # fs) = bind_res (latest_step dc st f) (\<lambda>st'. latest_loop dc st' fs)"

definition findLatestProvider ::
  "data_cache \<Rightarrow> string list \<Rightarrow> ((string \<times> string \<times> string) option \<times> string option) result"
where
  "findLatestProvider dc file_set =
     bind_res (latest_loop dc None file_set)
       (\<lambda>st. Inr (case st of None \<Rightarrow> (None, None)
                           | Some (f, _) \<Rightarrow> (Some (pkg_pepvpr dc f), Some f)))"

definition findBestProvider ::
  "string \<Rightarrow> getvar \<Rightarrow> data_cache \<Rightarrow> (string \<times> string list) list \<Rightarrow>
     ((string \<times> string \<times> string) option \<times> string option \<times>
      (string \<times> string \<times> string) option \<times> string option \<times> bool) result"
where
  "findBestProvider pn cfg dc pkgs =
     bind_res (sortPriorities pn dc pkgs) (\<lambda>sets.
       (case findPreferredProvider pn cfg dc sets of (preferred_ver, preferred_file, required) \<Rightarrow>
          (case sets of
             [] \<Rightarrow> Inl IndexError
           | file_set # _ \<Rightarrow>
               bind_res (findLatestProvider dc file_set) (\<lambda>(latest, latest_f).
                 Inr (if \<not> required \<and> preferred_file = None
                      then (latest, latest_f, latest, latest_f, required)
                      else (latest, latest_f, preferred_ver, preferred_file, required))))))"

text \<open>\<open>findProviders\<close>: \<open>cfg\<close> is the \<open>getVar\<close> of the expanded copy of the datastore.\<close>

fun findProviders_loop ::
  "getvar \<Rightarrow> data_cache \<Rightarrow> (string \<times> string list) list \<Rightarrow> string list \<Rightarrow>
     (string \<times> ((string \<times> string \<times> string) option \<times> string option \<times>
      (string \<times> string \<times> string) option \<times> string option \<times> bool)) list \<Rightarrow>
     (string \<times> ((string \<times> string \<times> string) option \<times> string option \<times>
      (string \<times> string \<times> string) option \<times> string option \<times> bool)) list result"
where
  "findProviders_loop cfg dc pk [] acc = Inr acc"
| "findProviders_loop cfg dc pk (pn # pns) acc =
     bind_res (findBestProvider pn cfg dc pk) (\<lambda>b. findProviders_loop cfg dc pk pns (dset pn b acc))"

definition findProviders ::
  "getvar \<Rightarrow> data_cache \<Rightarrow> (string \<times> string list) list \<Rightarrow>
     ((string \<times> (string \<times> string \<times> string) option \<times> string option) list \<times>
      (string \<times> (string \<times> string \<times> string) option \<times> string option) list \<times>
      (string \<times> bool) list) result"
where
  "findProviders cfg dc pkgs =
     (let pk = (if pkgs = [] then pkg_pn dc else pkgs)
      in bind_res (findProviders_loop cfg dc pk (dkeys pk) []) (\<lambda>bs.
           Inr (map (\<lambda>(pn, lv, lf, pv, pf, r). (pn, lv, lf)) bs,
                map (\<lambda>(pn, lv, lf, pv, pf, r). (pn, pv, pf)) bs,
                map (\<lambda>(pn, lv, lf, pv, pf, r). (pn, r)) bs)))"

section \<open>Filtering the providers of an item\<close>

definition collate_pn :: "data_cache \<Rightarrow> string list \<Rightarrow> (string \<times> string list) list" where
  "collate_pn dc ps =
     foldl (\<lambda>d p. dset (pkg_fn dc p) (dget_or d (pkg_fn dc p) [] @ [p]) d) [] ps"

text \<open>
  The first loop: required and preferred versions.  \<open>Inr (Inl eligible)\<close> is the early return
  when a required version is missing; otherwise the sorted file sets, the chosen files and the
  list so far are passed on.
\<close>

type_synonym filter_state =
  "(string \<times> string list list) list \<times> (string \<times> string option) list \<times> string list"

fun filter_preferred ::
  "getvar \<Rightarrow> data_cache \<Rightarrow> (string \<times> string list) list \<Rightarrow> string list \<Rightarrow> filter_state \<Rightarrow>
     (string list + filter_state) result"
where
  "filter_preferred cfg dc pk [] st = Inr (Inr st)"
| "filter_preferred cfg dc pk (pn # pns) (sorted_pn, versions, eligible) =
     bind_res (sortPriorities pn dc pk) (\<lambda>sets.
       (case findPreferredProvider pn cfg dc sets of (_, preferred_file, required) \<Rightarrow>
          if required \<and> preferred_file = None then Inr (Inl eligible)
          else filter_preferred cfg dc pk pns
                 (dset pn sets sorted_pn, dset pn preferred_file versions,
                  if truthy preferred_file then eligible @ [the preferred_file] else eligible)))"

text \<open>
  The second loop: latest versions for the names without a preferred file.  A \<open>None\<close> file (an
  empty set) would be appended and make the caller's \<open>pkg_fn[None]\<close> raise \<open>KeyError\<close>.
\<close>

fun filter_latest ::
  "data_cache \<Rightarrow> string list \<Rightarrow> filter_state \<Rightarrow> filter_state result"
where
  "filter_latest dc [] st = Inr st"
| "filter_latest dc (pn # pns) (sorted_pn, versions, eligible) =
     (if truthy (dget_or versions pn None) then filter_latest dc pns (sorted_pn, versions, eligible)
      else (case dget_or sorted_pn pn [] of
              [] \<Rightarrow> Inl IndexError
            | file_set # _ \<Rightarrow>
                bind_res (findLatestProvider dc file_set) (\<lambda>(_, f).
                  (case f of
                     None \<Rightarrow> Inl KeyError
                   | Some file \<Rightarrow>
                       filter_latest dc pns (sorted_pn, dset pn (Some file) versions, eligible @ [file])))))"

text \<open>The third loop: a provider named like the item moves to the front.\<close>

fun filter_default ::
  "data_cache \<Rightarrow> string \<Rightarrow> (string \<times> string option) list \<Rightarrow> string list \<Rightarrow> string list \<Rightarrow> string list"
where
  "filter_default dc item versions [] eligible = eligible"
| "filter_default dc item versions (p # ps) eligible =
     (if pkg_fn dc p \<noteq> item then filter_default dc item versions ps eligible
      else (case dget_or versions (pkg_fn dc p) None of
              None \<Rightarrow> filter_default dc item versions ps eligible
            | Some fn \<Rightarrow>
                if fn \<in> set eligible
                then filter_default dc item versions ps (fn # remove_first fn eligible)
                else filter_default dc item versions ps eligible))"

definition filterProviders0 :: "string list \<Rightarrow> string \<Rightarrow> getvar \<Rightarrow> data_cache \<Rightarrow> string list result" where
  "filterProviders0 provs item cfg dc =
     (let ps = sort provs; pk = collate_pn dc ps
      in bind_res (filter_preferred cfg dc pk (sort (dkeys pk)) ([], [], [])) (\<lambda>r.
           (case r of
              Inl eligible \<Rightarrow> Inr eligible
            | Inr (sorted_pn, versions, eligible) \<Rightarrow>
                bind_res (filter_latest dc (sort (dkeys sorted_pn)) (sorted_pn, versions, eligible))
                  (\<lambda>(_, versions', eligible').
                     Inr (if eligible' = [] then eligible'
                          else filter_default dc item versions' ps eligible')))))"

text \<open>The first eligible file of the preferred recipe moves to the front.\<close>

definition prefer_pn :: "data_cache \<Rightarrow> string \<Rightarrow> string list \<Rightarrow> string list \<times> bool" where
  "prefer_pn dc pn eligible =
     (case List.find (\<lambda>p. pkg_fn dc p = pn) eligible of
        None \<Rightarrow> (eligible, False)
      | Some p \<Rightarrow> (p # remove_first p eligible, True))"

text \<open>\<open>filterProviders\<close> records the preference in the cache, which it returns.\<close>

definition note_preferred :: "getvar \<Rightarrow> data_cache \<Rightarrow> string \<Rightarrow> data_cache" where
  "note_preferred cfg dc item =
     (let prefervar = cfg (''PREFERRED_PROVIDER_'' @ item)
      in if truthy prefervar then dc\<lparr>preferred := dset item (the prefervar) (preferred dc)\<rparr> else dc)"

definition filterProviders ::
  "string list \<Rightarrow> string \<Rightarrow> getvar \<Rightarrow> data_cache \<Rightarrow> (string list \<times> bool \<times> data_cache) result"
where
  "filterProviders provs item cfg dc =
     bind_res (filterProviders0 provs item cfg dc) (\<lambda>eligible.
       (let dc' = note_preferred cfg dc item
        in Inr (case dget (preferred dc') item of
                  None \<Rightarrow> (eligible, False, dc')
                | Some pn \<Rightarrow>
                    (case prefer_pn dc' pn eligible of (el, unique) \<Rightarrow> (el, unique, dc')))))"

text \<open>
  The search for \<open>PREFERRED_PROVIDER\<close> entries of runtime providers.  The loop runs over the list
  object \<open>it\<close> that \<open>eligible\<close> names at its start; the first match removes an element from that
  very object (so positions shift under the running iteration) and then binds \<open>eligible\<close> to a
  new list, on which later matches work.  \<open>rebound\<close> says whether that has happened.
\<close>

definition runtime_match ::
  "getvar \<Rightarrow> data_cache \<Rightarrow> (string \<times> string) list \<Rightarrow> string list \<Rightarrow> string \<Rightarrow> string option"
where
  "runtime_match cfg dc pns pref p =
     (let hit = (\<lambda>provide.
            (case cfg (''PREFERRED_PROVIDER_'' @ provide) of
               None \<Rightarrow> False
             | Some v \<Rightarrow> (case dget pns v of None \<Rightarrow> False | Some f \<Rightarrow> f \<notin> set pref)))
      in case List.find hit (pn_provides dc (pkg_fn dc p)) of
           None \<Rightarrow> None
         | Some provide \<Rightarrow> dget pns (the (cfg (''PREFERRED_PROVIDER_'' @ provide))))"

function runtime_loop ::
  "getvar \<Rightarrow> data_cache \<Rightarrow> (string \<times> string) list \<Rightarrow> nat \<Rightarrow> string list \<Rightarrow> bool \<Rightarrow> string list \<Rightarrow>
     string list \<Rightarrow> string list \<times> string list"
where
  "runtime_loop cfg dc pns i it rebound eligible pref =
     (if i < length it then
        (case runtime_match cfg dc pns pref (it ! i) of
           None \<Rightarrow> runtime_loop cfg dc pns (Suc i) it rebound eligible pref
         | Some f \<Rightarrow>
             runtime_loop cfg dc pns (Suc i) (if rebound then it else remove_first f it) True
               (f # remove_first f eligible) (pref @ [f]))
      else (eligible, pref))"
  by pat_completeness auto
termination
  by (relation "measure (\<lambda>(cfg, dc, pns, i, it, rebound, eligible, pref). length it - i)")
    (auto simp: length_remove1 split: if_splits)

declare runtime_loop.simps [simp del]

definition prefer_rprovider ::
  "getvar \<Rightarrow> data_cache \<Rightarrow> string \<Rightarrow> string list \<Rightarrow> string list \<times> bool"
where
  "prefer_rprovider cfg dc item eligible =
     (let prefervar = cfg (''PREFERRED_RPROVIDER_'' @ item)
      in if truthy prefervar then prefer_pn dc (the prefervar) eligible else (eligible, False))"

definition infer_rproviders ::
  "getvar \<Rightarrow> data_cache \<Rightarrow> string list \<Rightarrow> string list \<times> nat"
where
  "infer_rproviders cfg dc eligible =
     (let pns = foldl (\<lambda>d p. dset (pkg_fn dc p) p d) [] eligible;
          (el, pref) = runtime_loop cfg dc pns 0 eligible False eligible []
      in (el, length pref))"

definition filterProvidersRunTime ::
  "string list \<Rightarrow> string \<Rightarrow> getvar \<Rightarrow> data_cache \<Rightarrow> (string list \<times> nat) result"
where
  "filterProvidersRunTime provs item cfg dc =
     bind_res (filterProviders0 provs item cfg dc) (\<lambda>eligible.
       (case prefer_rprovider cfg dc item eligible of (el, unique) \<Rightarrow>
          Inr (if unique then (el, 1) else infer_rproviders cfg dc el)))"

text \<open>
  \<open>getRuntimeProviders\<close>: \<open>match pattern s\<close> stands for \<open>re.compile(pattern).match(s)\<close>, with
  \<open>None\<close> for a pattern that does not compile.
\<close>

definition escape_plus :: "string \<Rightarrow> string" where
  "escape_plus s = concat (map (\<lambda>c. if c = CHR ''+'' then [CHR 0x5C, c] else [c]) s)"

fun dynamic_providers ::
  "(string \<Rightarrow> (string \<Rightarrow> bool) option) \<Rightarrow> string \<Rightarrow> (string \<times> string list) list \<Rightarrow> string list result"
where
  "dynamic_providers re rdepend [] = Inr []"
| "dynamic_providers re rdepend ((pat, fns) # pats) =
     (case re (escape_plus pat) of
        None \<Rightarrow> Inl ReError
      | Some matches \<Rightarrow>
          bind_res (dynamic_providers re rdepend pats) (\<lambda>rest.
            Inr ((if matches rdepend then fns else []) @ rest)))"

definition getRuntimeProviders ::
  "(string \<Rightarrow> (string \<Rightarrow> bool) option) \<Rightarrow> data_cache \<Rightarrow> string \<Rightarrow> string list result"
where
  "getRuntimeProviders re dc rdepend =
     (let rprovs = dget_or (rproviders dc) rdepend [] @ dget_or (packages dc) rdepend []
      in if rprovs \<noteq> [] then Inr rprovs else dynamic_providers re rdepend (packages_dynamic dc))"

text \<open>
  \<open>buildWorldTargetList\<close>: a file is a world target unless the task is missing, or it provides
  something virtual, or something that a file of another recipe provides too.  The first
  virtual name ends the scan of the names.
\<close>

fun world_terminal :: "data_cache \<Rightarrow> string \<Rightarrow> string list \<Rightarrow> bool \<Rightarrow> bool result" where
  "world_terminal dc pn [] t = Inr t"
| "world_terminal dc pn (p # ps) t =
     (if startswith p ''virtual/'' then Inr False
      else (case dget (providers dc) p of
              None \<Rightarrow> Inl KeyError
            | Some fs \<Rightarrow> world_terminal dc pn ps (t \<and> (\<forall>pf \<in> set fs. pkg_fn dc pf = pn))))"

fun world_loop ::
  "(string \<Rightarrow> string list) \<Rightarrow> string option \<Rightarrow> string list \<Rightarrow> data_cache \<Rightarrow> data_cache result"
where
  "world_loop tasks task [] dc = Inr dc"
| "world_loop tasks task (f # fs) dc =
     (let pn = pkg_fn dc f;
          t0 = (truthy task \<longrightarrow> the task \<in> set (tasks f))
      in bind_res (world_terminal dc pn (pn_provides dc pn) t0) (\<lambda>t.
           world_loop tasks task fs
             (if t then dc\<lparr>world_target := append_new pn (world_target dc)\<rparr> else dc)))"

definition buildWorldTargetList ::
  "(string \<Rightarrow> string list) \<Rightarrow> data_cache \<Rightarrow> string option \<Rightarrow> data_cache result"
where
  "buildWorldTargetList tasks dc task =
     (if world_target dc \<noteq> [] then Inr dc else world_loop tasks task (possible_world dc) dc)"

section \<open>Files by priority\<close>

text \<open>The dict of dicts that the loop builds is the grouping of the files.\<close>

lemma add_priority_get:
  "dget_or (dget_or (add_priority dc pris f) pri []) pref [] =
     dget_or (dget_or pris pri []) pref [] @
       (if bbfile_priority dc f = pri \<and> pkg_dp dc f = pref then [f] else [])"
  by (simp add: add_priority_def Let_def)

lemma add_priorities_get:
  "dget_or (dget_or (foldl (add_priority dc) pris files) pri []) pref [] =
     dget_or (dget_or pris pri []) pref [] @
       filter (\<lambda>f. bbfile_priority dc f = pri \<and> pkg_dp dc f = pref) files"
  by (induction files arbitrary: pris) (auto simp: add_priority_get)

definition pris_ok :: "(int \<times> (int \<times> string list) list) list \<Rightarrow> bool" where
  "pris_ok pris \<longleftrightarrow> wf_dict pris \<and> (\<forall>p. wf_dict (dget_or pris p []))"

lemma add_priority_ok: "pris_ok pris \<Longrightarrow> pris_ok (add_priority dc pris f)"
  by (simp add: pris_ok_def add_priority_def Let_def)

lemma add_priorities_ok: "pris_ok pris \<Longrightarrow> pris_ok (foldl (add_priority dc) pris files)"
  by (induction files arbitrary: pris) (simp_all add: add_priority_ok)

lemma add_priorities_keys:
  "fst ` set (foldl (add_priority dc) pris files) =
     fst ` set pris \<union> bbfile_priority dc ` set files"
  by (induction files arbitrary: pris)
    (simp_all add: add_priority_def Let_def)

lemma add_priority_inner_keys:
  "fst ` set (dget_or (add_priority dc pris f) pri []) =
     fst ` set (dget_or pris pri []) \<union> (if bbfile_priority dc f = pri then {pkg_dp dc f} else {})"
  by (simp add: add_priority_def Let_def)

lemma add_priorities_inner_keys:
  "fst ` set (dget_or (foldl (add_priority dc) pris files) pri []) =
     fst ` set (dget_or pris pri []) \<union>
     pkg_dp dc ` set (filter (\<lambda>f. bbfile_priority dc f = pri) files)"
  by (induction files arbitrary: pris)
    (auto simp: add_priority_inner_keys)

lemma foldl_Cons_map: "foldl (\<lambda>tmp x. g x # tmp) acc xs = rev (map g xs) @ acc"
  by (induction xs arbitrary: acc) auto

text \<open>The reference: groups of equal file priority, highest first, each by default preference.\<close>

definition priority_groups :: "data_cache \<Rightarrow> string list \<Rightarrow> string list list" where
  "priority_groups dc files =
     map (\<lambda>pri. sort_key (pkg_dp dc) (filter (\<lambda>f. bbfile_priority dc f = pri) files))
       (rev (sorted_list_of_set (bbfile_priority dc ` set files)))"

lemma sort_distinct_set: "distinct xs \<Longrightarrow> sort xs = sorted_list_of_set (set xs)"
  by (metis sorted_list_of_set_sort_remdups distinct_remdups_id)

lemma sortPriorities_eq:
  assumes "dget (if pkgs = [] then pkg_pn dc else pkgs) pn = Some files"
  shows "sortPriorities pn dc pkgs = Inr (priority_groups dc files)"
proof -
  define pris where "pris = foldl (add_priority dc) [] files"
  have ok: "pris_ok pris"
    unfolding pris_def by (rule add_priorities_ok) (simp add: pris_ok_def dget_or_def)
  have keys: "set (dkeys pris) = bbfile_priority dc ` set files"
    using add_priorities_keys [of dc "[]" files] by (simp add: pris_def)
  have group: "concat (map (\<lambda>pref. dget_or (dget_or pris pri []) pref [])
        (sort (dkeys (dget_or pris pri [])))) =
      sort_key (pkg_dp dc) (filter (\<lambda>f. bbfile_priority dc f = pri) files)" for pri
  proof -
    let ?fs = "filter (\<lambda>f. bbfile_priority dc f = pri) files"
    have "dget_or (dget_or pris pri []) pref [] = filter (\<lambda>f. pkg_dp dc f = pref) ?fs" for pref
      using add_priorities_get [of dc "[]" files pri pref]
      by (simp add: pris_def dget_or_def conj_commute)
    moreover have "distinct (dkeys (dget_or pris pri []))"
      using ok by (simp add: pris_ok_def wf_dict_def)
    moreover have "set (dkeys (dget_or pris pri [])) = pkg_dp dc ` set ?fs"
      using add_priorities_inner_keys [of dc "[]" files pri] by (simp add: pris_def dget_or_def)
    ultimately have "concat (map (\<lambda>pref. filter (\<lambda>f. pkg_dp dc f = pref) ?fs)
        (sort (dkeys (dget_or pris pri [])))) = sort_key (pkg_dp dc) ?fs"
      by (intro sort_key_groups) simp_all
    with \<open>\<And>pref. dget_or (dget_or pris pri []) pref [] = filter (\<lambda>f. pkg_dp dc f = pref) ?fs\<close>
    show ?thesis by simp
  qed
  have "sort (dkeys pris) = sorted_list_of_set (bbfile_priority dc ` set files)"
    using ok keys sort_distinct_set [of "dkeys pris"] by (simp add: pris_ok_def wf_dict_def)
  with assms group show ?thesis
    by (simp add: sortPriorities_def Let_def foldl_Cons_map priority_groups_def rev_map
        flip: pris_def)
qed

lemma sortPriorities_groups:
  assumes "dget pkgs pn = Some files"
  shows "sortPriorities pn dc pkgs = Inr (priority_groups dc files)"
  using assms by (intro sortPriorities_eq) auto

text \<open>
  C24: \<open>sortPriorities\<close> returns the groups of files of equal layer priority, highest priority
  first, every group stably sorted by default preference.
\<close>

theorem sortPriorities_reference:
  assumes "dget pkgs pn = Some files"
  shows "sortPriorities pn dc pkgs = Inr (priority_groups dc files)"
  using assms by (rule sortPriorities_groups)

lemma priority_groups_set: "set (concat (priority_groups dc files)) = set files"
  by (auto simp: priority_groups_def)

lemma priority_groups_nonempty: "fs \<in> set (priority_groups dc files) \<Longrightarrow> fs \<noteq> []"
proof -
  assume "fs \<in> set (priority_groups dc files)"
  then obtain f where "f \<in> set files"
    "fs = sort_key (pkg_dp dc) (filter (\<lambda>g. bbfile_priority dc g = bbfile_priority dc f) files)"
    by (auto simp: priority_groups_def)
  then have "f \<in> set fs" by simp
  then show ?thesis by auto
qed

lemma priority_groups_Nil [simp]: "priority_groups dc files = [] \<longleftrightarrow> files = []"
  by (auto simp: priority_groups_def)

section \<open>The latest provider is a maximum\<close>

text \<open>Files ordered by default preference, then version: a client of the version order.\<close>

definition latest_cmp :: "data_cache \<Rightarrow> string \<Rightarrow> string \<Rightarrow> int" where
  "latest_cmp dc f g =
     (if pkg_dp dc f \<noteq> pkg_dp dc g then pkg_dp dc f - pkg_dp dc g
      else vercmp_val (version_of dc f) (version_of dc g))"

interpretation latest: ver_order "\<lambda>f. comparable (version_of dc f)" "latest_cmp dc"
  for dc :: data_cache
proof
  fix f g assume "comparable (version_of dc f)" "comparable (version_of dc g)"
  then show "latest_cmp dc g f = - latest_cmp dc f g"
    using ver.cmp_sym [of "version_of dc f" "version_of dc g"] by (simp add: latest_cmp_def)
next
  fix f g h
  assume ok: "comparable (version_of dc f)" "comparable (version_of dc g)"
      "comparable (version_of dc h)"
    and le: "latest_cmp dc f g \<le> 0" "latest_cmp dc g h \<le> 0"
  show "latest_cmp dc f h \<le> 0"
    using ver.cmp_trans [OF ok] le by (auto simp: latest_cmp_def split: if_splits)
qed

lemma latest_step_pick:
  assumes "comparable (version_of dc f)" "comparable (version_of dc g)"
  shows "latest_step dc (Some (f, pkg_dp dc f)) g =
    Inr (Some (latest.pick dc f g, pkg_dp dc (latest.pick dc f g)))"
  using vercmp_Some [OF assms]
  by (simp add: latest_step_def Let_def latest.pick_def latest_cmp_def)

lemma latest_loop_pick:
  assumes "comparable (version_of dc f)" "\<forall>g \<in> set fs. comparable (version_of dc g)"
  shows "latest_loop dc (Some (f, pkg_dp dc f)) fs =
    Inr (Some (foldl (latest.pick dc) f fs, pkg_dp dc (foldl (latest.pick dc) f fs)))"
  using assms
  by (induction fs arbitrary: f) (simp_all add: latest_step_pick latest.pick_ok)

text \<open>
  C26: on files with comparable versions \<open>findLatestProvider\<close> returns one of the files, no file
  has a greater default preference, and none of equal preference a newer version.
\<close>

theorem findLatestProvider_max:
  assumes "fs \<noteq> []" "\<forall>f \<in> set fs. comparable (version_of dc f)"
  shows "\<exists>f \<in> set fs. findLatestProvider dc fs = Inr (Some (pkg_pepvpr dc f), Some f) \<and>
           (\<forall>g \<in> set fs. pkg_dp dc g \<le> pkg_dp dc f \<and>
              (pkg_dp dc g = pkg_dp dc f \<longrightarrow>
                 (\<exists>r \<le> 0. vercmp (version_of dc g) (version_of dc f) = Some r)))"
proof -
  obtain a as where fs: "fs = a # as" using assms(1) by (cases fs) auto
  define f where "f = foldl (latest.pick dc) a as"
  have ok: "comparable (version_of dc a)" "\<forall>g \<in> set as. comparable (version_of dc g)"
    using assms(2) fs by auto
  have f: "f \<in> set fs" using latest.foldl_pick_in [of dc a as] by (simp add: f_def fs)
  have "findLatestProvider dc fs = Inr (Some (pkg_pepvpr dc f), Some f)"
    using latest_loop_pick [OF ok]
    by (simp add: findLatestProvider_def fs latest_step_def f_def)
  moreover have "\<forall>g \<in> set fs. pkg_dp dc g \<le> pkg_dp dc f \<and>
              (pkg_dp dc g = pkg_dp dc f \<longrightarrow>
                 (\<exists>r \<le> 0. vercmp (version_of dc g) (version_of dc f) = Some r))"
  proof
    fix g assume g: "g \<in> set fs"
    have "latest_cmp dc g f \<le> 0"
      unfolding f_def by (rule latest.foldl_pick_max [OF ok]) (use g fs in auto)
    moreover have "vercmp (version_of dc g) (version_of dc f) =
        Some (vercmp_val (version_of dc g) (version_of dc f))"
      using g f assms(2) by (simp add: vercmp_Some)
    ultimately show "pkg_dp dc g \<le> pkg_dp dc f \<and>
              (pkg_dp dc g = pkg_dp dc f \<longrightarrow>
                 (\<exists>r \<le> 0. vercmp (version_of dc g) (version_of dc f) = Some r))"
      by (simp add: latest_cmp_def split: if_splits)
  qed
  ultimately show ?thesis using f by blast
qed

lemma findLatestProvider_in:
  assumes "findLatestProvider dc fs = Inr (v, f)" "fs \<noteq> []"
  shows "\<exists>g \<in> set fs. f = Some g"
proof -
  have step: "\<exists>g \<in> insert a {h}. \<exists>d. st = Some (g, d)"
    if "latest_step dc (Some (a, b)) h = Inr st" for a b h st
    using that by (auto simp: latest_step_def Let_def split: if_splits option.splits)
  have loop: "\<exists>g \<in> insert a (set gs). \<exists>d. st = Some (g, d)"
    if "latest_loop dc (Some (a, b)) gs = Inr st" for a b gs st
    using that
  proof (induction gs arbitrary: a b)
    case (Cons h gs)
    then obtain st1 where st1: "latest_step dc (Some (a, b)) h = Inr st1"
      "latest_loop dc st1 gs = Inr st" by (auto simp: bind_res_Inr_iff)
    from step [OF st1(1)] obtain g d where "st1 = Some (g, d)" "g = a \<or> g = h" by auto
    with Cons.IH [of g d] st1(2) show ?case by auto
  qed auto
  from assms show ?thesis
    by (cases fs) (auto simp: findLatestProvider_def bind_res_Inr_iff latest_step_def
        dest!: loop)
qed

section \<open>Preferred versions\<close>

text \<open>
  C38: whatever \<open>PREFERRED_VERSION\<close> or \<open>REQUIRED_VERSION\<close> says, no revision is ever parsed out of
  it: the greedy middle group takes the \<open>_revision\<close> suffix into the version, so the revision
  that the matching function compares is always unset.
\<close>

theorem parse_preferred_no_revision:
  "\<exists>e v. parse_preferred s = (e, v, None) \<and>
     preferredVersionMatch (pe, pv, pr) e v None = preferredVersionMatch (pe, pv, pr') e v None"
proof -
  obtain e rest where er: "epoch_groups None s = (e, rest)" by (cases "epoch_groups None s")
  have "dropWhile (\<lambda>c. c \<noteq> newline) rest = [] \<or> hd (dropWhile (\<lambda>c. c \<noteq> newline) rest) = newline"
    using hd_dropWhile [of "\<lambda>c. c \<noteq> newline" rest] by blast
  then show ?thesis
    by (auto simp: parse_preferred_def er Let_def preferredVersionMatch_def)
qed

lemma search_sets_Some:
  "search_sets P sets found = Some f \<Longrightarrow> found = Some f \<or> f \<in> set (concat sets) \<and> P f"
proof (induction sets arbitrary: found)
  case (Cons fs sets)
  show ?case
  proof (cases "List.find P fs")
    case None
    with Cons.prems Cons.IH [of found] show ?thesis by auto
  next
    case (Some g)
    then have "g \<in> set fs" "P g" by (auto simp: find_Some_iff)
    with Some Cons.prems Cons.IH [of "Some g"] show ?thesis by (auto split: if_splits)
  qed
qed simp

lemma findPreferredProvider_spec:
  assumes "findPreferredProvider pn cfg dc sets = (ver, pf, req)"
  shows "ver = map_option (pkg_pepvpr dc) pf \<and>
    req = (versionVariableMatch cfg ''REQUIRED'' pn \<noteq> None) \<and>
    (case pf of None \<Rightarrow> True
     | Some f \<Rightarrow> f \<in> set (concat sets) \<and>
         (\<exists>v. versionVariableMatch cfg (if req then ''REQUIRED'' else ''PREFERRED'') pn = Some v \<and>
            v \<noteq> [] \<and> (case parse_preferred v of (e, v', r) \<Rightarrow>
               preferredVersionMatch (pkg_pepvpr dc f) e v' r)))"
proof -
  define req' where "req' = (versionVariableMatch cfg ''REQUIRED'' pn \<noteq> None)"
  define pv where "pv = versionVariableMatch cfg (if req' then ''REQUIRED'' else ''PREFERRED'') pn"
  have eq: "findPreferredProvider pn cfg dc sets =
      (case pv of None \<Rightarrow> (None, None, req')
       | Some v \<Rightarrow> if v = [] then (None, None, req')
           else (case parse_preferred v of (e, v', r) \<Rightarrow>
             (let file = search_sets (\<lambda>f. preferredVersionMatch (pkg_pepvpr dc f) e v' r) sets None
              in (map_option (pkg_pepvpr dc) file, file, req'))))"
    by (auto simp: findPreferredProvider_def Let_def pv_def req'_def split: option.splits)
  show ?thesis
  proof (cases "pv = None \<or> pv = Some []")
    case True
    then show ?thesis using assms eq by (auto simp: req'_def)
  next
    case False
    then obtain v where v: "pv = Some v" "v \<noteq> []" by auto
    obtain e v' r where parse: "parse_preferred v = (e, v', r)" by (cases "parse_preferred v")
    have pf: "search_sets (\<lambda>f. preferredVersionMatch (pkg_pepvpr dc f) e v' r) sets None = pf"
      "ver = map_option (pkg_pepvpr dc) pf" "req = req'"
      using assms eq v parse by (auto simp: Let_def)
    have "f \<in> set (concat sets) \<and> preferredVersionMatch (pkg_pepvpr dc f) e v' r"
      if "pf = Some f" for f
      using search_sets_Some [of "\<lambda>f. preferredVersionMatch (pkg_pepvpr dc f) e v' r" sets None f]
        pf(1) that by auto
    then show ?thesis
      using pf(2,3) v parse by (auto simp: req'_def pv_def split: option.splits)
  qed
qed

lemma findPreferredProvider_file:
  assumes "findPreferredProvider pn cfg dc sets = (ver, Some f, required)"
  shows "f \<in> set (concat sets) \<and> ver = Some (pkg_pepvpr dc f)"
  using findPreferredProvider_spec [OF assms] by auto

text \<open>
  C27: a version set by \<open>REQUIRED_VERSION\<close> is never replaced by another one: the file that
  \<open>findBestProvider\<close> then prefers carries a version that matches it, or there is none.
\<close>

theorem findBestProvider_required:
  assumes "findBestProvider pn cfg dc pkgs = Inr (latest, latest_f, pv, pf, required)"
    and "versionVariableMatch cfg ''REQUIRED'' pn = Some v"
  shows "required \<and> (case pf of None \<Rightarrow> pv = None
     | Some f \<Rightarrow> pv = Some (pkg_pepvpr dc f) \<and> v \<noteq> [] \<and>
         (case parse_preferred v of (e, v', r) \<Rightarrow> preferredVersionMatch (pkg_pepvpr dc f) e v' r))"
proof -
  obtain sets pv0 pf0 req where *: "findPreferredProvider pn cfg dc sets = (pv0, pf0, req)"
      "required = req" "req \<longrightarrow> pv = pv0 \<and> pf = pf0"
  proof -
    from assms(1) obtain sets where sets: "sortPriorities pn dc pkgs = Inr sets"
      by (auto simp: findBestProvider_def bind_res_Inr_iff)
    obtain pv0 pf0 req where pref: "findPreferredProvider pn cfg dc sets = (pv0, pf0, req)"
      by (cases "findPreferredProvider pn cfg dc sets")
    from assms(1) that [OF pref] show ?thesis
      by (auto simp: findBestProvider_def sets pref bind_res_Inr_iff
          split: list.splits if_splits)
  qed
  from findPreferredProvider_spec [OF *(1)] *(2,3) assms(2) show ?thesis
    by (auto split: option.splits)
qed


section \<open>Filtered providers\<close>

lemma collate_pn_get:
  "dget_or (foldl (\<lambda>d p. dset (pkg_fn dc p) (dget_or d (pkg_fn dc p) [] @ [p]) d) d ps) pn [] =
     dget_or d pn [] @ filter (\<lambda>p. pkg_fn dc p = pn) ps"
  by (induction ps arbitrary: d) simp_all

lemma collate_pn_keys:
  "fst ` set (foldl (\<lambda>d p. dset (pkg_fn dc p) (dget_or d (pkg_fn dc p) [] @ [p]) d) d ps) =
     fst ` set d \<union> pkg_fn dc ` set ps"
  by (induction ps arbitrary: d) simp_all

lemma collate_pn_wf:
  "wf_dict d \<Longrightarrow>
   wf_dict (foldl (\<lambda>d p. dset (pkg_fn dc p) (dget_or d (pkg_fn dc p) [] @ [p]) d) d ps)"
  by (induction ps arbitrary: d) simp_all

lemma collate_pn_Some:
  assumes "pn \<in> fst ` set (collate_pn dc ps)"
  shows "dget (collate_pn dc ps) pn = Some (filter (\<lambda>p. pkg_fn dc p = pn) ps)"
  using assms collate_pn_get [of dc "[]" ps pn] dget_in_dkeys [of pn "collate_pn dc ps"]
  by (auto simp: collate_pn_def dget_or_def)

lemma sortPriorities_collate:
  assumes "pn \<in> fst ` set (collate_pn dc ps)"
  shows "sortPriorities pn dc (collate_pn dc ps) =
    Inr (priority_groups dc (filter (\<lambda>p. pkg_fn dc p = pn) ps))"
  by (rule sortPriorities_groups [OF collate_pn_Some [OF assms]])

text \<open>
  The state between two iterations: the names done so far are the keys of both dicts, and the
  eligible list holds the chosen file of each name that has one, in the order of the names.
\<close>

definition filter_inv :: "data_cache \<Rightarrow> string list \<Rightarrow> string list \<Rightarrow> filter_state \<Rightarrow> bool" where
  "filter_inv dc ps done st =
     (case st of (sorted_pn, versions, eligible) \<Rightarrow>
        dkeys sorted_pn = done \<and> distinct done \<and>
        (\<forall>pn \<in> set done. dget sorted_pn pn =
           Some (priority_groups dc (filter (\<lambda>p. pkg_fn dc p = pn) ps))) \<and>
        distinct (map (pkg_fn dc) eligible) \<and> set eligible \<subseteq> set ps \<and>
        (\<forall>pn. pn \<in> pkg_fn dc ` set eligible \<longleftrightarrow> pn \<in> set done \<and> truthy (dget_or versions pn None)))"

lemma chosen_in:
  assumes "findPreferredProvider pn cfg dc (priority_groups dc (filter (\<lambda>p. pkg_fn dc p = pn) ps))
     = (ver, Some f, required)"
  shows "pkg_fn dc f = pn \<and> f \<in> set ps"
  using findPreferredProvider_file [OF assms] priority_groups_set [of dc "filter (\<lambda>p. pkg_fn dc p = pn) ps"]
  by auto

lemma filter_preferred_inv:
  assumes "filter_inv dc ps done st" "set pns \<subseteq> fst ` set (collate_pn dc ps)"
    and "distinct (done @ pns)"
    and "filter_preferred cfg dc (collate_pn dc ps) pns st = Inr (Inr st')"
  shows "filter_inv dc ps (done @ pns) st'"
  using assms
proof (induction pns arbitrary: "done" st)
  case (Cons pn pns)
  obtain sp vs el where st: "st = (sp, vs, el)" by (cases st)
  let ?sets = "priority_groups dc (filter (\<lambda>p. pkg_fn dc p = pn) ps)"
  have sets: "sortPriorities pn dc (collate_pn dc ps) = Inr ?sets"
    using Cons.prems(2) by (intro sortPriorities_collate) auto
  obtain ver pf req where pref: "findPreferredProvider pn cfg dc ?sets = (ver, pf, req)"
    by (cases "findPreferredProvider pn cfg dc ?sets")
  let ?st1 = "(dset pn ?sets sp, dset pn pf vs, if truthy pf then el @ [the pf] else el)"
  have nxt: "filter_preferred cfg dc (collate_pn dc ps) pns ?st1 = Inr (Inr st')"
    using Cons.prems(4) by (auto simp: st sets pref split: if_splits)
  have new: "pn \<notin> set done" using Cons.prems(3) by simp
  have inv: "filter_inv dc ps (done @ [pn]) ?st1"
  proof (cases "truthy pf")
    case True
    then obtain f where f: "pf = Some f" by (auto simp: truthy_def)
    have "pkg_fn dc f = pn" "f \<in> set ps" using chosen_in [OF pref [unfolded f]] by auto
    then show ?thesis
      using Cons.prems(1) new True by (auto simp: filter_inv_def st f update_keys)
  next
    case False
    then show ?thesis using Cons.prems(1) new by (auto simp: filter_inv_def st update_keys)
  qed
  show ?case using Cons.IH [OF inv _ _ nxt] Cons.prems(2,3) by simp
qed simp

lemma filter_latest_inv:
  assumes "filter_inv dc ps done st" "set pns \<subseteq> set done"
    and "filter_latest dc pns st = Inr st'"
    and "\<forall>f \<in> set ps. f \<noteq> []"
  shows "filter_inv dc ps done st' \<and> (\<forall>pn \<in> set pns. pn \<in> pkg_fn dc ` set (snd (snd st'))) \<and>
         pkg_fn dc ` set (snd (snd st)) \<subseteq> pkg_fn dc ` set (snd (snd st'))"
  using assms
proof (induction pns arbitrary: st)
  case (Cons pn pns)
  obtain sp vs el where st: "st = (sp, vs, el)" by (cases st)
  have pn: "pn \<in> set done" using Cons.prems(2) by simp
  show ?case
  proof (cases "truthy (dget_or vs pn None)")
    case True
    with Cons.prems(3) have "filter_latest dc pns (sp, vs, el) = Inr st'" by (simp add: st)
    moreover have "pn \<in> pkg_fn dc ` set el"
      using True Cons.prems(1) pn by (auto simp: filter_inv_def st)
    ultimately show ?thesis
      using Cons.IH [of "(sp, vs, el)"] Cons.prems by (auto simp: st)
  next
    case False
    let ?fs = "filter (\<lambda>p. pkg_fn dc p = pn) ps"
    have sets: "dget_or sp pn [] = priority_groups dc ?fs"
      using Cons.prems(1) pn by (simp add: filter_inv_def st dget_or_def)
    from False Cons.prems(3) sets obtain fs rest v f where
      fs: "priority_groups dc ?fs = fs # rest" and
      latest: "findLatestProvider dc fs = Inr (v, Some f)" and
      nxt: "filter_latest dc pns (sp, dset pn (Some f) vs, el @ [f]) = Inr st'"
      by (auto simp: st bind_res_Inr_iff split: list.splits option.splits)
    have "fs \<noteq> []" using fs priority_groups_nonempty [of fs dc ?fs] by simp
    with findLatestProvider_in [OF latest] have "f \<in> set fs" by auto
    with fs priority_groups_set [of dc ?fs] have f: "f \<in> set ps" "pkg_fn dc f = pn" by auto
    have "pn \<notin> pkg_fn dc ` set el"
      using False Cons.prems(1) by (auto simp: filter_inv_def st)
    moreover have "f \<noteq> []" using f Cons.prems(4) by blast
    ultimately have "filter_inv dc ps done (sp, dset pn (Some f) vs, el @ [f])"
      using Cons.prems(1) f pn by (auto simp: filter_inv_def st truthy_def)
    from Cons.IH [OF this _ nxt Cons.prems(4)] Cons.prems(2) f show ?thesis
      by (auto simp: st)
  qed
qed simp

lemma filter_default_mset:
  "mset (filter_default dc item vs ps el) = mset el"
  by (induction ps arbitrary: el) (auto split: option.splits)

lemma prefer_pn_mset: "prefer_pn dc pn el = (el', u) \<Longrightarrow> mset el' = mset el"
  by (auto simp: prefer_pn_def find_Some_iff split: option.splits)

lemma filterProviders0_inv:
  assumes "filterProviders0 provs item cfg dc = Inr el" "\<forall>f \<in> set provs. f \<noteq> []"
  shows "distinct (map (pkg_fn dc) el) \<and> set el \<subseteq> set provs"
proof -
  let ?ps = "sort provs"
  let ?pk = "collate_pn dc ?ps"
  have wf: "distinct (dkeys ?pk)"
    using collate_pn_wf [of "[]" dc ?ps] by (simp add: collate_pn_def wf_dict_def)
  have inv0: "filter_inv dc ?ps [] ([], [], [])" by (simp add: filter_inv_def)
  show ?thesis
  proof (cases "filter_preferred cfg dc ?pk (sort (dkeys ?pk)) ([], [], [])")
    case (Inr r)
    show ?thesis
    proof (cases r)
      case (Inl early)
      \<comment> \<open>the early return hands out the eligible list of an earlier state\<close>
      have early: "distinct (map (pkg_fn dc) el') \<and> set el' \<subseteq> set ?ps"
        if "filter_preferred cfg dc ?pk pns st = Inr (Inl el')" "filter_inv dc ?ps done' st"
          "set pns \<subseteq> fst ` set ?pk" "distinct (done' @ pns)" for pns st done' el'
        using that
      proof (induction pns arbitrary: st done')
        case (Cons pn pns)
        obtain sp vs e0 where st: "st = (sp, vs, e0)" by (cases st)
        let ?sets = "priority_groups dc (filter (\<lambda>p. pkg_fn dc p = pn) ?ps)"
        have sets: "sortPriorities pn dc ?pk = Inr ?sets"
          using Cons.prems(3) by (intro sortPriorities_collate) auto
        obtain ver pf req where pref: "findPreferredProvider pn cfg dc ?sets = (ver, pf, req)"
          by (cases "findPreferredProvider pn cfg dc ?sets")
        let ?st1 = "(dset pn ?sets sp, dset pn pf vs, if truthy pf then e0 @ [the pf] else e0)"
        show ?case
        proof (cases "req \<and> pf = None")
          case True
          with Cons.prems(1,2) show ?thesis
            by (auto simp: st sets pref filter_inv_def)
        next
          case False
          have one: "filter_preferred cfg dc ?pk [pn] st = Inr (Inr ?st1)"
            using False by (auto simp: st sets pref)
          have "filter_inv dc ?ps (done' @ [pn]) ?st1"
            by (rule filter_preferred_inv [OF Cons.prems(2) _ _ one]) (use Cons.prems in auto)
          moreover have "filter_preferred cfg dc ?pk pns ?st1 = Inr (Inl el')"
            using False Cons.prems(1) by (auto simp: st sets pref split: if_splits)
          ultimately show ?thesis using Cons.IH Cons.prems(3,4) by auto
        qed
      qed simp
      have "el = early"
        using assms(1) Inr Inl by (simp add: filterProviders0_def Let_def)
      with early [OF _ inv0, of "sort (dkeys ?pk)" early] Inr Inl wf show ?thesis by simp
    next
      case (Inr st)
      then have "filter_preferred cfg dc ?pk (sort (dkeys ?pk)) ([], [], []) = Inr (Inr st)"
        using \<open>filter_preferred cfg dc ?pk (sort (dkeys ?pk)) ([], [], []) = Inr r\<close> by simp
      from filter_preferred_inv [OF inv0 _ _ this] wf
      have inv: "filter_inv dc ?ps (sort (dkeys ?pk)) st" by simp
      obtain sp vs e0 where st: "st = (sp, vs, e0)" by (cases st)
      have keys: "dkeys sp = sort (dkeys ?pk)" using inv by (simp add: filter_inv_def st)
      obtain st2 where latest: "filter_latest dc (sort (dkeys sp)) st = Inr st2"
        and el: "mset el = mset (snd (snd st2))"
        using assms(1) Inr \<open>filter_preferred cfg dc ?pk (sort (dkeys ?pk)) ([], [], []) = Inr r\<close> st
        by (auto simp: filterProviders0_def Let_def bind_res_Inr_iff filter_default_mset
            split: if_splits prod.splits)
      have "filter_inv dc ?ps (sort (dkeys ?pk)) st2"
        using filter_latest_inv [OF inv _ latest] assms(2) by (simp add: keys)
      then have fin: "distinct (map (pkg_fn dc) (snd (snd st2)))" "set (snd (snd st2)) \<subseteq> set provs"
        by (auto simp: filter_inv_def split: prod.splits)
      have "mset (map (pkg_fn dc) el) = mset (map (pkg_fn dc) (snd (snd st2)))"
        using el by simp
      with fin el show ?thesis
        by (metis distinct_count_atmost_1 set_mset_mset)
    qed
  qed (use assms(1) in \<open>simp add: filterProviders0_def Let_def\<close>)
qed

lemma note_preferred_frame [simp]: "pkg_fn (note_preferred cfg dc item) = pkg_fn dc"
  by (simp add: note_preferred_def Let_def)

lemma mset_eq_distinct_map:
  "mset xs = mset ys \<Longrightarrow> distinct (map f xs) \<longleftrightarrow> distinct (map f ys)"
  by (metis mset_eq_imp_distinct_iff mset_map)

lemma prefer_pn_spec:
  assumes "prefer_pn dc pn el = (el', u)"
  shows "mset el' = mset el \<and> u = (pn \<in> pkg_fn dc ` set el) \<and> (u \<longrightarrow> pkg_fn dc (hd el') = pn)"
  using assms
  by (auto simp: prefer_pn_def find_Some_iff find_None_iff split: option.splits)

text \<open>
  C20: the eligible providers of an item are among its providers, at most one file per recipe;
  the choice is unique exactly when the preferred recipe is among them, and then it comes first.
\<close>

theorem filterProviders_result:
  assumes "filterProviders provs item cfg dc = Inr (el, unique, dc')" "\<forall>f \<in> set provs. f \<noteq> []"
  shows "distinct (map (pkg_fn dc) el) \<and> set el \<subseteq> set provs \<and>
         (unique \<longleftrightarrow> (\<exists>f \<in> set el. dget (preferred dc') item = Some (pkg_fn dc f))) \<and>
         (unique \<longrightarrow> dget (preferred dc') item = Some (pkg_fn dc (hd el)))"
proof -
  obtain el0 where el0: "filterProviders0 provs item cfg dc = Inr el0"
    using assms(1) by (auto simp: filterProviders_def bind_res_Inr_iff)
  have dc': "dc' = note_preferred cfg dc item"
    using assms(1) by (auto simp: filterProviders_def el0 Let_def split: option.splits prod.splits)
  have base: "distinct (map (pkg_fn dc) el0)" "set el0 \<subseteq> set provs"
    using filterProviders0_inv [OF el0 assms(2)] by auto
  show ?thesis
  proof (cases "dget (preferred dc') item")
    case None
    with assms(1) base dc' show ?thesis by (auto simp: filterProviders_def el0 Let_def)
  next
    case (Some pn)
    then have pp: "prefer_pn dc' pn el0 = (el, unique)"
      using assms(1) dc' by (auto simp: filterProviders_def el0 Let_def split: prod.splits)
    note spec = prefer_pn_spec [OF pp]
    have "set el = set el0" using spec mset_eq_setD by blast
    with spec base Some mset_eq_distinct_map [of el el0 "pkg_fn dc"] dc'
    show ?thesis by auto
  qed
qed

section \<open>Runtime providers\<close>

text \<open>Whatever the iteration does, the runtime filter only reorders the eligible files.\<close>

lemma runtime_match_in:
  assumes "runtime_match cfg dc pns pref p = Some f"
  shows "f \<in> snd ` set pns"
proof -
  from assms obtain v where "dget pns v = Some f"
    unfolding runtime_match_def Let_def by (simp split: option.splits)
  then have "(v, f) \<in> set pns" by (rule map_of_SomeD)
  then show ?thesis by force
qed

lemma runtime_loop_mset:
  assumes "snd ` set pns \<subseteq> set eligible"
  shows "mset (fst (runtime_loop cfg dc pns i it rebound eligible pref)) = mset eligible"
  using assms
proof (induction cfg dc pns i it rebound eligible pref rule: runtime_loop.induct)
  case (1 cfg dc pns i it rebound eligible pref)
  show ?case
  proof (cases "i < length it")
    case True
    show ?thesis
    proof (cases "runtime_match cfg dc pns pref (it ! i)")
      case None
      with 1 True show ?thesis by (simp add: runtime_loop.simps [of cfg dc pns i])
    next
      case (Some f)
      then have "f \<in> set eligible" using runtime_match_in 1(3) by fastforce
      then have eq: "mset (f # remove1 f eligible) = mset eligible" by simp
      then have "set (f # remove1 f eligible) = set eligible" by (rule mset_eq_setD)
      with 1 True Some eq show ?thesis by (simp add: runtime_loop.simps [of cfg dc pns i])
    qed
  next
    case False
    then show ?thesis by (simp add: runtime_loop.simps [of cfg dc pns i])
  qed
qed

lemma pns_range:
  "snd ` set (foldl (\<lambda>d p. dset (g p) p d) d ps) \<subseteq> snd ` set d \<union> set ps"
proof (induction ps arbitrary: d)
  case (Cons p ps)
  have "snd ` set (dset (g p) p d) \<subseteq> snd ` set d \<union> {p}"
    by (induction d) auto
  with Cons.IH [of "dset (g p) p d"] show ?case by auto
qed simp

text \<open>
  The runtime filter returns a reordering of the filtered providers, so also at most one
  file per recipe and nothing that was not a provider.
\<close>

lemma filterProvidersRunTime_perm:
  assumes "filterProvidersRunTime provs item cfg dc = Inr (el, n)"
  shows "\<exists>el0. filterProviders0 provs item cfg dc = Inr el0 \<and> mset el = mset el0"
proof -
  obtain el0 where el0: "filterProviders0 provs item cfg dc = Inr el0"
    using assms by (auto simp: filterProvidersRunTime_def bind_res_Inr_iff)
  obtain el1 u where el1: "prefer_rprovider cfg dc item el0 = (el1, u)"
    by (cases "prefer_rprovider cfg dc item el0")
  have "mset el1 = mset el0"
    using el1 prefer_pn_spec by (auto simp: prefer_rprovider_def Let_def split: if_splits)
  moreover have "mset (fst (infer_rproviders cfg dc el1)) = mset el1"
    using runtime_loop_mset [of "foldl (\<lambda>d p. dset (pkg_fn dc p) p d) [] el1" el1]
      pns_range [of "pkg_fn dc" "[]" el1]
    by (simp add: infer_rproviders_def Let_def case_prod_unfold)
  ultimately show ?thesis
    using assms el1 by (auto simp: filterProvidersRunTime_def el0 split: if_splits)
qed

text \<open>
  C39: of two eligible runtime providers with conflicting preferences only the first is seen:
  removing it from the list under iteration makes the loop skip the second, and the count the
  caller tests for a conflict is one whatever the second one's preferences are.
\<close>

theorem runtime_conflict_missed:
  assumes "filterProviders0 provs item cfg dc = Inr [p, q]"
    and "\<not> truthy (cfg (''PREFERRED_RPROVIDER_'' @ item))"
    and "pkg_fn dc p \<noteq> pkg_fn dc q" "pn_provides dc (pkg_fn dc p) = a # as"
    and "cfg (''PREFERRED_PROVIDER_'' @ a) = Some (pkg_fn dc p)"
  shows "filterProvidersRunTime provs item cfg dc = Inr ([p, q], 1)"
proof -
  let ?pns = "[(pkg_fn dc p, p), (pkg_fn dc q, q)]"
  have m: "runtime_match cfg dc ?pns [] p = Some p"
    using assms by (simp add: runtime_match_def)
  have "runtime_loop cfg dc ?pns 0 [p, q] False [p, q] [] = ([p, q], [p])"
    using m by (simp add: runtime_loop.simps [of cfg dc ?pns 0]
        runtime_loop.simps [of cfg dc ?pns "Suc 0"])
  then show ?thesis
    using assms(1-3)
    by (simp add: filterProvidersRunTime_def prefer_rprovider_def infer_rproviders_def dset_new)
qed

section \<open>An example cache\<close>

text \<open>
  Two recipes with one file each; both provide \<open>x\<close> at run time and each is the preferred
  provider of a virtual name.  The witnesses below evaluate the theorems on it.
\<close>

definition cache2 :: data_cache where
  "cache2 = \<lparr>pkg_fn = (\<lambda>f. if f = ''a.bb'' then ''a'' else ''b''),
     pkg_fn_items = [''a.bb'', ''b.bb''],
     pkg_pn = [(''a'', [''a.bb'']), (''b'', [''b.bb''])],
     pkg_pepvpr = (\<lambda>f. if f = ''a.bb'' then ([], ''1.0'', ''r0'') else ([], ''2.0'', ''r0'')),
     pkg_dp = (\<lambda>_. 0), bbfile_priority = (\<lambda>_. 5),
     providers = [(''x'', [''a.bb'', ''b.bb''])], rproviders = [], packages = [],
     packages_dynamic = [],
     pn_provides = (\<lambda>pn. if pn = ''a'' then [''virtual/y'', ''a''] else [''virtual/z'', ''b'']),
     preferred = [], ignored_dependencies = [], possible_world = [], world_target = []\<rparr>"

definition cfg2 :: getvar where
  "cfg2 v = (if v = ''PREFERRED_PROVIDER_virtual/y'' then Some ''a''
             else if v = ''PREFERRED_PROVIDER_virtual/z'' then Some ''b''
             else if v = ''PREFERRED_PROVIDER_x'' then Some ''b''
             else if v = ''REQUIRED_VERSION_b'' then Some ''2.%''
             else None)"

lemma cache2_groups [simp]: "priority_groups cache2 [f] = [[f]]"
  by (simp add: priority_groups_def cache2_def)

theorem sortPriorities_reference_witness:
  "sortPriorities ''b'' cache2 [(''b'', [''b.bb''])] = Inr (priority_groups cache2 [''b.bb''])"
  by (rule sortPriorities_reference) simp

lemma cache2_comparable: "comparable (version_of cache2 f)"
  by (simp add: comparable_def version_of_def cache2_def)

theorem findLatestProvider_max_witness:
  "\<exists>f \<in> set [''a.bb'', ''b.bb'']. findLatestProvider cache2 [''a.bb'', ''b.bb''] =
       Inr (Some (pkg_pepvpr cache2 f), Some f)"
  using findLatestProvider_max [of "[''a.bb'', ''b.bb'']" cache2] cache2_comparable by blast

lemma cache2_best_b:
  "findBestProvider ''b'' cfg2 cache2 [(''b'', [''b.bb''])] =
     Inr (Some ([], ''2.0'', ''r0''), Some ''b.bb'', Some ([], ''2.0'', ''r0''), Some ''b.bb'', True)"
proof -
  have "sortPriorities ''b'' cache2 [(''b'', [''b.bb''])] = Inr [[''b.bb'']]"
    using sortPriorities_groups [of "[(''b'', [''b.bb''])]" "''b''"] by simp
  moreover have "parse_preferred ''2.%'' = (None, ''2.%'', None)"
    by (simp add: parse_preferred_def epoch_groups.simps [of None "''2.%''"] is_digit_def code_def)
  ultimately show ?thesis
    by (simp add: findBestProvider_def findPreferredProvider_def versionVariableMatch_def
        truthy_def cfg2_def preferredVersionMatch_def findLatestProvider_def latest_step_def)
      (simp add: cache2_def suffix_def)
qed

theorem findBestProvider_required_witness:
  "preferredVersionMatch (pkg_pepvpr cache2 ''b.bb'') None ''2.%'' None"
proof -
  have "parse_preferred ''2.%'' = (None, ''2.%'', None)"
    by (simp add: parse_preferred_def epoch_groups.simps [of None "''2.%''"] is_digit_def code_def)
  then show ?thesis
    using findBestProvider_required [OF cache2_best_b, of "''2.%''"]
    by (simp add: versionVariableMatch_def truthy_def cfg2_def)
qed

lemma cache2_best_a:
  "findBestProvider ''a'' cfg2 cache2 [(''a'', [''a.bb''])] =
     Inr (Some ([], ''1.0'', ''r0''), Some ''a.bb'', Some ([], ''1.0'', ''r0''), Some ''a.bb'', False)"
proof -
  have "sortPriorities ''a'' cache2 [(''a'', [''a.bb''])] = Inr [[''a.bb'']]"
    using sortPriorities_groups [of "[(''a'', [''a.bb''])]" "''a''"] by simp
  then show ?thesis
    by (simp add: findBestProvider_def findPreferredProvider_def versionVariableMatch_def
        truthy_def cfg2_def findLatestProvider_def latest_step_def)
      (simp add: cache2_def)
qed


text \<open>On the example, \<open>x\<close> has two eligible providers, \<open>b\<close> with its required version.\<close>

lemma cache2_filter0:
  "filterProviders0 [''a.bb'', ''b.bb''] ''x'' cfg2 cache2 = Inr [''b.bb'', ''a.bb'']"
proof -
  have srt: "sort [''a.bb'', ''b.bb''] = [''a.bb'', ''b.bb'']" "sort [''a'', ''b''] = [''a'', ''b'']"
    by simp_all
  have coll: "collate_pn cache2 [''a.bb'', ''b.bb''] = [(''a'', [''a.bb'']), (''b'', [''b.bb''])]"
    by (simp add: collate_pn_def cache2_def)
  have parse: "parse_preferred ''2.%'' = (None, ''2.%'', None)"
    by (simp add: parse_preferred_def epoch_groups.simps [of None "''2.%''"] is_digit_def code_def)
  have a: "sortPriorities ''a'' cache2 [(''a'', [''a.bb'']), (''b'', [''b.bb''])] = Inr [[''a.bb'']]"
    and b: "sortPriorities ''b'' cache2 [(''a'', [''a.bb'']), (''b'', [''b.bb''])] = Inr [[''b.bb'']]"
    by (simp_all add: sortPriorities_groups)
  have fa: "findPreferredProvider ''a'' cfg2 cache2 [[''a.bb'']] = (None, None, False)"
    by (simp add: findPreferredProvider_def versionVariableMatch_def truthy_def cfg2_def)
  have fb: "findPreferredProvider ''b'' cfg2 cache2 [[''b.bb'']] =
      (Some ([], ''2.0'', ''r0''), Some ''b.bb'', True)"
    by (simp add: findPreferredProvider_def versionVariableMatch_def truthy_def cfg2_def parse
        preferredVersionMatch_def) (simp add: cache2_def suffix_def)
  have latest: "findLatestProvider cache2 [''a.bb''] = Inr (Some ([], ''1.0'', ''r0''), Some ''a.bb'')"
    by (simp add: findLatestProvider_def latest_step_def cache2_def)
  have dflt: "filter_default cache2 ''x'' vs [''a.bb'', ''b.bb''] el = el" for vs el
    by (simp add: cache2_def)
  show ?thesis
    unfolding filterProviders0_def Let_def srt coll
    by (simp add: srt a b fa fb latest dflt truthy_def dget_or_def)
qed

theorem filterProviders_result_witness:
  "\<exists>el unique dc'. filterProviders [''a.bb'', ''b.bb''] ''x'' cfg2 cache2 = Inr (el, unique, dc') \<and>
     unique \<and> distinct (map (pkg_fn cache2) el)"
proof -
  have r: "filterProviders [''a.bb'', ''b.bb''] ''x'' cfg2 cache2 =
      Inr ([''b.bb'', ''a.bb''], True, note_preferred cfg2 cache2 ''x'')"
    by (simp add: filterProviders_def cache2_filter0 note_preferred_def cfg2_def truthy_def
        prefer_pn_def) (simp add: cache2_def)
  have "distinct (map (pkg_fn cache2) [''b.bb'', ''a.bb''])"
    using filterProviders_result [OF r] by simp
  with r show ?thesis by blast
qed

text \<open>Both recipes of the example are preferred for something, yet only one is counted.\<close>

theorem runtime_conflict_missed_witness:
  "filterProvidersRunTime [''a.bb'', ''b.bb''] ''x'' cfg2 cache2 = Inr ([''b.bb'', ''a.bb''], 1) \<and>
   cfg2 ''PREFERRED_PROVIDER_virtual/y'' = Some (pkg_fn cache2 ''a.bb'') \<and>
   cfg2 ''PREFERRED_PROVIDER_virtual/z'' = Some (pkg_fn cache2 ''b.bb'')"
proof -
  have "filterProvidersRunTime [''a.bb'', ''b.bb''] ''x'' cfg2 cache2 = Inr ([''b.bb'', ''a.bb''], 1)"
    by (rule runtime_conflict_missed [OF cache2_filter0, where a = "''virtual/z''"])
      (simp_all add: cfg2_def truthy_def cache2_def)
  then show ?thesis by (simp add: cfg2_def cache2_def)
qed

end
