(* ===== verification/Taskdata.thy ===== *)
theory Taskdata
  imports Providers Tids
begin

text \<open>
  The resolution of targets to providers, \<open>poky/bitbake/lib/bb/taskdata.py\<close>.  \<open>td_state\<close> is a
  \<open>TaskData\<close> object (the fields it mutates, with the recipe cache it updates through
  \<open>filterProviders\<close>), \<open>tables\<close> the read-only tables of the recipe cache.  Methods that mutate
  and may raise return the result and the state at that point.  Log messages and the events
  for the user interface are not modelled, nor is the list of missing dependencies that the
  removal functions pass on for the log.

  \<open>fail_fn\<close> and \<open>remove_buildtarget\<close>/\<open>remove_runtarget\<close> call each other; the recursion is
  modelled with fuel, and \<open>fail_fn_returns\<close> shows that the fuel given, two more than the
  number of files that something could depend on, never runs out.
\<close>

section \<open>State and tables\<close>

record task_entry =
  tdepends :: "string list"
  idepends :: "(string \<times> string) list"
  irdepends :: "(string \<times> string) list"

text \<open>
  A recipe's \<open>task_deps\<close>: its tasks, their parents, and per flag (\<open>depends\<close>, \<open>rdepends\<close>,
  \<open>mcdepends\<close>, ...) the flag's value for the tasks that set it.
\<close>

record task_deps =
  tasks :: "string list"
  parents :: "(string \<times> string list) list"
  flags :: "(string \<times> (string \<times> string) list) list"

definition task_flag :: "task_deps \<Rightarrow> string \<Rightarrow> string \<Rightarrow> string option" where
  "task_flag td flag task =
     (case dget (flags td) flag of None \<Rightarrow> None | Some m \<Rightarrow> dget m task)"

text \<open>
  \<open>py_order\<close> is the order in which a Python set built from the given elements is listed;
  \<open>extra_deps\<close> is the effect of a recipe's own \<open>calculate_extra_depends\<close> code on its
  dependency list; \<open>re_match\<close> is \<open>re.match\<close>, \<open>None\<close> for an invalid pattern.
\<close>

record tables =
  t_deps :: "string \<Rightarrow> task_deps"
  rundeps :: "string \<Rightarrow> (string \<times> string list) list"
  runrecs :: "string \<Rightarrow> (string \<times> string list) list"
  extra_deps :: "string \<Rightarrow> (data_cache \<Rightarrow> string list \<Rightarrow> string list) option"
  py_order :: "string list \<Rightarrow> string list"
  re_match :: "string \<Rightarrow> (string \<Rightarrow> bool) option"
  getVar :: getvar

record td_state =
  build_targets :: "(string \<times> string list) list"
  run_targets :: "(string \<times> string list) list"
  external_targets :: "string list"
  seenfns :: "string list"
  taskentries :: "(string \<times> task_entry) list"
  depids :: "(string \<times> string list) list"
  rdepids :: "(string \<times> string list) list"
  consider_msgs_cache :: "string list"
  failed_deps :: "string list"
  failed_rdeps :: "string list"
  failed_fns :: "string list"
  halt :: bool
  allowincomplete :: bool
  mcdepends :: "string list"
  cache :: data_cache
  deps :: "string \<Rightarrow> string list"

definition init_td :: "bool \<Rightarrow> bool \<Rightarrow> data_cache \<Rightarrow> (string \<Rightarrow> string list) \<Rightarrow> td_state" where
  "init_td h incomplete dc ds =
     \<lparr>build_targets = [], run_targets = [], external_targets = [], seenfns = [], taskentries = [],
      depids = [], rdepids = [], consider_msgs_cache = [], failed_deps = [], failed_rdeps = [],
      failed_fns = [], halt = h, allowincomplete = incomplete, mcdepends = [], cache = dc, deps = ds\<rparr>"

type_synonym td_result = "unit result \<times> td_state"

section \<open>Targets\<close>

fun re_match_strings ::
  "(string \<Rightarrow> (string \<Rightarrow> bool) option) \<Rightarrow> string \<Rightarrow> string list \<Rightarrow> bool result"
where
  "re_match_strings re target [] = Inr False"
| "re_match_strings re target (name # names) =
     (if startswith name ''^'' \<or> endswith name ''$'' then
        (case re name of
           None \<Rightarrow> Inl ReError
         | Some matches \<Rightarrow> if matches target then Inr True else re_match_strings re target names)
      else if name = target then Inr True
      else re_match_strings re target names)"

definition have_build_target :: "td_state \<Rightarrow> string \<Rightarrow> bool" where
  "have_build_target st target \<longleftrightarrow> dget_or (build_targets st) target [] \<noteq> []"

definition have_runtime_target :: "td_state \<Rightarrow> string \<Rightarrow> bool" where
  "have_runtime_target st target \<longleftrightarrow> dget_or (run_targets st) target [] \<noteq> []"

definition seen_build_target :: "string \<Rightarrow> td_state \<Rightarrow> td_state" where
  "seen_build_target name st =
     (if name \<in> set (dkeys (build_targets st)) then st
      else st\<lparr>build_targets := dset name [] (build_targets st)\<rparr>)"

definition seen_run_target :: "string \<Rightarrow> td_state \<Rightarrow> td_state" where
  "seen_run_target name st =
     (if name \<in> set (dkeys (run_targets st)) then st
      else st\<lparr>run_targets := dset name [] (run_targets st)\<rparr>)"

definition add_build_target :: "string \<Rightarrow> string \<Rightarrow> td_state \<Rightarrow> td_state" where
  "add_build_target fn item st =
     (case dget (build_targets st) item of
        Some fns \<Rightarrow>
          if fn \<in> set fns then st
          else st\<lparr>build_targets := dset item (fns @ [fn]) (build_targets st)\<rparr>
      | None \<Rightarrow> st\<lparr>build_targets := dset item [fn] (build_targets st)\<rparr>)"

definition add_runtime_target :: "string \<Rightarrow> string \<Rightarrow> td_state \<Rightarrow> td_state" where
  "add_runtime_target fn item st =
     (case dget (run_targets st) item of
        Some fns \<Rightarrow>
          if fn \<in> set fns then st
          else st\<lparr>run_targets := dset item (fns @ [fn]) (run_targets st)\<rparr>
      | None \<Rightarrow> st\<lparr>run_targets := dset item [fn] (run_targets st)\<rparr>)"

definition mark_external_target :: "string \<Rightarrow> td_state \<Rightarrow> td_state" where
  "mark_external_target target st = st\<lparr>external_targets := append_new target (external_targets st)\<rparr>"

text \<open>The common loop of \<open>get_unresolved_build_targets\<close> and \<open>get_unresolved_run_targets\<close>.\<close>

fun unresolved ::
  "tables \<Rightarrow> data_cache \<Rightarrow> string list \<Rightarrow> (string \<times> string list) list \<Rightarrow> string list result"
where
  "unresolved T dc gone [] = Inr []"
| "unresolved T dc gone ((target, fns) # ts) =
     bind_res (re_match_strings (re_match T) target (ignored_dependencies dc)) (\<lambda>ignored.
       bind_res (unresolved T dc gone ts) (\<lambda>rest.
         Inr (if \<not> ignored \<and> target \<notin> set gone \<and> fns = [] then target # rest else rest)))"

definition get_unresolved_build_targets :: "tables \<Rightarrow> td_state \<Rightarrow> string list result" where
  "get_unresolved_build_targets T st = unresolved T (cache st) (failed_deps st) (build_targets st)"

definition get_unresolved_run_targets :: "tables \<Rightarrow> td_state \<Rightarrow> string list result" where
  "get_unresolved_run_targets T st = unresolved T (cache st) (failed_rdeps st) (run_targets st)"

definition get_provider :: "td_state \<Rightarrow> string \<Rightarrow> string list result" where
  "get_provider st item =
     (case dget (build_targets st) item of None \<Rightarrow> Inl KeyError | Some fns \<Rightarrow> Inr fns)"

definition get_dependees :: "td_state \<Rightarrow> string \<Rightarrow> string list" where
  "get_dependees st item = map fst (filter (\<lambda>(fn, ds). item \<in> set ds) (depids st))"

definition get_rdependees :: "td_state \<Rightarrow> string \<Rightarrow> string list" where
  "get_rdependees st item = map fst (filter (\<lambda>(fn, ds). item \<in> set ds) (rdepids st))"

record skip_item =
  sk_pn :: string
  skipreason :: string
  sk_provides :: "string list"
  sk_rprovides :: "string list"

definition get_reasons :: "(string \<times> skip_item) list \<Rightarrow> string \<Rightarrow> bool \<Rightarrow> string list" where
  "get_reasons skiplist item runtime =
     concat (map (\<lambda>(fn, sk).
       if sk_pn sk = item then [sk_pn sk @ '' was skipped: '' @ skipreason sk]
       else if runtime \<and> item \<in> set (sk_rprovides sk) then
         [sk_pn sk @ '' RPROVIDES '' @ item @ '' but was skipped: '' @ skipreason sk]
       else if \<not> runtime \<and> item \<in> set (sk_provides sk) then
         [sk_pn sk @ '' PROVIDES '' @ item @ '' but was skipped: '' @ skipreason sk]
       else []) skiplist)"

text \<open>The map from targets that start with the prefix to their first provider.\<close>

definition get_providermap :: "td_state \<Rightarrow> string option \<Rightarrow> (string \<times> string) list" where
  "get_providermap st pre =
     foldl (\<lambda>m (name, fns).
         if (truthy pre \<longrightarrow> startswith name (the pre)) \<and> fns \<noteq> [] then dset name (hd fns) m else m)
       [] (build_targets st)"

section \<open>Failing files and removing targets\<close>

text \<open>The task entries with an inter-task dependency on the target, in order, as files.\<close>

definition idepend_fns :: "td_state \<Rightarrow> string \<Rightarrow> string list" where
  "idepend_fns st target =
     concat (map (\<lambda>(tid, e). map (\<lambda>_. fn_from_tid tid) (filter (\<lambda>(d, _). d = target) (idepends e)))
       (taskentries st))"

definition irdepend_fns :: "td_state \<Rightarrow> string \<Rightarrow> string list" where
  "irdepend_fns st target =
     concat (map (\<lambda>(tid, e). map (\<lambda>_. fn_from_tid tid) (filter (\<lambda>(d, _). d = target) (irdepends e)))
       (taskentries st))"

text \<open>\<open>ff\<close> is the method \<open>fail_fn\<close> that the loops call.\<close>

definition remove_buildtarget_by :: "(string \<Rightarrow> td_state \<Rightarrow> td_result) \<Rightarrow> string \<Rightarrow> td_state \<Rightarrow> td_result" where
  "remove_buildtarget_by ff target st =
     (let st1 = st\<lparr>failed_deps := failed_deps st @ [target]\<rparr>
      in seq_st (foreach ff (get_dependees st1 target) st1) (\<lambda>st2.
         seq_st (foreach ff (idepend_fns st2 target) st2) (\<lambda>st3.
           (if halt st3 \<and> target \<in> set (external_targets st3) then Inl (NoProvider target) else Inr (),
            st3))))"

definition remove_runtarget_by :: "(string \<Rightarrow> td_state \<Rightarrow> td_result) \<Rightarrow> string \<Rightarrow> td_state \<Rightarrow> td_result" where
  "remove_runtarget_by ff target st =
     (let st1 = st\<lparr>failed_rdeps := failed_rdeps st @ [target]\<rparr>
      in seq_st (foreach ff (get_rdependees st1 target) st1) (\<lambda>st2.
           foreach ff (irdepend_fns st2 target) st2))"

definition drop_build :: "(string \<Rightarrow> td_state \<Rightarrow> td_result) \<Rightarrow> string \<Rightarrow> string \<Rightarrow> td_state \<Rightarrow> td_result" where
  "drop_build ff fn target st =
     (let fns = dget_or (build_targets st) target []
      in if fn \<in> set fns then
           (let st1 = st\<lparr>build_targets := dset target (remove_first fn fns) (build_targets st)\<rparr>
            in if remove_first fn fns = [] then remove_buildtarget_by ff target st1 else (Inr (), st1))
         else (Inr (), st))"

definition drop_run :: "(string \<Rightarrow> td_state \<Rightarrow> td_result) \<Rightarrow> string \<Rightarrow> string \<Rightarrow> td_state \<Rightarrow> td_result" where
  "drop_run ff fn target st =
     (let fns = dget_or (run_targets st) target []
      in if fn \<in> set fns then
           (let st1 = st\<lparr>run_targets := dset target (remove_first fn fns) (run_targets st)\<rparr>
            in if remove_first fn fns = [] then remove_runtarget_by ff target st1 else (Inr (), st1))
         else (Inr (), st))"

definition fail_fn_by :: "(string \<Rightarrow> td_state \<Rightarrow> td_result) \<Rightarrow> string \<Rightarrow> td_state \<Rightarrow> td_result" where
  "fail_fn_by ff fn st =
     (if fn \<in> set (failed_fns st) then (Inr (), st)
      else (let st1 = st\<lparr>failed_fns := failed_fns st @ [fn]\<rparr>
            in seq_st (foreach (drop_build ff fn) (dkeys (build_targets st1)) st1) (\<lambda>st2.
                 foreach (drop_run ff fn) (dkeys (run_targets st2)) st2)))"

primrec fail_fn_fuel :: "nat \<Rightarrow> string \<Rightarrow> td_state \<Rightarrow> td_result" where
  "fail_fn_fuel 0 fn st = (Inl OutOfFuel, st)"
| "fail_fn_fuel (Suc n) fn st = fail_fn_by (fail_fn_fuel n) fn st"

text \<open>The files that some target's removal can fail.\<close>

definition dependants :: "td_state \<Rightarrow> string list" where
  "dependants st = dkeys (depids st) @ dkeys (rdepids st) @ map fn_from_tid (dkeys (taskentries st))"

definition fail_fn :: "string \<Rightarrow> td_state \<Rightarrow> td_result" where
  "fail_fn fn st = fail_fn_fuel (length (dependants st) + 2) fn st"

definition remove_buildtarget :: "string \<Rightarrow> td_state \<Rightarrow> td_result" where
  "remove_buildtarget target st = remove_buildtarget_by fail_fn target st"

definition remove_runtarget :: "string \<Rightarrow> td_state \<Rightarrow> td_result" where
  "remove_runtarget target st = remove_runtarget_by fail_fn target st"

section \<open>Adding the tasks of a file\<close>

definition add_mcdepends :: "string \<Rightarrow> td_state \<Rightarrow> td_result" where
  "add_mcdepends value st =
     foreach (\<lambda>dep s. if length (split_on (CHR '':'') dep) \<noteq> 5 then (Inl Fatal, s)
                     else (Inr (), s\<lparr>mcdepends := append_new dep (mcdepends s)\<rparr>))
       (split_ws value) st"

text \<open>
  \<open>handle_deps\<close>: the pairs of a flag's value; every name is also announced through \<open>seen\<close>.  A
  malformed word ends the program, before the pairs are stored.
\<close>

fun handle_deps ::
  "(string \<Rightarrow> td_state \<Rightarrow> td_state) \<Rightarrow> string list \<Rightarrow> td_state \<Rightarrow>
     (string \<times> string) list result \<times> td_state"
where
  "handle_deps seen [] st = (Inr [], st)"
| "handle_deps seen (dep # ds) st =
     (case split_on (CHR '':'') dep of
        [name, task] \<Rightarrow>
          (case handle_deps seen ds (seen name st) of
             (Inl e, st') \<Rightarrow> (Inl e, st')
           | (Inr ids, st') \<Rightarrow> (Inr ((name, task) # ids), st'))
      | _ \<Rightarrow> (Inl Fatal, st))"

definition upd_entry :: "string \<Rightarrow> (task_entry \<Rightarrow> task_entry) \<Rightarrow> td_state \<Rightarrow> td_state" where
  "upd_entry tid f st =
     (case dget (taskentries st) tid of
        None \<Rightarrow> st | Some e \<Rightarrow> st\<lparr>taskentries := dset tid (f e) (taskentries st)\<rparr>)"

definition add_one_task :: "tables \<Rightarrow> string \<Rightarrow> string \<Rightarrow> td_state \<Rightarrow> td_result" where
  "add_one_task T fn task st =
     (let td = t_deps T fn;
          tid = fn @ '':'' @ task;
          st1 = st\<lparr>taskentries := dset tid \<lparr>tdepends = [], idepends = [], irdepends = []\<rparr>
                                  (taskentries st)\<rparr>
      in case dget (parents td) task of
           None \<Rightarrow> (Inl KeyError, st1)
         | Some ps \<Rightarrow>
             (let parentids = map (\<lambda>dep. fn @ '':'' @ dep) (filter (\<lambda>dep. dep \<in> set (tasks td)) ps);
                  st2 = upd_entry tid (\<lambda>e. e\<lparr>tdepends := tdepends e @ parentids\<rparr>) st1
              in case (case task_flag td ''depends'' task of
                         None \<Rightarrow> (Inr [], st2)
                       | Some v \<Rightarrow> handle_deps seen_build_target (split_ws v) st2) of
                   (Inl e, st3) \<Rightarrow> (Inl e, st3)
                 | (Inr ids, st3) \<Rightarrow>
                     (let st4 = upd_entry tid (\<lambda>e. e\<lparr>idepends := idepends e @ ids\<rparr>) st3
                      in case (case task_flag td ''rdepends'' task of
                                 None \<Rightarrow> (Inr [], st4)
                               | Some v \<Rightarrow> handle_deps seen_run_target (split_ws v) st4) of
                           (Inl e, st5) \<Rightarrow> (Inl e, st5)
                         | (Inr rids, st5) \<Rightarrow>
                             (let st6 = upd_entry tid (\<lambda>e. e\<lparr>irdepends := irdepends e @ rids\<rparr>) st5
                              in case task_flag td ''mcdepends'' task of
                                   None \<Rightarrow> (Inr (), st6)
                                 | Some v \<Rightarrow> add_mcdepends v st6))))"

definition add_extra_deps :: "tables \<Rightarrow> string \<Rightarrow> td_state \<Rightarrow> td_result" where
  "add_extra_deps T fn st =
     (case extra_deps T fn of
        None \<Rightarrow> (Inr (), st)
      | Some f \<Rightarrow>
          (case buildWorldTargetList (\<lambda>g. tasks (t_deps T g)) (cache st) None of
             Inl e \<Rightarrow> (Inl e, st)
           | Inr dc \<Rightarrow> (Inr (), st\<lparr>cache := dc, deps := (deps st)(fn := f dc (deps st fn))\<rparr>)))"

text \<open>The dependency names of a file: the set of build dependencies, of runtime dependencies.\<close>

definition work_out_deps :: "tables \<Rightarrow> string \<Rightarrow> td_state \<Rightarrow> td_state" where
  "work_out_deps T fn st =
     (let st1 = (if fn \<in> set (dkeys (depids st)) then st
                 else st\<lparr>depids := dset fn (py_order T (deps st fn)) (depids st)\<rparr>);
          rlist = concat (map snd (rundeps T fn)) @ concat (map snd (runrecs T fn))
      in if fn \<in> set (dkeys (rdepids st1)) then st1
         else st1\<lparr>rdepids := dset fn (py_order T rlist) (rdepids st1)\<rparr>)"

text \<open>The two last loops; \<open>Inr True\<close> is the early return after \<open>fail_fn\<close>.\<close>

fun check_deps ::
  "(string \<Rightarrow> td_state \<Rightarrow> td_state) \<Rightarrow> (td_state \<Rightarrow> string list) \<Rightarrow> string \<Rightarrow> string list \<Rightarrow> td_state \<Rightarrow>
     bool result \<times> td_state"
where
  "check_deps seen gone fn [] st = (Inr False, st)"
| "check_deps seen gone fn (dep # ds) st =
     (let st1 = seen dep st
      in if dep \<in> set (gone st1) then
           (case fail_fn fn st1 of (Inl e, st2) \<Rightarrow> (Inl e, st2) | (Inr _, st2) \<Rightarrow> (Inr True, st2))
         else check_deps seen gone fn ds st1)"

definition add_tasks :: "tables \<Rightarrow> string \<Rightarrow> td_state \<Rightarrow> td_result" where
  "add_tasks T fn st =
     (if fn \<in> set (failed_fns st) then (Inl Fatal, st)
      else if fn \<in> set (seenfns st) then (Inr (), st)
      else (let st0 = st\<lparr>seenfns := seenfns st @ [fn]\<rparr>
            in seq_st (add_extra_deps T fn st0) (\<lambda>st1.
               seq_st (foreach (add_one_task T fn) (tasks (t_deps T fn)) st1) (\<lambda>st2.
                 (let st3 = work_out_deps T fn st2
                  in case check_deps seen_build_target failed_deps fn (dget_or (depids st3) fn []) st3 of
                       (Inl e, st4) \<Rightarrow> (Inl e, st4)
                     | (Inr True, st4) \<Rightarrow> (Inr (), st4)
                     | (Inr False, st4) \<Rightarrow>
                         (case check_deps seen_run_target failed_rdeps fn
                                 (dget_or (rdepids st4) fn []) st4 of
                            (Inl e, st5) \<Rightarrow> (Inl e, st5) | (Inr _, st5) \<Rightarrow> (Inr (), st5)))))))"

section \<open>Adding providers\<close>

text \<open>The two last loops over the eligible files share this body.\<close>

definition add_eligible ::
  "tables \<Rightarrow> (string \<Rightarrow> td_state \<Rightarrow> td_state) \<Rightarrow> string \<Rightarrow> td_state \<Rightarrow> td_result"
where
  "add_eligible T add fn st =
     (if fn \<in> set (failed_fns st) then (Inr (), st) else add_tasks T fn (add fn st))"

definition add_provider_internal :: "tables \<Rightarrow> string \<Rightarrow> td_state \<Rightarrow> td_result" where
  "add_provider_internal T item st =
     (case re_match_strings (re_match T) item (ignored_dependencies (cache st)) of
        Inl e \<Rightarrow> (Inl e, st)
      | Inr True \<Rightarrow> (Inr (), st)
      | Inr False \<Rightarrow>
          (case dget (providers (cache st)) item of
             None \<Rightarrow>
               (case getRuntimeProviders (re_match T) (cache st) item of
                  Inl e \<Rightarrow> (Inl e, st) | Inr _ \<Rightarrow> (Inl (NoProvider item), st))
           | Some all_p \<Rightarrow>
               if have_build_target st item then (Inr (), st)
               else (case filterProviders all_p item (getVar T) (cache st) of
                       Inl e \<Rightarrow> (Inl e, st)
                     | Inr (el, foundUnique, dc) \<Rightarrow>
                         (let eligible = filter (\<lambda>p. p \<notin> set (failed_fns st)) el;
                              st1 = st\<lparr>cache := dc\<rparr>
                          in if eligible = [] then (Inl (NoProvider item), st1)
                             else (let st2 = (if length eligible > 1 \<and> \<not> foundUnique
                                              then st1\<lparr>consider_msgs_cache := consider_msgs_cache st1 @ [item]\<rparr>
                                              else st1)
                                   in foreach (add_eligible T (\<lambda>fn. add_build_target fn item)) eligible st2)))))"

definition add_provider :: "tables \<Rightarrow> string \<Rightarrow> td_state \<Rightarrow> td_result" where
  "add_provider T item st =
     seq_st (case add_provider_internal T item st of
               (Inl (NoProvider i), st1) \<Rightarrow>
                 if halt st1 then (Inl (NoProvider i), st1) else remove_buildtarget item st1
             | r \<Rightarrow> r)
       (\<lambda>st2. (Inr (), mark_external_target item st2))"

definition add_rprovider :: "tables \<Rightarrow> string \<Rightarrow> td_state \<Rightarrow> td_result" where
  "add_rprovider T item st =
     (case re_match_strings (re_match T) item (ignored_dependencies (cache st)) of
        Inl e \<Rightarrow> (Inl e, st)
      | Inr True \<Rightarrow> (Inr (), st)
      | Inr False \<Rightarrow>
          if have_runtime_target st item then (Inr (), st)
          else (case getRuntimeProviders (re_match T) (cache st) item of
                  Inl e \<Rightarrow> (Inl e, st)
                | Inr all_p \<Rightarrow>
                    if all_p = [] then (Inl (NoRProvider item), st)
                    else (case filterProvidersRunTime all_p item (getVar T) (cache st) of
                            Inl e \<Rightarrow> (Inl e, st)
                          | Inr (el, numberPreferred) \<Rightarrow>
                              (let eligible = filter (\<lambda>p. p \<notin> set (failed_fns st)) el
                               in if eligible = [] then (Inl (NoRProvider item), st)
                                  else (let note = (\<lambda>b s. if b then s\<lparr>consider_msgs_cache :=
                                                  consider_msgs_cache s @ [item]\<rparr> else s);
                                            st1 = note (length eligible > 1 \<and> numberPreferred = 0) st;
                                            st2 = note (numberPreferred > 1) st1
                                        in if numberPreferred > 1 then (Inl (MultipleRProvider item), st2)
                                           else foreach (add_eligible T (\<lambda>fn. add_runtime_target fn item))
                                                  eligible st2)))))"

text \<open>
  One round of \<open>add_unresolved\<close>: the number of targets resolved in it.  The lists of targets are
  computed before each loop starts.
\<close>

fun resolve_build :: "tables \<Rightarrow> string list \<Rightarrow> nat \<Rightarrow> td_state \<Rightarrow> nat result \<times> td_state" where
  "resolve_build T [] added st = (Inr added, st)"
| "resolve_build T (target # ts) added st =
     (case add_provider_internal T target st of
        (Inr _, st1) \<Rightarrow> resolve_build T ts (Suc added) st1
      | (Inl (NoProvider i), st1) \<Rightarrow>
          if halt st1 \<and> target \<in> set (external_targets st1) \<and> \<not> allowincomplete st1
          then (Inl (NoProvider i), st1)
          else if \<not> allowincomplete st1 then
            (case remove_buildtarget target st1 of
               (Inl e, st2) \<Rightarrow> (Inl e, st2) | (Inr _, st2) \<Rightarrow> resolve_build T ts added st2)
          else resolve_build T ts added st1
      | (Inl e, st1) \<Rightarrow> (Inl e, st1))"

fun resolve_run :: "tables \<Rightarrow> string list \<Rightarrow> nat \<Rightarrow> td_state \<Rightarrow> nat result \<times> td_state" where
  "resolve_run T [] added st = (Inr added, st)"
| "resolve_run T (target # ts) added st =
     (case add_rprovider T target st of
        (Inr _, st1) \<Rightarrow> resolve_run T ts (Suc added) st1
      | (Inl e, st1) \<Rightarrow>
          if (\<exists>i. e = NoRProvider i) \<or> (\<exists>i. e = MultipleRProvider i) then
            (case remove_runtarget target st1 of
               (Inl e2, st2) \<Rightarrow> (Inl e2, st2) | (Inr _, st2) \<Rightarrow> resolve_run T ts added st2)
          else (Inl e, st1))"

definition resolve_round :: "tables \<Rightarrow> td_state \<Rightarrow> nat result \<times> td_state" where
  "resolve_round T st =
     (case get_unresolved_build_targets T st of
        Inl e \<Rightarrow> (Inl e, st)
      | Inr bts \<Rightarrow>
          (case resolve_build T bts 0 st of
             (Inl e, st1) \<Rightarrow> (Inl e, st1)
           | (Inr added, st1) \<Rightarrow>
               (case get_unresolved_run_targets T st1 of
                  Inl e \<Rightarrow> (Inl e, st1)
                | Inr rts \<Rightarrow> resolve_run T rts added st1)))"

text \<open>The \<open>while True\<close> loop, which ends when a round has resolved nothing.\<close>

partial_function (option) add_unresolved :: "tables \<Rightarrow> td_state \<Rightarrow> td_result option" where
  "add_unresolved T st =
     (case resolve_round T st of
        (Inl e, st1) \<Rightarrow> Some (Inl e, st1)
      | (Inr added, st1) \<Rightarrow> if added = 0 then Some (Inr (), st1) else add_unresolved T st1)"

section \<open>The contract of the mutual recursion\<close>

abbreviation blist :: "td_state \<Rightarrow> string \<Rightarrow> string list" where
  "blist st t \<equiv> dget_or (build_targets st) t []"

abbreviation rlist :: "td_state \<Rightarrow> string \<Rightarrow> string list" where
  "rlist st t \<equiv> dget_or (run_targets st) t []"

definition needs_build :: "td_state \<Rightarrow> string \<Rightarrow> string set" where
  "needs_build st t = set (get_dependees st t) \<union> set (idepend_fns st t)"

definition needs_run :: "td_state \<Rightarrow> string \<Rightarrow> string set" where
  "needs_run st t = set (get_rdependees st t) \<union> set (irdepend_fns st t)"

text \<open>
  What stays when files fail: the dependencies, the flags, the names of the targets; provider
  lists only shrink, the lists of failures only grow.
\<close>

definition later :: "td_state \<Rightarrow> td_state \<Rightarrow> bool" where
  "later a b \<longleftrightarrow>
     depids b = depids a \<and> rdepids b = rdepids a \<and> taskentries b = taskentries a \<and>
     halt b = halt a \<and> external_targets b = external_targets a \<and>
     dkeys (build_targets b) = dkeys (build_targets a) \<and>
     dkeys (run_targets b) = dkeys (run_targets a) \<and>
     (\<forall>t. set (blist b t) \<subseteq> set (blist a t)) \<and> (\<forall>t. set (rlist b t) \<subseteq> set (rlist a t)) \<and>
     set (failed_fns a) \<subseteq> set (failed_fns b) \<and> set (failed_deps a) \<subseteq> set (failed_deps b) \<and>
     set (failed_rdeps a) \<subseteq> set (failed_rdeps b)"

lemma later_refl [simp]: "later a a"
  by (simp add: later_def)

lemma later_trans [trans]: "later a b \<Longrightarrow> later b c \<Longrightarrow> later a c"
  unfolding later_def by (intro conjI; (elim conjE)?) (simp | blast)+

lemma later_needs:
  "later a b \<Longrightarrow> get_dependees b = get_dependees a \<and> get_rdependees b = get_rdependees a \<and>
     idepend_fns b = idepend_fns a \<and> irdepend_fns b = irdepend_fns a \<and>
     needs_build b = needs_build a \<and> needs_run b = needs_run a"
  by (simp add: later_def get_dependees_def [abs_def] get_rdependees_def [abs_def]
      idepend_fns_def [abs_def] irdepend_fns_def [abs_def] needs_build_def [abs_def]
      needs_run_def [abs_def])

lemma later_dependants: "later a b \<Longrightarrow> dependants b = dependants a"
  by (simp add: later_def dependants_def)

lemma dget_or_mem: "x \<in> set (dget_or d k []) \<Longrightarrow> k \<in> set (dkeys d)"
  by (metis dget_None_dkeys dget_or_def empty_iff list.set(1) option.simps(4))

lemma needs_build_dependants: "f \<in> needs_build st t \<Longrightarrow> f \<in> set (dependants st)"
  by (auto simp: needs_build_def get_dependees_def idepend_fns_def dependants_def rev_image_eqI)

lemma needs_run_dependants: "f \<in> needs_run st t \<Longrightarrow> f \<in> set (dependants st)"
  by (auto simp: needs_run_def get_rdependees_def irdepend_fns_def dependants_def rev_image_eqI)

text \<open>The primitive changes are such steps.\<close>

lemma later_failed_deps: "later st (st\<lparr>failed_deps := failed_deps st @ [t]\<rparr>)"
  by (auto simp: later_def)

lemma later_failed_rdeps: "later st (st\<lparr>failed_rdeps := failed_rdeps st @ [t]\<rparr>)"
  by (auto simp: later_def)

lemma later_failed_fns: "later st (st\<lparr>failed_fns := failed_fns st @ [f]\<rparr>)"
  by (auto simp: later_def)

lemma later_drop_build:
  "f \<in> set (blist st t) \<Longrightarrow>
     later st (st\<lparr>build_targets := dset t (remove_first f (blist st t)) (build_targets st)\<rparr>)"
  using set_remove1_subset [of f "blist st t"] dget_or_mem [of f "build_targets st" t]
  by (auto simp: later_def dkeys_dset_same)

lemma later_drop_run:
  "f \<in> set (rlist st t) \<Longrightarrow>
     later st (st\<lparr>run_targets := dset t (remove_first f (rlist st t)) (run_targets st)\<rparr>)"
  using set_remove1_subset [of f "rlist st t"] dget_or_mem [of f "run_targets st" t]
  by (auto simp: later_def dkeys_dset_same)

lemma later_foreach:
  "(\<And>x s. x \<in> set xs \<Longrightarrow> later s (snd (f x s))) \<Longrightarrow> later s (snd (foreach f xs s))"
  by (rule foreach_rel [where R = later]) (auto intro: later_trans)

lemma later_seq_st:
  "later a (snd r) \<Longrightarrow> (\<And>s. later a s \<Longrightarrow> later a (snd (f s))) \<Longrightarrow> later a (snd (seq_st r f))"
  by (cases r; cases "fst r") (auto simp: seq_st_def)

text \<open>What the loops ask of the method \<open>fail_fn\<close> that they call.\<close>

locale failing =
  fixes ff :: "string \<Rightarrow> td_state \<Rightarrow> td_result"
  assumes ff_later: "later st (snd (ff g st))"
begin

lemma remove_buildtarget_later: "later st (snd (remove_buildtarget_by ff t st))"
proof -
  let ?st1 = "st\<lparr>failed_deps := failed_deps st @ [t]\<rparr>"
  have "later ?st1 (snd (foreach ff xs s))" if "later ?st1 s" for xs s
    using that later_foreach [of xs ff s] ff_later by (blast intro: later_trans)
  then have "later ?st1 (snd (remove_buildtarget_by ff t st))"
    unfolding remove_buildtarget_by_def Let_def by (intro later_seq_st) auto
  with later_failed_deps show ?thesis by (blast intro: later_trans)
qed

lemma remove_runtarget_later: "later st (snd (remove_runtarget_by ff t st))"
proof -
  let ?st1 = "st\<lparr>failed_rdeps := failed_rdeps st @ [t]\<rparr>"
  have "later ?st1 (snd (foreach ff xs s))" if "later ?st1 s" for xs s
    using that later_foreach [of xs ff s] ff_later by (blast intro: later_trans)
  then have "later ?st1 (snd (remove_runtarget_by ff t st))"
    unfolding remove_runtarget_by_def Let_def by (intro later_seq_st) auto
  with later_failed_rdeps show ?thesis by (blast intro: later_trans)
qed

lemma drop_build_later: "later st (snd (drop_build ff f t st))"
  using later_drop_build [of f st t] remove_buildtarget_later
  by (auto simp: drop_build_def Let_def intro: later_trans)

lemma drop_run_later: "later st (snd (drop_run ff f t st))"
  using later_drop_run [of f st t] remove_runtarget_later
  by (auto simp: drop_run_def Let_def intro: later_trans)

lemma fail_fn_later: "later st (snd (fail_fn_by ff f st))"
proof (cases "f \<in> set (failed_fns st)")
  case False
  let ?st1 = "st\<lparr>failed_fns := failed_fns st @ [f]\<rparr>"
  have "later ?st1 (snd (fail_fn_by ff f st))"
    unfolding fail_fn_by_def Let_def if_not_P [OF False]
  proof (rule later_seq_st)
    show "later ?st1 (snd (foreach (drop_build ff f) (dkeys (build_targets ?st1)) ?st1))"
      by (rule later_foreach) (rule drop_build_later)
  next
    fix s assume "later ?st1 s"
    also have "later s (snd (foreach (drop_run ff f) (dkeys (run_targets s)) s))"
      by (rule later_foreach) (rule drop_run_later)
    finally show "later ?st1 (snd (foreach (drop_run ff f) (dkeys (run_targets s)) s))" .
  qed
  with later_failed_fns show ?thesis by (blast intro: later_trans)
qed (simp add: fail_fn_by_def)

end

lemma failing_fuel: "failing (fail_fn_fuel n)"
proof (induction n)
  case (Suc n)
  show ?case by unfold_locales (simp add: failing.fail_fn_later [OF Suc.IH])
qed (unfold_locales, simp)

interpretation fuel: failing "fail_fn_fuel n" for n
  by (rule failing_fuel)

section \<open>The fuel is enough\<close>

definition pending :: "td_state \<Rightarrow> nat" where
  "pending st = card (set (dependants st) - set (failed_fns st))"

lemma pending_later: "later a b \<Longrightarrow> pending b \<le> pending a"
  unfolding pending_def later_dependants
  by (intro card_mono) (auto simp: later_def)

lemma pending_fail:
  assumes "f \<in> set (dependants st)" and "f \<notin> set (failed_fns st)"
  shows "pending (st\<lparr>failed_fns := failed_fns st @ [f]\<rparr>) < pending st"
proof -
  let ?st1 = "st\<lparr>failed_fns := failed_fns st @ [f]\<rparr>"
  have "dependants ?st1 = dependants st" by (rule later_dependants [OF later_failed_fns])
  then have "set (dependants ?st1) - set (failed_fns ?st1) =
      (set (dependants st) - set (failed_fns st)) - {f}" by auto
  with assms show ?thesis unfolding pending_def by (metis DiffI List.finite_set card_Diff1_less finite_Diff)
qed

text \<open>Within a state that extends \<open>a\<close>, calls on its dependants do not run out of fuel.\<close>

locale fuelled = failing +
  fixes a :: td_state
  assumes ff_fuel: "later a st \<Longrightarrow> g \<in> set (dependants a) \<Longrightarrow> fst (ff g st) \<noteq> Inl OutOfFuel"
begin

lemma foreach_ff:
  assumes "later a s" and "set xs \<subseteq> set (dependants a)"
  shows "fst (foreach ff xs s) \<noteq> Inl OutOfFuel"
  using assms(1)
proof (rule foreach_no_exc [where I = "later a"], intro conjI)
  fix x s assume "x \<in> set xs" and s: "later a s"
  with assms(2) show "fst (ff x s) \<noteq> Inl OutOfFuel" by (intro ff_fuel) auto
  from s ff_later show "later a (snd (ff x s))" by (rule later_trans)
qed

lemma foreach_later: "later a s \<Longrightarrow> later a (snd (foreach ff xs s))"
  using later_foreach [of xs ff s] ff_later by (blast intro: later_trans)

lemma remove_buildtarget_fuel:
  assumes "later a st" shows "fst (remove_buildtarget_by ff t st) \<noteq> Inl OutOfFuel"
proof -
  let ?st1 = "st\<lparr>failed_deps := failed_deps st @ [t]\<rparr>"
  have st1: "later a ?st1" using assms later_failed_deps by (rule later_trans)
  have sub: "set (get_dependees s t) \<subseteq> set (dependants a)" "set (idepend_fns s t) \<subseteq> set (dependants a)"
    if "later a s" for s
    using later_needs [OF that] needs_build_dependants [of _ a t] by (auto simp: needs_build_def)
  obtain r2 s2 where l1: "foreach ff (get_dependees ?st1 t) ?st1 = (r2, s2)" by fastforce
  with st1 foreach_ff [OF st1 sub(1) [OF st1]] foreach_later [OF st1, of "get_dependees ?st1 t"]
  have s2: "r2 \<noteq> Inl OutOfFuel" "later a s2" by auto
  obtain r3 s3 where l2: "foreach ff (idepend_fns s2 t) s2 = (r3, s3)" by fastforce
  with foreach_ff [OF s2(2) sub(2) [OF s2(2)]] have "r3 \<noteq> Inl OutOfFuel" by auto
  with s2 l1 l2 show ?thesis
    by (cases r2; cases r3) (simp_all add: remove_buildtarget_by_def)
qed

lemma remove_runtarget_fuel:
  assumes "later a st" shows "fst (remove_runtarget_by ff t st) \<noteq> Inl OutOfFuel"
proof -
  let ?st1 = "st\<lparr>failed_rdeps := failed_rdeps st @ [t]\<rparr>"
  have st1: "later a ?st1" using assms later_failed_rdeps by (rule later_trans)
  have sub: "set (get_rdependees s t) \<subseteq> set (dependants a)" "set (irdepend_fns s t) \<subseteq> set (dependants a)"
    if "later a s" for s
    using later_needs [OF that] needs_run_dependants [of _ a t] by (auto simp: needs_run_def)
  obtain r2 s2 where l1: "foreach ff (get_rdependees ?st1 t) ?st1 = (r2, s2)" by fastforce
  with st1 foreach_ff [OF st1 sub(1) [OF st1]] foreach_later [OF st1, of "get_rdependees ?st1 t"]
  have s2: "r2 \<noteq> Inl OutOfFuel" "later a s2" by auto
  obtain r3 s3 where l2: "foreach ff (irdepend_fns s2 t) s2 = (r3, s3)" by fastforce
  with foreach_ff [OF s2(2) sub(2) [OF s2(2)]] have "r3 \<noteq> Inl OutOfFuel" by auto
  with s2 l1 l2 show ?thesis
    by (cases r2; cases r3) (simp_all add: remove_runtarget_by_def)
qed

lemma drop_build_fuel:
  "later a st \<Longrightarrow> fst (drop_build ff f t st) \<noteq> Inl OutOfFuel"
  using later_drop_build [of f st t] remove_buildtarget_fuel
  by (auto simp: drop_build_def Let_def dest: later_trans)

lemma drop_run_fuel:
  "later a st \<Longrightarrow> fst (drop_run ff f t st) \<noteq> Inl OutOfFuel"
  using later_drop_run [of f st t] remove_runtarget_fuel
  by (auto simp: drop_run_def Let_def dest: later_trans)

lemma fail_fn_fuel:
  assumes "a = st\<lparr>failed_fns := failed_fns st @ [f]\<rparr>"
  shows "fst (fail_fn_by ff f st) \<noteq> Inl OutOfFuel"
proof (cases "f \<in> set (failed_fns st)")
  case False
  obtain r2 s2 where l1: "foreach (drop_build ff f) (dkeys (build_targets a)) a = (r2, s2)" by fastforce
  have "fst (foreach (drop_build ff f) (dkeys (build_targets a)) a) \<noteq> Inl OutOfFuel"
    by (rule foreach_no_exc [where I = "later a"], rule later_refl, rule conjI, erule later_trans)
      (rule drop_build_later, erule drop_build_fuel)
  moreover have "later a (snd (foreach (drop_build ff f) (dkeys (build_targets a)) a))"
    by (rule later_foreach) (rule drop_build_later)
  ultimately have s2: "r2 \<noteq> Inl OutOfFuel" "later a s2" using l1 by auto
  have "fst (foreach (drop_run ff f) (dkeys (run_targets s2)) s2) \<noteq> Inl OutOfFuel"
    by (rule foreach_no_exc [where I = "later a"], rule s2(2), rule conjI, erule later_trans)
      (rule drop_run_later, erule drop_run_fuel)
  with False l1 s2 show ?thesis
    by (cases r2) (simp_all add: fail_fn_by_def assms)
qed (simp add: fail_fn_by_def)

end

lemma fail_fn_fuel_pending:
  assumes "pending st < n" and "f \<in> set (dependants st)"
  shows "fst (fail_fn_fuel n f st) \<noteq> Inl OutOfFuel"
  using assms
proof (induction n arbitrary: f st)
  case (Suc n)
  show ?case
  proof (cases "f \<in> set (failed_fns st)")
    case False
    let ?a = "st\<lparr>failed_fns := failed_fns st @ [f]\<rparr>"
    have "pending ?a < n" using pending_fail [OF Suc.prems(2) False] Suc.prems(1) by simp
    then have "fuelled (fail_fn_fuel n) ?a"
      using Suc.IH pending_later later_dependants
      by unfold_locales (metis order_le_less_trans)
    then show ?thesis by (simp add: fuelled.fail_fn_fuel)
  qed (simp add: fail_fn_by_def)
qed simp

section \<open>What failing a file fails\<close>

text \<open>
  The specification: from the given files, the least set closed under losing a target.  A target
  is lost when it had providers and all of them are doomed; a file is doomed when it depends on
  a lost build or runtime target.
\<close>

inductive doomed :: "td_state \<Rightarrow> string set \<Rightarrow> string \<Rightarrow> bool" for st roots where
  doomed_root: "f \<in> roots \<Longrightarrow> doomed st roots f"
| doomed_build: "f \<in> needs_build st t \<Longrightarrow> blist st t \<noteq> [] \<Longrightarrow>
    \<forall>g \<in> set (blist st t). doomed st roots g \<Longrightarrow> doomed st roots f"
| doomed_run: "f \<in> needs_run st t \<Longrightarrow> rlist st t \<noteq> [] \<Longrightarrow>
    \<forall>g \<in> set (rlist st t). doomed st roots g \<Longrightarrow> doomed st roots f"

definition lost_build :: "td_state \<Rightarrow> string set \<Rightarrow> string \<Rightarrow> bool" where
  "lost_build st roots t \<longleftrightarrow> blist st t \<noteq> [] \<and> (\<forall>g \<in> set (blist st t). doomed st roots g)"

definition lost_run :: "td_state \<Rightarrow> string set \<Rightarrow> string \<Rightarrow> bool" where
  "lost_run st roots t \<longleftrightarrow> rlist st t \<noteq> [] \<and> (\<forall>g \<in> set (rlist st t). doomed st roots g)"

text \<open>
  The failures recorded so far are complete, but for targets \<open>B\<close> and \<open>R\<close> whose dependants are
  being failed and files \<open>F\<close> that are being removed from the provider lists.
\<close>

definition closed_but :: "string set \<Rightarrow> string set \<Rightarrow> string set \<Rightarrow> td_state \<Rightarrow> bool" where
  "closed_but B R F st \<longleftrightarrow>
     (\<forall>t \<in> set (failed_deps st) - B. needs_build st t \<subseteq> set (failed_fns st)) \<and>
     (\<forall>t \<in> set (failed_rdeps st) - R. needs_run st t \<subseteq> set (failed_fns st)) \<and>
     (\<forall>f \<in> set (failed_fns st) - F. \<forall>t. f \<notin> set (blist st t) \<and> f \<notin> set (rlist st t))"

definition td_closed :: "td_state \<Rightarrow> bool" where
  "td_closed st \<longleftrightarrow> closed_but {} {} {} st \<and> (\<forall>t. distinct (blist st t) \<and> distinct (rlist st t))"

definition cut :: "string set \<Rightarrow> string list \<Rightarrow> string list \<Rightarrow> bool" where
  "cut X new old \<longleftrightarrow> (\<exists>Y \<subseteq> X. new = filter (\<lambda>f. f \<notin> Y) old)"

lemma cut_refl [simp]: "cut X xs xs"
  by (auto simp: cut_def intro: exI [of _ "{}"])

lemma cut_mono: "cut X new old \<Longrightarrow> X \<subseteq> Z \<Longrightarrow> cut Z new old"
  by (auto simp: cut_def)

lemma cut_remove1:
  assumes "cut X new old" "distinct old" "f \<in> X" shows "cut X (remove1 f new) old"
proof -
  obtain Y where "Y \<subseteq> X" and new: "new = filter (\<lambda>f. f \<notin> Y) old"
    using assms(1) by (auto simp: cut_def)
  moreover have "remove1 f new = filter (\<lambda>g. g \<notin> insert f Y) old"
    using assms(2) new by (auto simp: distinct_remove1_removeAll removeAll_filter_not_eq
        intro!: filter_cong)
  ultimately show ?thesis using assms(3) unfolding cut_def by (intro exI [of _ "insert f Y"]) auto
qed

lemma cut_Nil: "cut X [] old \<Longrightarrow> set old \<subseteq> X"
  by (auto simp: cut_def filter_empty_conv dest!: sym [of "[]"])

lemma cut_distinct: "cut X new old \<Longrightarrow> distinct old \<Longrightarrow> distinct new"
  by (auto simp: cut_def)

lemma cut_final: "cut X new old \<Longrightarrow> set new \<inter> X = {} \<Longrightarrow> new = filter (\<lambda>f. f \<notin> X) old"
  by (auto simp: cut_def intro!: filter_cong)

text \<open>What holds of every state on the way from \<open>a\<close>, whatever is raised.\<close>

definition on_way :: "td_state \<Rightarrow> string set \<Rightarrow> td_state \<Rightarrow> bool" where
  "on_way a roots st \<longleftrightarrow>
     later a st \<and>
     (\<forall>t. cut (set (failed_fns st)) (blist st t) (blist a t)) \<and>
     (\<forall>t. cut (set (failed_fns st)) (rlist st t) (rlist a t)) \<and>
     (\<forall>t. blist a t \<noteq> [] \<longrightarrow> blist st t = [] \<longrightarrow> t \<in> set (failed_deps st)) \<and>
     (\<forall>t. rlist a t \<noteq> [] \<longrightarrow> rlist st t = [] \<longrightarrow> t \<in> set (failed_rdeps st)) \<and>
     (\<forall>f \<in> set (failed_fns st). f \<in> set (failed_fns a) \<or> doomed a roots f) \<and>
     (\<forall>t \<in> set (failed_deps st). t \<in> set (failed_deps a) \<or> lost_build a roots t) \<and>
     (\<forall>t \<in> set (failed_rdeps st). t \<in> set (failed_rdeps a) \<or> lost_run a roots t)"

lemma on_way_later: "on_way a roots st \<Longrightarrow> later a st"
  by (simp add: on_way_def)

lemma later_gone:
  "later a b \<Longrightarrow> f \<notin> set (blist a t) \<Longrightarrow> f \<notin> set (blist b t)"
  "later a b \<Longrightarrow> f \<notin> set (rlist a t) \<Longrightarrow> f \<notin> set (rlist b t)"
  unfolding later_def by blast+

lemma later_keys:
  "later a b \<Longrightarrow> dkeys (build_targets b) = dkeys (build_targets a)"
  "later a b \<Longrightarrow> dkeys (run_targets b) = dkeys (run_targets a)"
  unfolding later_def by blast+

lemma later_blist: "later a b \<Longrightarrow> f \<in> set (blist b t) \<Longrightarrow> blist a t \<noteq> []"
  unfolding later_def by (metis empty_iff list.set(1) subsetD)

lemma later_rlist: "later a b \<Longrightarrow> f \<in> set (rlist b t) \<Longrightarrow> rlist a t \<noteq> []"
  unfolding later_def by (metis empty_iff list.set(1) subsetD)

lemma on_way_refl [simp]: "on_way a roots a"
  by (auto simp: on_way_def)

lemma on_way_fail:
  "on_way a roots st \<Longrightarrow> doomed a roots f \<Longrightarrow>
     on_way a roots (st\<lparr>failed_fns := failed_fns st @ [f]\<rparr>)"
  using later_trans [OF _ later_failed_fns [of st f], of a]
  unfolding on_way_def by (auto intro: cut_mono)

text \<open>A removal that empties a list goes together with the mark of its target.\<close>

lemma on_way_drop_build:
  assumes way: "on_way a roots st" and "td_closed a" and "f \<in> set (blist st t)" "f \<in> set (failed_fns st)"
  defines "new \<equiv> remove_first f (blist st t)"
  defines "st1 \<equiv> st\<lparr>build_targets := dset t new (build_targets st)\<rparr>"
  shows "new \<noteq> [] \<Longrightarrow> on_way a roots st1"
    and "new = [] \<Longrightarrow> on_way a roots (st1\<lparr>failed_deps := failed_deps st1 @ [t]\<rparr>)"
    and "new = [] \<Longrightarrow> lost_build a roots t"
proof -
  have "distinct (blist a t)" using assms(2) by (simp add: td_closed_def)
  with way assms(4) have new: "cut (set (failed_fns st)) new (blist a t)"
    unfolding new_def by (intro cut_remove1) (auto simp: on_way_def)
  have ne: "blist a t \<noteq> []"
    using later_blist [OF on_way_later [OF way] assms(3)] .
  have st1: "later a st1"
    using way later_drop_build [OF assms(3)] by (auto simp: on_way_def st1_def new_def intro: later_trans)
  then have st2: "later a (st1\<lparr>failed_deps := failed_deps st1 @ [t]\<rparr>)"
    using later_failed_deps by (rule later_trans)
  show lost: "lost_build a roots t" if "new = []"
    using new ne that way cut_Nil [of "set (failed_fns st)" "blist a t"] assms(2)
    by (fastforce simp: lost_build_def on_way_def td_closed_def closed_but_def)
  show "on_way a roots st1" if "new \<noteq> []"
    using way st1 new that by (simp add: on_way_def) (simp add: st1_def)
  show "on_way a roots (st1\<lparr>failed_deps := failed_deps st1 @ [t]\<rparr>)" if "new = []"
    using way st2 new that lost by (simp add: on_way_def) (auto simp: st1_def)
qed

lemma on_way_drop_run:
  assumes way: "on_way a roots st" and "td_closed a" and "f \<in> set (rlist st t)" "f \<in> set (failed_fns st)"
  defines "new \<equiv> remove_first f (rlist st t)"
  defines "st1 \<equiv> st\<lparr>run_targets := dset t new (run_targets st)\<rparr>"
  shows "new \<noteq> [] \<Longrightarrow> on_way a roots st1"
    and "new = [] \<Longrightarrow> on_way a roots (st1\<lparr>failed_rdeps := failed_rdeps st1 @ [t]\<rparr>)"
    and "new = [] \<Longrightarrow> lost_run a roots t"
proof -
  have "distinct (rlist a t)" using assms(2) by (simp add: td_closed_def)
  with way assms(4) have new: "cut (set (failed_fns st)) new (rlist a t)"
    unfolding new_def by (intro cut_remove1) (auto simp: on_way_def)
  have ne: "rlist a t \<noteq> []"
    using later_rlist [OF on_way_later [OF way] assms(3)] .
  have st1: "later a st1"
    using way later_drop_run [OF assms(3)] by (auto simp: on_way_def st1_def new_def intro: later_trans)
  then have st2: "later a (st1\<lparr>failed_rdeps := failed_rdeps st1 @ [t]\<rparr>)"
    using later_failed_rdeps by (rule later_trans)
  show lost: "lost_run a roots t" if "new = []"
    using new ne that way cut_Nil [of "set (failed_fns st)" "rlist a t"] assms(2)
    by (fastforce simp: lost_run_def on_way_def td_closed_def closed_but_def)
  show "on_way a roots st1" if "new \<noteq> []"
    using way st1 new that by (simp add: on_way_def) (simp add: st1_def)
  show "on_way a roots (st1\<lparr>failed_rdeps := failed_rdeps st1 @ [t]\<rparr>)" if "new = []"
    using way st2 new that lost by (simp add: on_way_def) (auto simp: st1_def)
qed

lemma needs_lost_build: "lost_build a roots t \<Longrightarrow> f \<in> needs_build a t \<Longrightarrow> doomed a roots f"
  unfolding lost_build_def by (blast intro: doomed_build)

lemma needs_lost_run: "lost_run a roots t \<Longrightarrow> f \<in> needs_run a t \<Longrightarrow> doomed a roots f"
  unfolding lost_run_def by (blast intro: doomed_run)

lemma later_failed_fns_mono: "later a b \<Longrightarrow> f \<in> set (failed_fns a) \<Longrightarrow> f \<in> set (failed_fns b)"
  by (auto simp: later_def)

lemma closed_but_mark_build:
  "closed_but B R F st \<Longrightarrow> closed_but (insert t B) R F (st\<lparr>failed_deps := failed_deps st @ [t]\<rparr>)"
  using later_needs [OF later_failed_deps [of st t]] by (auto simp: closed_but_def)

lemma closed_but_mark_run:
  "closed_but B R F st \<Longrightarrow> closed_but B (insert t R) F (st\<lparr>failed_rdeps := failed_rdeps st @ [t]\<rparr>)"
  using later_needs [OF later_failed_rdeps [of st t]] by (auto simp: closed_but_def)

lemma closed_but_done_build:
  "closed_but (insert t B) R F st \<Longrightarrow> needs_build st t \<subseteq> set (failed_fns st) \<Longrightarrow> closed_but B R F st"
  by (auto simp: closed_but_def)

lemma closed_but_done_run:
  "closed_but B (insert t R) F st \<Longrightarrow> needs_run st t \<subseteq> set (failed_fns st) \<Longrightarrow> closed_but B R F st"
  by (auto simp: closed_but_def)

lemma closed_but_fail:
  "closed_but B R F st \<Longrightarrow> closed_but B R (insert f F) (st\<lparr>failed_fns := failed_fns st @ [f]\<rparr>)"
  using later_needs [OF later_failed_fns [of st f]] by (auto simp: closed_but_def)

lemma closed_but_drop_build:
  assumes "closed_but B R F st"
  shows "closed_but B R F (st\<lparr>build_targets := dset t (remove_first f (blist st t)) (build_targets st)\<rparr>)"
proof -
  have "needs_build (st\<lparr>build_targets := d\<rparr>) = needs_build st"
    "needs_run (st\<lparr>build_targets := d\<rparr>) = needs_run st" for d
    by (simp_all add: needs_build_def [abs_def] needs_run_def [abs_def] get_dependees_def
        get_rdependees_def idepend_fns_def irdepend_fns_def)
  with assms show ?thesis by (auto simp: closed_but_def dest: notin_set_remove1 set_remove1_subset [THEN subsetD])
qed

lemma closed_but_drop_run:
  assumes "closed_but B R F st"
  shows "closed_but B R F (st\<lparr>run_targets := dset t (remove_first f (rlist st t)) (run_targets st)\<rparr>)"
proof -
  have "needs_build (st\<lparr>run_targets := d\<rparr>) = needs_build st"
    "needs_run (st\<lparr>run_targets := d\<rparr>) = needs_run st" for d
    by (simp_all add: needs_build_def [abs_def] needs_run_def [abs_def] get_dependees_def
        get_rdependees_def idepend_fns_def irdepend_fns_def)
  with assms show ?thesis by (auto simp: closed_but_def dest: notin_set_remove1 set_remove1_subset [THEN subsetD])
qed

text \<open>
  The error that a method of the group can raise is \<open>NoProvider\<close> for a lost external target,
  when the options say to halt.
\<close>

definition halting :: "td_state \<Rightarrow> string set \<Rightarrow> 'a result \<Rightarrow> bool" where
  "halting a roots r \<longleftrightarrow>
     (case r of Inr _ \<Rightarrow> True
      | Inl e \<Rightarrow> e = OutOfFuel \<or>
          (\<exists>t. e = NoProvider t \<and> halt a \<and> t \<in> set (external_targets a) \<and> lost_build a roots t))"

locale culling = failing +
  fixes a :: td_state and roots :: "string set"
  assumes closed_a: "td_closed a"
    and ff_way: "on_way a roots st \<Longrightarrow> doomed a roots g \<Longrightarrow>
      on_way a roots (snd (ff g st)) \<and> halting a roots (fst (ff g st))"
    and ff_done: "on_way a roots st \<Longrightarrow> doomed a roots g \<Longrightarrow> closed_but B R F st \<Longrightarrow>
      ff g st = (Inr (), st') \<Longrightarrow> closed_but B R F st' \<and> g \<in> set (failed_fns st')"
begin

lemma foreach_way:
  assumes "on_way a roots s" and "\<forall>g \<in> set gs. doomed a roots g"
  shows "on_way a roots (snd (foreach ff gs s)) \<and> halting a roots (fst (foreach ff gs s))"
  using assms
proof (induction gs arbitrary: s)
  case (Cons g gs)
  obtain r s' where "ff g s = (r, s')" by fastforce
  with ff_way [OF Cons.prems(1), of g] Cons show ?case by (cases r) auto
qed (simp add: halting_def)

lemma foreach_done:
  assumes "on_way a roots s" and "\<forall>g \<in> set gs. doomed a roots g" and "closed_but B R F s"
    and "foreach ff gs s = (Inr (), s')"
  shows "closed_but B R F s' \<and> set gs \<subseteq> set (failed_fns s')"
  using assms
proof (induction gs arbitrary: s)
  case (Cons g gs)
  obtain s1 where s1: "ff g s = (Inr (), s1)" and rest: "foreach ff gs s1 = (Inr (), s')"
    using Cons.prems(4) by (auto split: prod.splits sum.splits)
  have g: "doomed a roots g" using Cons.prems(2) by simp
  have way: "on_way a roots s1" using ff_way [OF Cons.prems(1) g] s1 by simp
  have "closed_but B R F s' \<and> set gs \<subseteq> set (failed_fns s')"
    by (rule Cons.IH [OF way _ _ rest]) (use ff_done [OF Cons.prems(1) g Cons.prems(3) s1] Cons.prems(2) in auto)
  moreover have "g \<in> set (failed_fns s')"
    using ff_done [OF Cons.prems(1) g Cons.prems(3) s1] later_foreach [of gs ff s1] ff_later rest
    by (auto dest: later_failed_fns_mono)
  ultimately show ?case by simp
qed simp

lemma way_needs:
  assumes "on_way a roots s"
  shows "needs_build s = needs_build a" "needs_run s = needs_run a"
    "lost_build a roots t \<Longrightarrow> \<forall>g \<in> set (get_dependees s t) \<union> set (idepend_fns s t). doomed a roots g"
    "lost_run a roots t \<Longrightarrow> \<forall>g \<in> set (get_rdependees s t) \<union> set (irdepend_fns s t). doomed a roots g"
  using later_needs [OF on_way_later [OF assms]] needs_lost_build [of a roots t] needs_lost_run [of a roots t]
  by (auto simp: needs_build_def needs_run_def)

lemma remove_buildtarget_way:
  assumes way: "on_way a roots (st\<lparr>failed_deps := failed_deps st @ [t]\<rparr>)" and lost: "lost_build a roots t"
  shows "on_way a roots (snd (remove_buildtarget_by ff t st)) \<and>
      halting a roots (fst (remove_buildtarget_by ff t st))"
proof -
  let ?st1 = "st\<lparr>failed_deps := failed_deps st @ [t]\<rparr>"
  obtain r2 s2 where l1: "foreach ff (get_dependees ?st1 t) ?st1 = (r2, s2)" by fastforce
  with foreach_way [OF way, of "get_dependees ?st1 t"] way_needs(3) [OF way lost]
  have s2: "on_way a roots s2" "halting a roots r2" by auto
  obtain r3 s3 where l2: "foreach ff (idepend_fns s2 t) s2 = (r3, s3)" by fastforce
  with foreach_way [OF s2(1), of "idepend_fns s2 t"] way_needs(3) [OF s2(1) lost]
  have s3: "on_way a roots s3" "halting a roots r3" by auto
  then have "halt s3 = halt a" "external_targets s3 = external_targets a"
    by (simp_all add: on_way_def later_def)
  with s2 s3 l1 l2 lost show ?thesis
    by (cases r2; cases r3) (simp_all add: remove_buildtarget_by_def halting_def)
qed

lemma remove_runtarget_way:
  assumes way: "on_way a roots (st\<lparr>failed_rdeps := failed_rdeps st @ [t]\<rparr>)" and lost: "lost_run a roots t"
  shows "on_way a roots (snd (remove_runtarget_by ff t st)) \<and>
      halting a roots (fst (remove_runtarget_by ff t st))"
proof -
  let ?st1 = "st\<lparr>failed_rdeps := failed_rdeps st @ [t]\<rparr>"
  obtain r2 s2 where l1: "foreach ff (get_rdependees ?st1 t) ?st1 = (r2, s2)" by fastforce
  with foreach_way [OF way, of "get_rdependees ?st1 t"] way_needs(4) [OF way lost]
  have s2: "on_way a roots s2" "halting a roots r2" by auto
  obtain r3 s3 where l2: "foreach ff (irdepend_fns s2 t) s2 = (r3, s3)" by fastforce
  with foreach_way [OF s2(1), of "irdepend_fns s2 t"] way_needs(4) [OF s2(1) lost]
  have s3: "on_way a roots s3" "halting a roots r3" by auto
  with s2 l1 l2 show ?thesis
    by (cases r2; cases r3) (simp_all add: remove_runtarget_by_def halting_def)
qed

lemma remove_buildtarget_done:
  assumes way: "on_way a roots (st\<lparr>failed_deps := failed_deps st @ [t]\<rparr>)" and lost: "lost_build a roots t"
    and "closed_but B R F st" and run: "remove_buildtarget_by ff t st = (Inr (), st')"
  shows "closed_but B R F st'"
proof -
  let ?st1 = "st\<lparr>failed_deps := failed_deps st @ [t]\<rparr>"
  obtain s2 where l1: "foreach ff (get_dependees ?st1 t) ?st1 = (Inr (), s2)"
    and l2: "foreach ff (idepend_fns s2 t) s2 = (Inr (), st')"
    using run by (auto simp: remove_buildtarget_by_def Let_def seq_st_Inr split: if_splits)
  have s2: "on_way a roots s2"
    using foreach_way [OF way, of "get_dependees ?st1 t"] way_needs(3) [OF way lost] l1 by simp
  have c2: "closed_but (insert t B) R F s2 \<and> set (get_dependees ?st1 t) \<subseteq> set (failed_fns s2)"
    by (rule foreach_done [OF way _ closed_but_mark_build [OF assms(3)] l1])
      (use way_needs(3) [OF way lost] in auto)
  then have c3: "closed_but (insert t B) R F st' \<and> set (idepend_fns s2 t) \<subseteq> set (failed_fns st')"
    using way_needs(3) [OF s2 lost] by (intro foreach_done [OF s2 _ _ l2]) auto
  have l23: "later s2 st'" using later_foreach [of "idepend_fns s2 t" ff s2] ff_later l2 by auto
  have eq: "get_dependees s2 = get_dependees ?st1"
    using later_needs [OF on_way_later [OF way]] later_needs [OF on_way_later [OF s2]] by simp
  have "needs_build st' t = set (get_dependees s2 t) \<union> set (idepend_fns s2 t)"
    using later_needs [OF l23] by (simp add: needs_build_def)
  with c2 c3 l23 eq have "needs_build st' t \<subseteq> set (failed_fns st')"
    by (auto dest: later_failed_fns_mono)
  with c3 show ?thesis by (blast intro: closed_but_done_build)
qed

lemma remove_runtarget_done:
  assumes way: "on_way a roots (st\<lparr>failed_rdeps := failed_rdeps st @ [t]\<rparr>)" and lost: "lost_run a roots t"
    and "closed_but B R F st" and run: "remove_runtarget_by ff t st = (Inr (), st')"
  shows "closed_but B R F st'"
proof -
  let ?st1 = "st\<lparr>failed_rdeps := failed_rdeps st @ [t]\<rparr>"
  obtain s2 where l1: "foreach ff (get_rdependees ?st1 t) ?st1 = (Inr (), s2)"
    and l2: "foreach ff (irdepend_fns s2 t) s2 = (Inr (), st')"
    using run by (auto simp: remove_runtarget_by_def Let_def seq_st_Inr)
  have s2: "on_way a roots s2"
    using foreach_way [OF way, of "get_rdependees ?st1 t"] way_needs(4) [OF way lost] l1 by simp
  have c2: "closed_but B (insert t R) F s2 \<and> set (get_rdependees ?st1 t) \<subseteq> set (failed_fns s2)"
    by (rule foreach_done [OF way _ closed_but_mark_run [OF assms(3)] l1])
      (use way_needs(4) [OF way lost] in auto)
  then have c3: "closed_but B (insert t R) F st' \<and> set (irdepend_fns s2 t) \<subseteq> set (failed_fns st')"
    using way_needs(4) [OF s2 lost] by (intro foreach_done [OF s2 _ _ l2]) auto
  have l23: "later s2 st'" using later_foreach [of "irdepend_fns s2 t" ff s2] ff_later l2 by auto
  have eq: "get_rdependees s2 = get_rdependees ?st1"
    using later_needs [OF on_way_later [OF way]] later_needs [OF on_way_later [OF s2]] by simp
  have "needs_run st' t = set (get_rdependees s2 t) \<union> set (irdepend_fns s2 t)"
    using later_needs [OF l23] by (simp add: needs_run_def)
  with c2 c3 l23 eq have "needs_run st' t \<subseteq> set (failed_fns st')"
    by (auto dest: later_failed_fns_mono)
  with c3 show ?thesis by (blast intro: closed_but_done_run)
qed

end

context culling
begin

lemma drop_build_way:
  assumes way: "on_way a roots st" and f: "f \<in> set (failed_fns st)"
  shows "on_way a roots (snd (drop_build ff f t st)) \<and> halting a roots (fst (drop_build ff f t st))"
proof (cases "f \<in> set (blist st t)")
  case True
  note step = on_way_drop_build [OF way closed_a True f]
  show ?thesis
  proof (cases "remove_first f (blist st t) = []")
    case empty: True
    with True remove_buildtarget_way [OF step(2) step(3)] show ?thesis by (simp add: drop_build_def)
  next
    case False
    with True step(1) show ?thesis by (simp add: drop_build_def halting_def)
  qed
qed (simp add: drop_build_def way halting_def)

lemma drop_run_way:
  assumes way: "on_way a roots st" and f: "f \<in> set (failed_fns st)"
  shows "on_way a roots (snd (drop_run ff f t st)) \<and> halting a roots (fst (drop_run ff f t st))"
proof (cases "f \<in> set (rlist st t)")
  case True
  note step = on_way_drop_run [OF way closed_a True f]
  show ?thesis
  proof (cases "remove_first f (rlist st t) = []")
    case empty: True
    with True remove_runtarget_way [OF step(2) step(3)] show ?thesis by (simp add: drop_run_def)
  next
    case False
    with True step(1) show ?thesis by (simp add: drop_run_def halting_def)
  qed
qed (simp add: drop_run_def way halting_def)

lemma way_distinct:
  "on_way a roots st \<Longrightarrow> distinct (blist st t) \<and> distinct (rlist st t)"
  using closed_a unfolding on_way_def td_closed_def by (blast intro: cut_distinct)

lemma drop_build_done:
  assumes way: "on_way a roots st" and f: "f \<in> set (failed_fns st)"
    and c: "closed_but B R F st" and run: "drop_build ff f t st = (Inr (), st')"
  shows "closed_but B R F st' \<and> f \<notin> set (blist st' t)"
proof (cases "f \<in> set (blist st t)")
  case True
  note step = on_way_drop_build [OF way closed_a True f]
  let ?st1 = "st\<lparr>build_targets := dset t (remove_first f (blist st t)) (build_targets st)\<rparr>"
  have c1: "closed_but B R F ?st1" by (rule closed_but_drop_build [OF c])
  have gone: "f \<notin> set (blist ?st1 t)" using way_distinct [OF way] by simp
  show ?thesis
  proof (cases "remove_first f (blist st t) = []")
    case empty: True
    with True run have run1: "remove_buildtarget_by ff t ?st1 = (Inr (), st')"
      by (simp add: drop_build_def)
    then have "later ?st1 st'" using remove_buildtarget_later [of ?st1 t] by simp
    with remove_buildtarget_done [OF step(2) [OF empty] step(3) [OF empty] c1 run1]
      later_gone(1) [OF _ gone] show ?thesis by blast
  next
    case False
    with True run have "st' = ?st1" by (simp add: drop_build_def)
    with c1 gone show ?thesis by simp
  qed
qed (use run c in \<open>auto simp: drop_build_def\<close>)

lemma drop_run_done:
  assumes way: "on_way a roots st" and f: "f \<in> set (failed_fns st)"
    and c: "closed_but B R F st" and run: "drop_run ff f t st = (Inr (), st')"
  shows "closed_but B R F st' \<and> f \<notin> set (rlist st' t)"
proof (cases "f \<in> set (rlist st t)")
  case True
  note step = on_way_drop_run [OF way closed_a True f]
  let ?st1 = "st\<lparr>run_targets := dset t (remove_first f (rlist st t)) (run_targets st)\<rparr>"
  have c1: "closed_but B R F ?st1" by (rule closed_but_drop_run [OF c])
  have gone: "f \<notin> set (rlist ?st1 t)" using way_distinct [OF way] by simp
  show ?thesis
  proof (cases "remove_first f (rlist st t) = []")
    case empty: True
    with True run have run1: "remove_runtarget_by ff t ?st1 = (Inr (), st')"
      by (simp add: drop_run_def)
    then have "later ?st1 st'" using remove_runtarget_later [of ?st1 t] by simp
    with remove_runtarget_done [OF step(2) [OF empty] step(3) [OF empty] c1 run1]
      later_gone(2) [OF _ gone] show ?thesis by blast
  next
    case False
    with True run have "st' = ?st1" by (simp add: drop_run_def)
    with c1 gone show ?thesis by simp
  qed
qed (use run c in \<open>auto simp: drop_run_def\<close>)

text \<open>One pass over the targets keeps what is known and clears the file from every list.\<close>

lemma drops_build:
  assumes "on_way a roots s" and "f \<in> set (failed_fns s)"
  shows "on_way a roots (snd (foreach (drop_build ff f) ts s)) \<and>
      halting a roots (fst (foreach (drop_build ff f) ts s))"
    and "closed_but B R F s \<Longrightarrow> foreach (drop_build ff f) ts s = (Inr (), s') \<Longrightarrow>
      closed_but B R F s' \<and> (\<forall>t \<in> set ts. f \<notin> set (blist s' t))"
proof -
  have "on_way a roots (snd (foreach (drop_build ff f) ts s)) \<and>
      halting a roots (fst (foreach (drop_build ff f) ts s)) \<and>
      (\<forall>s'. closed_but B R F s \<longrightarrow> foreach (drop_build ff f) ts s = (Inr (), s') \<longrightarrow>
        closed_but B R F s' \<and> (\<forall>t \<in> set ts. f \<notin> set (blist s' t)))"
    using assms
  proof (induction ts arbitrary: s)
    case (Cons t ts)
    obtain r s1 where s1: "drop_build ff f t s = (r, s1)" by fastforce
    have way: "on_way a roots s1" "halting a roots r"
      using drop_build_way [OF Cons.prems, of t] s1 by auto
    have f: "f \<in> set (failed_fns s1)"
      using drop_build_later [of s f t] s1 Cons.prems(2) by (auto dest: later_failed_fns_mono)
    have later: "later s1 (snd (foreach (drop_build ff f) ts s1))"
      by (rule later_foreach) (rule drop_build_later)
    show ?case
    proof (cases r)
      case (Inr u)
      with s1 have s1': "drop_build ff f t s = (Inr (), s1)" by simp
      then have eq: "foreach (drop_build ff f) (t # ts) s = foreach (drop_build ff f) ts s1" by simp
      note IH = Cons.IH [OF way(1) f]
      have "closed_but B R F s' \<and> (\<forall>t \<in> set (t # ts). f \<notin> set (blist s' t))"
        if "closed_but B R F s" and run: "foreach (drop_build ff f) ts s1 = (Inr (), s')" for s'
      proof -
        have "closed_but B R F s1" and "f \<notin> set (blist s1 t)"
          using drop_build_done [OF Cons.prems that(1) s1'] by blast+
        with IH run later_gone(1) [OF later, of f t] show ?thesis by simp
      qed
      with IH show ?thesis unfolding eq by blast
    qed (use s1 way in \<open>auto simp: halting_def\<close>)
  qed (auto simp: halting_def)
  then show "on_way a roots (snd (foreach (drop_build ff f) ts s)) \<and>
      halting a roots (fst (foreach (drop_build ff f) ts s))"
    and "closed_but B R F s \<Longrightarrow> foreach (drop_build ff f) ts s = (Inr (), s') \<Longrightarrow>
      closed_but B R F s' \<and> (\<forall>t \<in> set ts. f \<notin> set (blist s' t))" by auto
qed

lemma drops_run:
  assumes "on_way a roots s" and "f \<in> set (failed_fns s)"
  shows "on_way a roots (snd (foreach (drop_run ff f) ts s)) \<and>
      halting a roots (fst (foreach (drop_run ff f) ts s))"
    and "closed_but B R F s \<Longrightarrow> foreach (drop_run ff f) ts s = (Inr (), s') \<Longrightarrow>
      closed_but B R F s' \<and> (\<forall>t \<in> set ts. f \<notin> set (rlist s' t))"
proof -
  have "on_way a roots (snd (foreach (drop_run ff f) ts s)) \<and>
      halting a roots (fst (foreach (drop_run ff f) ts s)) \<and>
      (\<forall>s'. closed_but B R F s \<longrightarrow> foreach (drop_run ff f) ts s = (Inr (), s') \<longrightarrow>
        closed_but B R F s' \<and> (\<forall>t \<in> set ts. f \<notin> set (rlist s' t)))"
    using assms
  proof (induction ts arbitrary: s)
    case (Cons t ts)
    obtain r s1 where s1: "drop_run ff f t s = (r, s1)" by fastforce
    have way: "on_way a roots s1" "halting a roots r"
      using drop_run_way [OF Cons.prems, of t] s1 by auto
    have f: "f \<in> set (failed_fns s1)"
      using drop_run_later [of s f t] s1 Cons.prems(2) by (auto dest: later_failed_fns_mono)
    have later: "later s1 (snd (foreach (drop_run ff f) ts s1))"
      by (rule later_foreach) (rule drop_run_later)
    show ?case
    proof (cases r)
      case (Inr u)
      with s1 have s1': "drop_run ff f t s = (Inr (), s1)" by simp
      then have eq: "foreach (drop_run ff f) (t # ts) s = foreach (drop_run ff f) ts s1" by simp
      note IH = Cons.IH [OF way(1) f]
      have "closed_but B R F s' \<and> (\<forall>t \<in> set (t # ts). f \<notin> set (rlist s' t))"
        if "closed_but B R F s" and run: "foreach (drop_run ff f) ts s1 = (Inr (), s')" for s'
      proof -
        have "closed_but B R F s1" and "f \<notin> set (rlist s1 t)"
          using drop_run_done [OF Cons.prems that(1) s1'] by blast+
        with IH run later_gone(2) [OF later, of f t] show ?thesis by simp
      qed
      with IH show ?thesis unfolding eq by blast
    qed (use s1 way in \<open>auto simp: halting_def\<close>)
  qed (auto simp: halting_def)
  then show "on_way a roots (snd (foreach (drop_run ff f) ts s)) \<and>
      halting a roots (fst (foreach (drop_run ff f) ts s))"
    and "closed_but B R F s \<Longrightarrow> foreach (drop_run ff f) ts s = (Inr (), s') \<Longrightarrow>
      closed_but B R F s' \<and> (\<forall>t \<in> set ts. f \<notin> set (rlist s' t))" by auto
qed

lemma fail_fn_way:
  assumes way: "on_way a roots st" and f: "doomed a roots f"
  shows "on_way a roots (snd (fail_fn_by ff f st)) \<and> halting a roots (fst (fail_fn_by ff f st))"
proof (cases "f \<in> set (failed_fns st)")
  case False
  let ?st1 = "st\<lparr>failed_fns := failed_fns st @ [f]\<rparr>"
  have way1: "on_way a roots ?st1" by (rule on_way_fail [OF way f])
  have in1: "f \<in> set (failed_fns ?st1)" by simp
  obtain r2 s2 where l1: "foreach (drop_build ff f) (dkeys (build_targets ?st1)) ?st1 = (r2, s2)"
    by fastforce
  with drops_build(1) [OF way1 in1, of "dkeys (build_targets ?st1)"]
  have s2: "on_way a roots s2" "halting a roots r2" by auto
  have in2: "f \<in> set (failed_fns s2)"
    using later_foreach [of "dkeys (build_targets ?st1)" "drop_build ff f" ?st1] drop_build_later l1
    by (auto dest!: later_failed_fns_mono [of _ _ f])
  show ?thesis
    using False l1 s2 drops_run(1) [OF s2(1) in2, of "dkeys (run_targets s2)"]
    by (cases r2) (simp_all add: fail_fn_by_def halting_def)
qed (simp add: fail_fn_by_def way halting_def)

lemma fail_fn_done:
  assumes way: "on_way a roots st" and f: "doomed a roots f" and c: "closed_but B R F st"
    and run: "fail_fn_by ff f st = (Inr (), st')"
  shows "closed_but B R F st' \<and> f \<in> set (failed_fns st')"
proof (cases "f \<in> set (failed_fns st)")
  case False
  let ?st1 = "st\<lparr>failed_fns := failed_fns st @ [f]\<rparr>"
  have way1: "on_way a roots ?st1" by (rule on_way_fail [OF way f])
  have in1: "f \<in> set (failed_fns ?st1)" by simp
  obtain s2 where l1: "foreach (drop_build ff f) (dkeys (build_targets ?st1)) ?st1 = (Inr (), s2)"
    and l2: "foreach (drop_run ff f) (dkeys (run_targets s2)) s2 = (Inr (), st')"
    using run False by (auto simp: fail_fn_by_def Let_def seq_st_Inr)
  have la: "later ?st1 s2"
    using later_foreach [of "dkeys (build_targets ?st1)" "drop_build ff f" ?st1] drop_build_later l1
    by simp
  have lb: "later s2 st'"
    using later_foreach [of "dkeys (run_targets s2)" "drop_run ff f" s2] drop_run_later l2 by simp
  have way2: "on_way a roots s2"
    using drops_build(1) [OF way1 in1, of "dkeys (build_targets ?st1)"] l1 by simp
  have in2: "f \<in> set (failed_fns s2)" by (rule later_failed_fns_mono [OF la in1])
  have c2: "closed_but B R (insert f F) s2 \<and> (\<forall>t \<in> set (dkeys (build_targets ?st1)). f \<notin> set (blist s2 t))"
    by (rule drops_build(2) [OF way1 in1 closed_but_fail [OF c] l1])
  then have c3: "closed_but B R (insert f F) st' \<and> (\<forall>t \<in> set (dkeys (run_targets s2)). f \<notin> set (rlist st' t))"
    by (intro drops_run(2) [OF way2 in2 _ l2]) simp
  have "f \<notin> set (blist s2 t)" for t
    using c2 dget_or_mem [of f "build_targets s2" t] later_keys(1) [OF la] by metis
  then have nb: "f \<notin> set (blist st' t)" for t using later_gone(1) [OF lb] by blast
  have nr: "f \<notin> set (rlist st' t)" for t
    using c3 dget_or_mem [of f "run_targets st'" t] later_keys(2) [OF lb] by metis
  have "closed_but B R F st'" using c3 nb nr unfolding closed_but_def by blast
  with later_failed_fns_mono [OF lb in2] show ?thesis by simp
qed (use run c in \<open>auto simp: fail_fn_by_def\<close>)

end

lemma culling_fuel: "td_closed a \<Longrightarrow> culling (fail_fn_fuel n) a roots"
proof (induction n)
  case 0
  then show ?case by unfold_locales (auto simp: halting_def)
next
  case (Suc n)
  then have "culling (fail_fn_fuel n) a roots" by blast
  then show ?case
    using Suc.prems by unfold_locales (simp_all add: culling.fail_fn_way culling.fail_fn_done)
qed

section \<open>The recursion equations hold without fuel\<close>

text \<open>A run with more fuel agrees with one that did not run out.\<close>

definition agree :: "'a result \<times> 's \<Rightarrow> 'a result \<times> 's \<Rightarrow> bool" where
  "agree r r' \<longleftrightarrow> (fst r \<noteq> Inl OutOfFuel \<longrightarrow> r' = r)"

lemma agree_refl [simp]: "agree r r"
  by (simp add: agree_def)

lemma agree_seq:
  "agree r r' \<Longrightarrow> (\<And>s. agree (f s) (f' s)) \<Longrightarrow> agree (seq_st r f) (seq_st r' f')"
  by (cases r; cases "fst r") (auto simp: agree_def)

lemma agree_foreach:
  "(\<And>x s. agree (f x s) (f' x s)) \<Longrightarrow> agree (foreach f xs s) (foreach f' xs s)"
proof (induction xs arbitrary: s)
  case (Cons x xs)
  then show ?case using Cons.prems [of x s]
    by (cases "f x s"; cases "fst (f x s)") (auto simp: agree_def)
qed simp

lemma agree_if: "agree a a' \<Longrightarrow> agree b b' \<Longrightarrow> agree (if P then a else b) (if P then a' else b')"
  by simp

lemma fail_fn_by_agree:
  assumes "\<And>g s. agree (ff g s) (ff' g s)"
  shows "agree (fail_fn_by ff f st) (fail_fn_by ff' f st)"
  unfolding fail_fn_by_def drop_build_def drop_run_def remove_buildtarget_by_def
    remove_runtarget_by_def Let_def
  by (intro agree_if agree_seq agree_foreach agree_refl assms)

lemma fail_fn_fuel_mono: "agree (fail_fn_fuel n f st) (fail_fn_fuel (n + k) f st)"
proof (induction n arbitrary: f st)
  case (Suc n)
  then show ?case by (simp add: fail_fn_by_agree)
qed (simp add: agree_def)

lemma pending_le: "pending st \<le> length (dependants st)"
  unfolding pending_def by (rule le_trans [OF card_mono card_length]) auto

lemma fail_fn_returns: "fst (fail_fn f st) \<noteq> Inl OutOfFuel"
proof -
  let ?a = "st\<lparr>failed_fns := failed_fns st @ [f]\<rparr>"
  have len: "dependants ?a = dependants st" by (rule later_dependants [OF later_failed_fns])
  have "fst (fail_fn_fuel (length (dependants st) + 1) g s) \<noteq> Inl OutOfFuel"
    if "later ?a s" "g \<in> set (dependants ?a)" for g s
    using that pending_le [of s] len later_dependants [OF that(1)]
    by (intro fail_fn_fuel_pending) auto
  then have "fuelled (fail_fn_fuel (length (dependants st) + 1)) ?a"
    by unfold_locales
  then show ?thesis by (simp add: fail_fn_def fuelled.fail_fn_fuel)
qed

lemma fail_fn_agree: "agree (fail_fn_fuel n f st) (fail_fn f st)"
proof -
  let ?m = "length (dependants st) + 2"
  show ?thesis
  proof (cases "n \<le> ?m")
    case True
    with fail_fn_fuel_mono [of n f st "?m - n"] show ?thesis by (simp add: fail_fn_def)
  next
    case False
    then obtain k where n: "n = ?m + k" using nat_le_iff_add [of ?m n] by auto
    show ?thesis
      using fail_fn_fuel_mono [of ?m f st k] fail_fn_returns [of f st]
      unfolding n agree_def fail_fn_def by metis
  qed
qed

lemma foreach_fail_fn_returns: "fst (foreach fail_fn xs s) \<noteq> Inl OutOfFuel"
  by (rule foreach_no_exc [where I = "\<lambda>_. True"]) (simp_all add: fail_fn_returns)

lemma remove_returns:
  "fst (remove_buildtarget t st) \<noteq> Inl OutOfFuel" "fst (remove_runtarget t st) \<noteq> Inl OutOfFuel"
proof -
  have "fst (seq_st r f) \<noteq> Inl OutOfFuel"
    if "fst r \<noteq> Inl OutOfFuel" "\<And>s. fst (f s) \<noteq> Inl OutOfFuel" for r and f :: "td_state \<Rightarrow> td_result"
    using that by (cases r; cases "fst r") auto
  note seq = this
  show "fst (remove_buildtarget t st) \<noteq> Inl OutOfFuel"
    unfolding remove_buildtarget_def remove_buildtarget_by_def Let_def
    by (rule seq [OF foreach_fail_fn_returns], rule seq [OF foreach_fail_fn_returns]) simp
  show "fst (remove_runtarget t st) \<noteq> Inl OutOfFuel"
    unfolding remove_runtarget_def remove_runtarget_by_def Let_def
    by (rule seq [OF foreach_fail_fn_returns], rule foreach_fail_fn_returns)
qed

text \<open>
  C5: \<open>fail_fn\<close>, \<open>remove_buildtarget\<close> and \<open>remove_runtarget\<close> always return, and \<open>fail_fn\<close> is a
  solution of the code's mutually recursive definition: the fuel is invisible.
\<close>

theorem fail_fn_recursion:
  "fail_fn f st = fail_fn_by fail_fn f st \<and> fst (fail_fn f st) \<noteq> Inl OutOfFuel \<and>
   fst (remove_buildtarget t st) \<noteq> Inl OutOfFuel \<and> fst (remove_runtarget t st) \<noteq> Inl OutOfFuel"
proof -
  have "agree (fail_fn f st) (fail_fn_by fail_fn f st)"
    using fail_fn_by_agree [of "fail_fn_fuel (length (dependants st) + 1)" fail_fn f st, OF fail_fn_agree]
    by (simp add: fail_fn_def [of f st])
  then show ?thesis using fail_fn_returns [of f st] remove_returns by (simp add: agree_def)
qed

section \<open>Failing a file fails exactly the doomed files\<close>

lemma culling_fail_fn: "td_closed a \<Longrightarrow> culling fail_fn a roots"
proof -
  assume "td_closed a"
  then have c: "culling (fail_fn_fuel n) a roots" for n by (rule culling_fuel)
  show ?thesis
  proof unfold_locales
    show "later st (snd (fail_fn g st))" for g st
      unfolding fail_fn_def by (rule fuel.ff_later)
    show "on_way a roots (snd (fail_fn g st)) \<and> halting a roots (fst (fail_fn g st))"
      if "on_way a roots st" "doomed a roots g" for g st
      unfolding fail_fn_def by (rule culling.ff_way [OF c that])
    show "closed_but B R F st' \<and> g \<in> set (failed_fns st')"
      if "on_way a roots st" "doomed a roots g" "closed_but B R F st" "fail_fn g st = (Inr (), st')"
      for g st st' B R F
      using that(4) unfolding fail_fn_def by (rule culling.ff_done [OF c that(1,2,3)])
  qed fact
qed

text \<open>\<open>fail_fn\<close> itself meets both contracts: the second one on the initial state, and on every closed state.\<close>

interpretation returns: fuelled fail_fn st for st
proof unfold_locales
  show "later st (snd (fail_fn g st))" for g st
    unfolding fail_fn_def by (rule fuel.ff_later)
qed (rule fail_fn_returns)

lemma init_td_closed: "td_closed (init_td h incomplete dc ds)"
  by (auto simp: td_closed_def closed_but_def init_td_def dget_or_def)

interpretation fresh: culling fail_fn "init_td h incomplete dc ds" roots for h incomplete dc ds roots
  by (rule culling_fail_fn [OF init_td_closed])

lemma doomed_failed:
  assumes way: "on_way a {f} st" and closed: "closed_but {} {} {} st" and f: "f \<in> set (failed_fns st)"
    and "doomed a {f} g"
  shows "g \<in> set (failed_fns st)"
  using assms(4)
proof (induction rule: doomed.induct)
  case (doomed_build g t)
  have "blist st t = []"
  proof -
    have "x \<in> set (failed_fns st)" if "x \<in> set (blist st t)" for x
      using that later_gone [OF on_way_later [OF way], of x t] doomed_build(3) by blast
    with closed have "x \<notin> set (blist st t)" for x unfolding closed_but_def by blast
    then show ?thesis by (metis list.set_intros(1) neq_Nil_conv)
  qed
  with way doomed_build(2) have "t \<in> set (failed_deps st)" by (simp add: on_way_def)
  with closed doomed_build(1) later_needs [OF on_way_later [OF way]]
  show ?case by (auto simp: closed_but_def)
next
  case (doomed_run g t)
  have "rlist st t = []"
  proof -
    have "x \<in> set (failed_fns st)" if "x \<in> set (rlist st t)" for x
      using that later_gone [OF on_way_later [OF way], of x t] doomed_run(3) by blast
    with closed have "x \<notin> set (rlist st t)" for x unfolding closed_but_def by blast
    then show ?thesis by (metis list.set_intros(1) neq_Nil_conv)
  qed
  with way doomed_run(2) have "t \<in> set (failed_rdeps st)" by (simp add: on_way_def)
  with closed doomed_run(1) later_needs [OF on_way_later [OF way]]
  show ?case by (auto simp: closed_but_def)
qed (use f in simp)

lemma exact_lists:
  assumes "cut X new old" "set new \<inter> X = {}" "set old \<inter> A = {}" "X = A \<union> D"
  shows "new = filter (\<lambda>g. g \<notin> D) old"
  using cut_final [OF assms(1,2)] assms(3,4) by (auto intro!: filter_cong)

text \<open>
  C1: when failing a file ends without an error, the files newly recorded as failed are exactly
  the doomed ones and the targets newly recorded exactly the lost ones, every provider list has
  lost exactly its doomed files, and the failures recorded are closed again.
\<close>

theorem fail_fn_exact:
  assumes "td_closed st" and "fail_fn f st = (Inr (), st')"
  shows "set (failed_fns st') = set (failed_fns st) \<union> {g. doomed st {f} g} \<and>
    set (failed_deps st') = set (failed_deps st) \<union> {t. lost_build st {f} t} \<and>
    set (failed_rdeps st') = set (failed_rdeps st) \<union> {t. lost_run st {f} t} \<and>
    (\<forall>t. blist st' t = filter (\<lambda>g. \<not> doomed st {f} g) (blist st t) \<and>
      rlist st' t = filter (\<lambda>g. \<not> doomed st {f} g) (rlist st t)) \<and> td_closed st'"
proof -
  note cull = culling_fail_fn [OF assms(1), of "{f}"]
  have root: "doomed st {f} f" by (rule doomed_root) simp
  have way: "on_way st {f} st'"
    using culling.ff_way [OF cull on_way_refl root] assms(2) by simp
  have closed: "closed_but {} {} {} st' \<and> f \<in> set (failed_fns st')"
    using culling.ff_done [OF cull on_way_refl root _ assms(2), of "{}" "{}" "{}"] assms(1)
    by (simp add: td_closed_def)
  have fns: "set (failed_fns st') = set (failed_fns st) \<union> {g. doomed st {f} g}"
    using way closed doomed_failed [OF way] by (auto simp: on_way_def later_def)
  have gone: "set (blist st' t) \<inter> set (failed_fns st') = {}" "set (rlist st' t) \<inter> set (failed_fns st') = {}"
    and gone0: "set (blist st t) \<inter> set (failed_fns st) = {}" "set (rlist st t) \<inter> set (failed_fns st) = {}" for t
    using closed assms(1) by (auto simp: closed_but_def td_closed_def)
  have b: "blist st' t = filter (\<lambda>g. \<not> doomed st {f} g) (blist st t)" for t
    using exact_lists [OF _ gone(1) gone0(1) fns] way by (simp add: on_way_def)
  have r: "rlist st' t = filter (\<lambda>g. \<not> doomed st {f} g) (rlist st t)" for t
    using exact_lists [OF _ gone(2) gone0(2) fns] way by (simp add: on_way_def)
  have "t \<in> set (failed_deps st')" if "lost_build st {f} t" for t
    using that way b [of t] by (auto simp: lost_build_def on_way_def filter_empty_conv)
  then have deps: "set (failed_deps st') = set (failed_deps st) \<union> {t. lost_build st {f} t}"
    using way by (auto simp: on_way_def later_def)
  have "t \<in> set (failed_rdeps st')" if "lost_run st {f} t" for t
    using that way r [of t] by (auto simp: lost_run_def on_way_def filter_empty_conv)
  then have rdeps: "set (failed_rdeps st') = set (failed_rdeps st) \<union> {t. lost_run st {f} t}"
    using way by (auto simp: on_way_def later_def)
  have "td_closed st'"
    using closed b r assms(1) by (simp add: td_closed_def)
  with fns deps rdeps b r show ?thesis by simp
qed

text \<open>
  C29: the only error in failing a file is \<open>NoProvider\<close> for an external target that has lost all
  its providers, when the options say to halt on it; otherwise it ends normally.
\<close>

theorem fail_fn_error:
  assumes "td_closed st" and "fail_fn f st = (Inl e, st')"
  shows "\<exists>t. e = NoProvider t \<and> halt st \<and> t \<in> set (external_targets st) \<and> lost_build st {f} t"
proof -
  have "doomed st {f} f" by (rule doomed_root) simp
  from culling.ff_way [OF culling_fail_fn [OF assms(1)] on_way_refl this]
  have "halting st {f} (Inl e :: unit result)" using assms(2) by simp
  with fail_fn_returns [of f st] assms(2) show ?thesis by (simp add: halting_def)
qed

section \<open>Examples\<close>

text \<open>Two recipes, the second one needs the target \<open>a\<close> that only the first one provides.\<close>

definition td2 :: "bool \<Rightarrow> td_state" where
  "td2 h = (init_td h False cache2 (\<lambda>_. []))
     \<lparr>build_targets := [(''a'', [''a.bb'']), (''b'', [''b.bb''])],
      external_targets := [''b''], depids := [(''a.bb'', []), (''b.bb'', [''a''])]\<rparr>"

lemma td2_blist: "blist (td2 h) t = (if t = ''a'' then [''a.bb''] else if t = ''b'' then [''b.bb''] else [])"
  by (simp add: td2_def dget_or_def)

lemma td2_closed: "td_closed (td2 h)"
proof -
  have "rlist (td2 h) t = []" for t by (simp add: td2_def init_td_def dget_or_def)
  moreover have "failed_deps (td2 h) = []" "failed_rdeps (td2 h) = []" "failed_fns (td2 h) = []"
    by (simp_all add: td2_def init_td_def)
  ultimately show ?thesis by (simp add: td_closed_def closed_but_def td2_blist)
qed

lemma td2_run:
  "fail_fn ''a.bb'' (td2 True) = (Inl (NoProvider ''b''), snd (fail_fn ''a.bb'' (td2 True)))"
  "fail_fn ''a.bb'' (td2 False) = (Inr (), snd (fail_fn ''a.bb'' (td2 False)))"
  by (simp_all add: fail_fn_def td2_def init_td_def dependants_def fail_fn_by_def drop_build_def
      drop_run_def remove_buildtarget_by_def get_dependees_def idepend_fns_def dget_or_def eval_nat_numeral)

theorem fail_fn_exact_witness:
  "td_closed (snd (fail_fn ''a.bb'' (td2 False))) \<and>
   set (failed_fns (snd (fail_fn ''a.bb'' (td2 False)))) = {g. doomed (td2 False) {''a.bb''} g}"
  using fail_fn_exact [OF td2_closed td2_run(2)] by (simp add: td2_def init_td_def)

theorem fail_fn_error_witness:
  "lost_build (td2 True) {''a.bb''} ''b'' \<and> ''b'' \<in> set (external_targets (td2 True))"
  using fail_fn_error [OF td2_closed td2_run(1)] by simp

text \<open>A new recipe \<open>c.bb\<close> whose compile task needs the populated sysroot of \<open>a\<close>.\<close>

definition tab3 :: tables where
  "tab3 = \<lparr>t_deps = (\<lambda>_. \<lparr>tasks = [''do_compile''], parents = [(''do_compile'', [])],
       flags = [(''depends'', [(''do_compile'', ''a:do_populate_sysroot'')])]\<rparr>),
     rundeps = (\<lambda>_. []), runrecs = (\<lambda>_. []), extra_deps = (\<lambda>_. None), py_order = (\<lambda>xs. xs),
     re_match = (\<lambda>_. None), getVar = (\<lambda>_. None)\<rparr>"

definition td3 :: td_state where
  "td3 = (init_td False False cache2 (\<lambda>_. []))\<lparr>build_targets := [(''a'', [])], failed_deps := [''a'']\<rparr>"


end
