(* ===== verification/Weights.thy ===== *)
theory Weights
  imports Tids
begin

text \<open>
  Task weights and the search for dependency loops, the methods of \<open>RunQueueData\<close> in
  \<open>poky/bitbake/lib/bb/runqueue.py\<close> that end the preparation of a run queue.  The dict
  \<open>runtaskentries\<close> is an association list from task ids to \<open>RunTaskEntry\<close> records; a Python set
  of task ids is a distinct list, in the order in which it is iterated over.

  The main theorems: a walk from the end points reaches every task exactly when the dependencies
  are acyclic, and then the weight of a task is one more than the sum of the weights of the tasks
  that need it (ten for a task that nothing needs).
\<close>

section \<open>Run queue entries\<close>

record run_entry =
  depends :: "string list"
  revdeps :: "string list"
  hash :: "string option"
  unihash :: "string option"
  weight :: int

definition new_entry :: run_entry where
  "new_entry = \<lparr>depends = [], revdeps = [], hash = None, unihash = None, weight = 1\<rparr>"

type_synonym runq = "(string \<times> run_entry) list"

definition depends_of :: "runq \<Rightarrow> string \<Rightarrow> string list" where
  "depends_of rq t = (case dget rq t of None \<Rightarrow> [] | Some e \<Rightarrow> depends e)"

definition revdeps_of :: "runq \<Rightarrow> string \<Rightarrow> string list" where
  "revdeps_of rq t = (case dget rq t of None \<Rightarrow> [] | Some e \<Rightarrow> revdeps e)"

section \<open>Reverse dependencies and end points\<close>

text \<open>A dependency that is not in the queue is a \<open>KeyError\<close>.\<close>

definition add_revdep :: "string \<Rightarrow> string \<Rightarrow> runq \<Rightarrow> unit result \<times> runq" where
  "add_revdep tid dep rq =
     (case dget rq dep of
        None \<Rightarrow> (Inl KeyError, rq)
      | Some e \<Rightarrow> (Inr (), dset dep (e\<lparr>revdeps := append_new tid (revdeps e)\<rparr>) rq))"

definition add_revdeps :: "runq \<Rightarrow> unit result \<times> runq" where
  "add_revdeps rq =
     foreach (\<lambda>tid q. foreach (add_revdep tid) (depends_of q tid) q) (dkeys rq) rq"

text \<open>
  The end points are the tasks that nothing depends on; a task that is both before and after
  another one ends the program.
\<close>

fun find_endpoints :: "runq \<Rightarrow> string list \<Rightarrow> string list result" where
  "find_endpoints rq [] = Inr []"
| "find_endpoints rq (tid # ts) =
     (if list_ex (\<lambda>dep. dep \<in> set (depends_of rq tid)) (revdeps_of rq tid) then Inl Fatal
      else bind_res (find_endpoints rq ts) (\<lambda>es.
             Inr (if revdeps_of rq tid = [] then tid # es else es)))"

section \<open>Task weights\<close>

record kahn =
  k_weight :: "(string \<times> int) list"
  deps_left :: "(string \<times> int) list"
  task_done :: "(string \<times> bool) list"
  next_points :: "string list"

definition kahn_init :: "runq \<Rightarrow> string list \<Rightarrow> kahn" where
  "kahn_init rq endpoints =
     \<lparr>k_weight = foldl (\<lambda>w t. dset t 10 w) (map (\<lambda>(t, e). (t, 1)) rq) endpoints,
      deps_left = map (\<lambda>(t, e). (t, int (length (revdeps e)))) rq,
      task_done = foldl (\<lambda>d t. dset t True d) (map (\<lambda>(t, e). (t, False)) rq) endpoints,
      next_points = []\<rparr>"

text \<open>One pass through the inner loop: the edge from \<open>tid\<close> to its dependency \<open>revdep\<close>.\<close>

definition kahn_edge :: "string \<Rightarrow> string \<Rightarrow> kahn \<Rightarrow> unit result \<times> kahn" where
  "kahn_edge tid revdep k =
     (case (dget (k_weight k) revdep, dget (k_weight k) tid, dget (deps_left k) revdep) of
        (Some wr, Some wt, Some n) \<Rightarrow>
          (let k1 = k\<lparr>k_weight := dset revdep (wr + wt) (k_weight k),
                     deps_left := dset revdep (n - 1) (deps_left k)\<rparr>
           in (Inr (), if n - 1 = 0
                       then k1\<lparr>next_points := next_points k1 @ [revdep],
                              task_done := dset revdep True (task_done k1)\<rparr>
                       else k1))
      | _ \<Rightarrow> (Inl KeyError, k))"

definition kahn_task :: "runq \<Rightarrow> string \<Rightarrow> kahn \<Rightarrow> unit result \<times> kahn" where
  "kahn_task rq tid k =
     (case dget rq tid of None \<Rightarrow> (Inl KeyError, k) | Some e \<Rightarrow> foreach (kahn_edge tid) (depends e) k)"

definition kahn_round :: "runq \<Rightarrow> string list \<Rightarrow> kahn \<Rightarrow> unit result \<times> kahn" where
  "kahn_round rq endpoints k = foreach (kahn_task rq) endpoints (k\<lparr>next_points := []\<rparr>)"

text \<open>
  The number of tasks with dependents left: a round that finds next points makes it smaller, so
  the loop ends on every input.
\<close>

definition waiting :: "kahn \<Rightarrow> nat" where
  "waiting k = length (filter (\<lambda>(t, n). 0 < n) (deps_left k))"

lemma length_filter_dset:
  "dget d k = Some u \<Longrightarrow>
     length (filter P (dset k v d)) + (if P (k, u) then 1 else 0) =
     length (filter P d) + (if P (k, v) then 1 else 0)"
proof (induction d)
  case (Cons kv d)
  obtain k' w where "kv = (k', w)" by fastforce
  with Cons show ?case by (cases "k' = k") simp_all
qed simp

lemma kahn_edge_Inr:
  assumes "kahn_edge t d k = (Inr u, k')"
  obtains wr wt n where "dget (k_weight k) d = Some wr" "dget (k_weight k) t = Some wt"
    "dget (deps_left k) d = Some n" "k_weight k' = dset d (wr + wt) (k_weight k)"
    "deps_left k' = dset d (n - 1) (deps_left k)"
    "next_points k' = next_points k @ (if n = 1 then [d] else [])"
    "task_done k' = (if n = 1 then dset d True (task_done k) else task_done k)"
  using assms by (auto simp: kahn_edge_def Let_def split: option.splits if_splits)

lemma kahn_edge_Inl: "kahn_edge t d k = (Inl e, k') \<Longrightarrow> k' = k"
  by (auto simp: kahn_edge_def Let_def split: option.splits)

lemma kahn_edge_waiting:
  "waiting (snd (kahn_edge t d k)) + length (next_points (snd (kahn_edge t d k))) \<le>
     waiting k + length (next_points k)"
proof (cases "kahn_edge t d k")
  case (Pair r k')
  show ?thesis
  proof (cases r)
    case (Inr u)
    with Pair have "kahn_edge t d k = (Inr u, k')" by simp
    then obtain wr wt n where n: "dget (deps_left k) d = Some n"
      and dl: "deps_left k' = dset d (n - 1) (deps_left k)"
      and np: "next_points k' = next_points k @ (if n = 1 then [d] else [])"
      by (rule kahn_edge_Inr)
    have "waiting k' + (if 0 < n then 1 else 0) = waiting k + (if 1 < n then 1 else 0)"
      using length_filter_dset [OF n, of "\<lambda>(t, n). 0 < n" "n - 1"] by (simp add: waiting_def dl)
    with np Pair show ?thesis by (auto split: if_splits)
  next
    case (Inl e)
    with Pair kahn_edge_Inl [of t d k e k'] show ?thesis by simp
  qed
qed

lemma foreach_le:
  fixes m :: "'s \<Rightarrow> nat"
  assumes "\<And>x s. m (snd (f x s)) \<le> m s"
  shows "m (snd (foreach f xs s)) \<le> m s"
  by (rule foreach_rel [where R = "\<lambda>a b. m b \<le> m a"]) (use assms in auto)

lemma kahn_round_waiting:
  "waiting (snd (kahn_round rq es k)) + length (next_points (snd (kahn_round rq es k))) \<le> waiting k"
proof -
  let ?m = "\<lambda>k. waiting k + length (next_points k)"
  have "?m (snd (kahn_edge t d k)) \<le> ?m k" for t d k
    by (rule kahn_edge_waiting)
  then have "?m (snd (foreach (kahn_edge t) ds k)) \<le> ?m k" for t ds k
    by (rule foreach_le)
  then have "?m (snd (kahn_task rq t k)) \<le> ?m k" for t k
    by (simp add: kahn_task_def split: option.split)
  then have "?m (snd (foreach (kahn_task rq) es (k\<lparr>next_points := []\<rparr>))) \<le> ?m (k\<lparr>next_points := []\<rparr>)"
    by (rule foreach_le)
  then show ?thesis by (simp add: kahn_round_def waiting_def)
qed

lemma kahn_round_less:
  "kahn_round rq es k = (r, k1) \<Longrightarrow> next_points k1 \<noteq> [] \<Longrightarrow> waiting k1 < waiting k"
  using kahn_round_waiting [of rq es k] by (cases "next_points k1") auto

function kahn_loop :: "runq \<Rightarrow> string list \<Rightarrow> kahn \<Rightarrow> unit result \<times> kahn" where
  "kahn_loop rq endpoints k =
     (case kahn_round rq endpoints k of
        (Inl e, k1) \<Rightarrow> (Inl e, k1)
      | (Inr _, k1) \<Rightarrow> if next_points k1 = [] then (Inr (), k1) else kahn_loop rq (next_points k1) k1)"
  by pat_completeness auto
termination
  by (relation "measure (\<lambda>(rq, es, k). waiting k)") (auto dest!: sym [of "(_, _)"] kahn_round_less)

declare kahn_loop.simps [simp del]

text \<open>The tasks that cannot be built, in the order of the queue.\<close>

definition problem_tasks :: "runq \<Rightarrow> kahn \<Rightarrow> string list" where
  "problem_tasks rq k =
     filter (\<lambda>t. dget_or (task_done k) t False = False \<or> dget_or (deps_left k) t 0 \<noteq> 0) (dkeys rq)"

definition set_weights :: "kahn \<Rightarrow> runq \<Rightarrow> runq" where
  "set_weights k rq = map (\<lambda>(t, e). (t, e\<lparr>weight := dget_or (k_weight k) t 0\<rparr>)) rq"

definition calculate_task_weights :: "runq \<Rightarrow> string list \<Rightarrow> (string \<times> int) list result \<times> runq" where
  "calculate_task_weights rq endpoints =
     (case kahn_loop rq endpoints (kahn_init rq endpoints) of
        (Inl e, k) \<Rightarrow> (Inl e, rq)
      | (Inr _, k) \<Rightarrow>
          (if problem_tasks rq k = [] then Inr (k_weight k) else Inl Fatal, set_weights k rq))"

section \<open>The walk visits exactly the buildable tasks\<close>

definition graph_ok :: "runq \<Rightarrow> bool" where
  "graph_ok rq \<longleftrightarrow> wf_dict rq \<and>
     (\<forall>t. distinct (depends_of rq t) \<and> distinct (revdeps_of rq t) \<and>
       set (depends_of rq t) \<subseteq> set (dkeys rq) \<and> set (revdeps_of rq t) \<subseteq> set (dkeys rq)) \<and>
     (\<forall>s t. s \<in> set (revdeps_of rq t) \<longleftrightarrow> t \<in> set (depends_of rq s))"

definition dep_rel :: "runq \<Rightarrow> (string \<times> string) set" where
  "dep_rel rq = {(s, t). t \<in> set (depends_of rq s)}"

text \<open>\<open>X\<close> is the set of edges walked so far; a task is complete when all edges into it are.\<close>

definition complete_in :: "runq \<Rightarrow> (string \<times> string) set \<Rightarrow> string \<Rightarrow> bool" where
  "complete_in rq X d \<longleftrightarrow> (\<forall>s \<in> set (revdeps_of rq d). (s, d) \<in> X)"

definition base_weight :: "runq \<Rightarrow> string \<Rightarrow> int" where
  "base_weight rq d = (if revdeps_of rq d = [] then 10 else 1)"

definition walked :: "runq \<Rightarrow> (string \<times> string) set \<Rightarrow> kahn \<Rightarrow> bool" where
  "walked rq X k \<longleftrightarrow>
     set (dkeys (k_weight k)) = set (dkeys rq) \<and> set (dkeys (deps_left k)) = set (dkeys rq) \<and>
     (\<forall>d. dget_or (deps_left k) d 0 = int (card {s \<in> set (revdeps_of rq d). (s, d) \<notin> X})) \<and>
     (\<forall>d \<in> set (dkeys rq). dget_or (task_done k) d False \<longleftrightarrow> complete_in rq X d) \<and>
     (\<forall>d \<in> set (dkeys rq). dget_or (k_weight k) d 0 = base_weight rq d +
        (\<Sum>s \<in> {s \<in> set (revdeps_of rq d). (s, d) \<in> X}. dget_or (k_weight k) s 0)) \<and>
     (\<forall>(s, d) \<in> X. complete_in rq X s)"

lemma revdeps_of_None: "t \<notin> set (dkeys rq) \<Longrightarrow> revdeps_of rq t = []"
  using dget_None_dkeys [of rq t] by (simp add: revdeps_of_def)

lemma walked_done:
  "walked rq X k \<Longrightarrow> d \<in> set (dkeys rq) \<Longrightarrow> dget_or (task_done k) d False \<longleftrightarrow> complete_in rq X d"
  unfolding walked_def by blast

lemma walked_weight:
  "walked rq X k \<Longrightarrow> d \<in> set (dkeys rq) \<Longrightarrow> dget_or (k_weight k) d 0 = base_weight rq d +
     (\<Sum>s \<in> {s \<in> set (revdeps_of rq d). (s, d) \<in> X}. dget_or (k_weight k) s 0)"
  unfolding walked_def by blast

lemma dget_or_key: "k \<in> set (dkeys d) \<Longrightarrow> dget d k = Some (dget_or d k v)"
  using dget_in_dkeys [of k d] by (auto simp: dget_or_def)

lemma kahn_edge_walked:
  assumes ok: "graph_ok rq" and inv: "walked rq X k" and d: "d \<in> set (depends_of rq t)"
    and new: "(t, d) \<notin> X" and comp: "complete_in rq X t"
  shows "\<exists>k'. kahn_edge t d k = (Inr (), k') \<and> walked rq (insert (t, d) X) k' \<and>
    next_points k' = next_points k @ (if complete_in rq (insert (t, d) X) d then [d] else [])"
proof -
  have td: "t \<in> set (revdeps_of rq d)" using ok d by (simp add: graph_ok_def)
  have keys: "d \<in> set (dkeys rq)" "t \<in> set (dkeys rq)"
    using ok d td unfolding graph_ok_def by blast+
  have ne: "d \<noteq> t" using comp new td by (auto simp: complete_in_def)
  let ?w = "dget_or (k_weight k)" and ?n = "dget_or (deps_left k) d 0"
  have same: "set (dkeys (k_weight k)) = set (dkeys rq)" "set (dkeys (deps_left k)) = set (dkeys rq)"
    using inv unfolding walked_def by blast+
  have wd: "dget (k_weight k) d = Some (?w d 0)" and wt: "dget (k_weight k) t = Some (?w t 0)"
    by (rule dget_or_key, unfold same, rule keys)+
  have nd: "dget (deps_left k) d = Some ?n"
    by (rule dget_or_key, unfold same, rule keys)
  define k' where "k' = snd (kahn_edge t d k)"
  have run: "kahn_edge t d k = (Inr (), k')"
    and kw: "k_weight k' = dset d (?w d 0 + ?w t 0) (k_weight k)"
    and kl: "deps_left k' = dset d (?n - 1) (deps_left k)"
    and kn: "next_points k' = next_points k @ (if ?n = 1 then [d] else [])"
    and kd: "task_done k' = (if ?n = 1 then dset d True (task_done k) else task_done k)"
    by (auto simp: k'_def kahn_edge_def wd wt nd Let_def)
  let ?left = "\<lambda>X d. {s \<in> set (revdeps_of rq d). (s, d) \<notin> X}"
  let ?seen = "\<lambda>X d. {s \<in> set (revdeps_of rq d). (s, d) \<in> X}"
  have n: "?n = int (card (?left X d))" using inv by (simp add: walked_def)
  have left: "?left X d = insert t (?left (insert (t, d) X) d)" "t \<notin> ?left (insert (t, d) X) d"
    using td new by auto
  then have card: "card (?left X d) = Suc (card (?left (insert (t, d) X) d))" by simp
  have other: "?left (insert (t, d) X) e = ?left X e" "?seen (insert (t, d) X) e = ?seen X e"
    "complete_in rq (insert (t, d) X) e = complete_in rq X e" if "e \<noteq> d" for e
    using that by (auto simp: complete_in_def)
  have compl: "complete_in rq (insert (t, d) X) d \<longleftrightarrow> ?n = 1"
  proof -
    have "complete_in rq (insert (t, d) X) d \<longleftrightarrow> ?left (insert (t, d) X) d = {}"
      by (auto simp: complete_in_def)
    also have "\<dots> \<longleftrightarrow> ?n = 1" using n card by simp
    finally show ?thesis .
  qed
  have notd: "\<not> complete_in rq X d" using td new by (auto simp: complete_in_def)
  have seen_d: "?seen (insert (t, d) X) d = insert t (?seen X d)" "t \<notin> ?seen X d" using td new by auto
  have d_not: "d \<notin> ?seen X e" for e
    using inv notd by (auto simp: walked_def)
  have w': "dget_or (k_weight k') e 0 = (if e = d then ?w d 0 + ?w t 0 else ?w e 0)" for e
    by (simp add: kw)
  have sum: "(\<Sum>s \<in> ?seen X e. dget_or (k_weight k') s 0) = (\<Sum>s \<in> ?seen X e. ?w s 0)" for e
    using d_not [of e] by (intro sum.cong) (auto simp: w')
  have "walked rq (insert (t, d) X) k'"
    unfolding walked_def
  proof (intro conjI allI ballI)
    fix e
    show "dget_or (deps_left k') e 0 = int (card (?left (insert (t, d) X) e))"
    proof (cases "e = d")
      case True
      with card n show ?thesis by (simp add: kl)
    next
      case False
      with other(1) [OF False] inv show ?thesis by (simp add: kl walked_def)
    qed
  next
    fix e assume e: "e \<in> set (dkeys rq)"
    show "dget_or (task_done k') e False \<longleftrightarrow> complete_in rq (insert (t, d) X) e"
    proof (cases "e = d")
      case True
      with compl notd walked_done [OF inv keys(1)] show ?thesis by (simp add: kd)
    next
      case False
      with other(3) [OF False] walked_done [OF inv e] show ?thesis by (simp add: kd)
    qed
    show "dget_or (k_weight k') e 0 = base_weight rq e +
        (\<Sum>s \<in> ?seen (insert (t, d) X) e. dget_or (k_weight k') s 0)"
    proof (cases "e = d")
      case True
      have "finite (?seen X d)" by simp
      then have "(\<Sum>s \<in> ?seen (insert (t, d) X) d. dget_or (k_weight k') s 0) =
          ?w t 0 + (\<Sum>s \<in> ?seen X d. ?w s 0)"
        using seen_d ne by (simp add: sum w' [of t])
      moreover have "?w d 0 = base_weight rq d + (\<Sum>s \<in> ?seen X d. ?w s 0)"
        by (rule walked_weight [OF inv keys(1)])
      ultimately show ?thesis using True w' [of d] by simp
    next
      case False
      have "?w e 0 = base_weight rq e + (\<Sum>s \<in> ?seen X e. ?w s 0)"
        by (rule walked_weight [OF inv e])
      with False show ?thesis unfolding other(2) [OF False] sum by (simp add: w')
    qed
  next
    fix p assume "p \<in> insert (t, d) X"
    then show "case p of (s, e) \<Rightarrow> complete_in rq (insert (t, d) X) s"
      using inv comp by (auto simp: walked_def complete_in_def)
  qed (use inv keys in \<open>simp_all add: walked_def kw kl insert_absorb\<close>)
  with run kn compl show ?thesis by auto
qed

definition edges_from :: "runq \<Rightarrow> string set \<Rightarrow> (string \<times> string) set" where
  "edges_from rq P = {(t, d). t \<in> P \<and> d \<in> set (depends_of rq t)}"

lemma walked_inner:
  assumes ok: "graph_ok rq" and "walked rq X k" "complete_in rq X t" "distinct ds"
    and "set ds \<subseteq> set (depends_of rq t)" "\<forall>d \<in> set ds. (t, d) \<notin> X"
  shows "\<exists>k'. foreach (kahn_edge t) ds k = (Inr (), k') \<and> walked rq (X \<union> {t} \<times> set ds) k' \<and>
    next_points k' = next_points k @ filter (complete_in rq (X \<union> {t} \<times> set ds)) ds"
  using assms(2-)
proof (induction ds arbitrary: X k)
  case (Cons d ds)
  from kahn_edge_walked [OF ok Cons.prems(1) _ _ Cons.prems(2), of d] Cons.prems
  obtain k1 where k1: "kahn_edge t d k = (Inr (), k1)" "walked rq (insert (t, d) X) k1"
    "next_points k1 = next_points k @ (if complete_in rq (insert (t, d) X) d then [d] else [])"
    by auto
  have "complete_in rq (insert (t, d) X) t" using Cons.prems(2) by (auto simp: complete_in_def)
  from Cons.IH [OF k1(2) this] Cons.prems
  obtain k2 where k2: "foreach (kahn_edge t) ds k1 = (Inr (), k2)"
    "walked rq (insert (t, d) X \<union> {t} \<times> set ds) k2"
    "next_points k2 = next_points k1 @ filter (complete_in rq (insert (t, d) X \<union> {t} \<times> set ds)) ds"
    by auto
  have X: "insert (t, d) X \<union> {t} \<times> set ds = X \<union> {t} \<times> set (d # ds)" by auto
  have "complete_in rq (X \<union> {t} \<times> set (d # ds)) d = complete_in rq (insert (t, d) X) d"
    using Cons.prems(3) by (auto simp: complete_in_def)
  with k1 k2 show ?case unfolding X by auto
qed (use ok in simp)

lemma complete_keys_edges:
  "graph_ok rq \<Longrightarrow> complete_in rq (edges_from rq P) d \<longleftrightarrow> set (revdeps_of rq d) \<subseteq> P"
  by (auto simp: complete_in_def edges_from_def graph_ok_def)

text \<open>One round from the state in which exactly the tasks of \<open>P\<close> have been dealt with.\<close>

lemma walked_round:
  assumes ok: "graph_ok rq" and "walked rq (edges_from rq P) k" "distinct es" "set es \<inter> P = {}"
    and "set es \<subseteq> set (dkeys rq)" "\<forall>t \<in> set es. set (revdeps_of rq t) \<subseteq> P"
  shows "\<exists>k'. foreach (kahn_task rq) es k = (Inr (), k') \<and> walked rq (edges_from rq (P \<union> set es)) k' \<and>
    (distinct (next_points k) \<and> (\<forall>d \<in> set (next_points k). set (revdeps_of rq d) \<subseteq> P) \<longrightarrow>
       distinct (next_points k')) \<and>
    set (next_points k') = set (next_points k) \<union>
      {d \<in> set (dkeys rq). set (revdeps_of rq d) \<subseteq> P \<union> set es \<and> \<not> set (revdeps_of rq d) \<subseteq> P}"
  using assms(2-)
proof (induction es arbitrary: P k)
  case (Cons t es)
  have comp: "complete_in rq (edges_from rq P) t"
    using Cons.prems(5) complete_keys_edges [OF ok, of P t] by simp
  have new: "\<forall>d \<in> set (depends_of rq t). (t, d) \<notin> edges_from rq P"
    using Cons.prems(3) by (auto simp: edges_from_def)
  have "distinct (depends_of rq t)" using ok by (simp add: graph_ok_def)
  from walked_inner [OF ok Cons.prems(1) comp this _ new]
  obtain k1 where k1: "foreach (kahn_edge t) (depends_of rq t) k = (Inr (), k1)"
    "walked rq (edges_from rq P \<union> {t} \<times> set (depends_of rq t)) k1"
    "next_points k1 = next_points k @
       filter (complete_in rq (edges_from rq P \<union> {t} \<times> set (depends_of rq t))) (depends_of rq t)"
    by auto
  have X: "edges_from rq P \<union> {t} \<times> set (depends_of rq t) = edges_from rq (insert t P)"
    by (auto simp: edges_from_def)
  have task: "kahn_task rq t k = (Inr (), k1)"
    using k1(1) Cons.prems(4) dget_in_dkeys [of t rq] by (auto simp: kahn_task_def depends_of_def)
  have np: "next_points k1 = next_points k @
      filter (\<lambda>d. set (revdeps_of rq d) \<subseteq> insert t P) (depends_of rq t)"
    using k1(3) complete_keys_edges [OF ok] unfolding X by (simp cong: filter_cong)
  have "set es \<inter> insert t P = {}" using Cons.prems(2,3) by auto
  moreover have "\<forall>t' \<in> set es. set (revdeps_of rq t') \<subseteq> insert t P" using Cons.prems(5) by auto
  ultimately have "\<exists>k'. foreach (kahn_task rq) es k1 = (Inr (), k') \<and>
    walked rq (edges_from rq (insert t P \<union> set es)) k' \<and>
    (distinct (next_points k1) \<and> (\<forall>d \<in> set (next_points k1). set (revdeps_of rq d) \<subseteq> insert t P) \<longrightarrow>
       distinct (next_points k')) \<and>
    set (next_points k') = set (next_points k1) \<union> {d \<in> set (dkeys rq).
       set (revdeps_of rq d) \<subseteq> insert t P \<union> set es \<and> \<not> set (revdeps_of rq d) \<subseteq> insert t P}"
    using Cons.prems(2,4) by (intro Cons.IH [OF k1(2) [unfolded X]]) auto
  then
  obtain k2 where k2: "foreach (kahn_task rq) es k1 = (Inr (), k2)"
    "walked rq (edges_from rq (insert t P \<union> set es)) k2"
    "distinct (next_points k1) \<and> (\<forall>d \<in> set (next_points k1). set (revdeps_of rq d) \<subseteq> insert t P) \<longrightarrow>
       distinct (next_points k2)"
    "set (next_points k2) = set (next_points k1) \<union> {d \<in> set (dkeys rq).
       set (revdeps_of rq d) \<subseteq> insert t P \<union> set es \<and> \<not> set (revdeps_of rq d) \<subseteq> insert t P}"
    by blast
  have t_dep: "d \<in> set (depends_of rq t) \<longleftrightarrow> t \<in> set (revdeps_of rq d)" for d
    using ok by (simp add: graph_ok_def)
  have tP: "t \<notin> P" using Cons.prems(3) by simp
  have new1: "d \<in> set (filter (\<lambda>d. set (revdeps_of rq d) \<subseteq> insert t P) (depends_of rq t)) \<longleftrightarrow>
      d \<in> set (dkeys rq) \<and> set (revdeps_of rq d) \<subseteq> insert t P \<and> \<not> set (revdeps_of rq d) \<subseteq> P" for d
  proof -
    have "d \<in> set (dkeys rq)" if "d \<in> set (depends_of rq t)"
      using ok that unfolding graph_ok_def by blast
    then show ?thesis using t_dep [of d] tP by auto
  qed
  have "distinct (next_points k2)"
    if "distinct (next_points k) \<and> (\<forall>d \<in> set (next_points k). set (revdeps_of rq d) \<subseteq> P)"
  proof -
    have "distinct (depends_of rq t)" using ok by (simp add: graph_ok_def)
    moreover have "t \<notin> set (revdeps_of rq d)" if "d \<in> set (next_points k)" for d
      using that \<open>distinct (next_points k) \<and> _\<close> tP by blast
    ultimately have "distinct (next_points k1)"
      using that unfolding np by (auto simp: t_dep)
    moreover have "\<forall>d \<in> set (next_points k1). set (revdeps_of rq d) \<subseteq> insert t P"
      using that unfolding np by auto
    ultimately show ?thesis using k2(3) by blast
  qed
  moreover have "set (next_points k2) = set (next_points k) \<union> {d \<in> set (dkeys rq).
      set (revdeps_of rq d) \<subseteq> P \<union> set (t # es) \<and> \<not> set (revdeps_of rq d) \<subseteq> P}"
    unfolding k2(4) np using new1 by auto
  ultimately show ?case using task k2(1,2) by auto
qed (use ok in auto)

text \<open>A task is buildable when everything that needs it, transitively, can be walked first.\<close>

inductive buildable :: "runq \<Rightarrow> string \<Rightarrow> bool" for rq where
  buildable_step: "\<forall>s \<in> set (revdeps_of rq t). buildable rq s \<Longrightarrow> buildable rq t"

lemma kahn_loop_walked:
  assumes "graph_ok rq" "walked rq (edges_from rq P) k"
    and "distinct es" "set es \<inter> P = {}" "P \<subseteq> set (dkeys rq)"
    and "P \<union> set es = {t \<in> set (dkeys rq). set (revdeps_of rq t) \<subseteq> P}"
    and "\<forall>t \<in> P \<union> set es. buildable rq t"
  shows "\<exists>k'. kahn_loop rq es k = (Inr (), k') \<and>
    walked rq (edges_from rq {t \<in> set (dkeys rq). buildable rq t}) k'"
  using assms
proof (induction rq es k arbitrary: P rule: kahn_loop.induct)
  case (1 rq es k)
  let ?Q = "P \<union> set es"
  have w0: "walked rq (edges_from rq P) (k\<lparr>next_points := []\<rparr>)"
    using "1.prems"(2) by (simp add: walked_def)
  have es: "set es \<subseteq> set (dkeys rq)" "\<forall>t \<in> set es. set (revdeps_of rq t) \<subseteq> P"
    using "1.prems"(6) by auto
  from walked_round [OF "1.prems"(1) w0 "1.prems"(3,4) es]
  obtain k1 where k1: "kahn_round rq es k = (Inr (), k1)" "walked rq (edges_from rq ?Q) k1"
    "distinct (next_points k1)"
    "set (next_points k1) =
       {d \<in> set (dkeys rq). set (revdeps_of rq d) \<subseteq> ?Q \<and> \<not> set (revdeps_of rq d) \<subseteq> P}"
    by (auto simp: kahn_round_def)
  have Q: "?Q \<union> set (next_points k1) = {t \<in> set (dkeys rq). set (revdeps_of rq t) \<subseteq> ?Q}"
    using k1(4) "1.prems"(6) by blast
  have np: "set (next_points k1) \<inter> ?Q = {}" using k1(4) "1.prems"(6) by blast
  show ?case
  proof (cases "next_points k1 = []")
    case True
    have "t \<in> ?Q" if "buildable rq t" "t \<in> set (dkeys rq)" for t
      using that
    proof (induction rule: buildable.induct)
      case (buildable_step t)
      have "set (revdeps_of rq t) \<subseteq> set (dkeys rq)" using "1.prems"(1) by (simp add: graph_ok_def)
      with buildable_step have "set (revdeps_of rq t) \<subseteq> ?Q" by blast
      with Q True buildable_step(2) show ?case by auto
    qed
    then have "?Q = {t \<in> set (dkeys rq). buildable rq t}"
      using "1.prems"(5,7) es(1) by blast
    with k1 True show ?thesis by (simp add: kahn_loop.simps [of rq es])
  next
    case False
    have "\<forall>t \<in> ?Q \<union> set (next_points k1). buildable rq t"
      using Q "1.prems"(7) by (metis (no_types, lifting) Un_iff buildable_step mem_Collect_eq subsetD)
    then have "\<exists>k'. kahn_loop rq (next_points k1) k1 = (Inr (), k') \<and>
        walked rq (edges_from rq {t \<in> set (dkeys rq). buildable rq t}) k'"
      using "1.prems"(5) es(1) by (intro "1.IH" [OF k1(1) [symmetric] refl False "1.prems"(1) k1(2,3) np _ Q]) auto
    with k1(1) False show ?thesis by (simp add: kahn_loop.simps [of rq es])
  qed
qed

lemma buildable_acyclic:
  assumes ok: "graph_ok rq"
  shows "(\<forall>t \<in> set (dkeys rq). buildable rq t) \<longleftrightarrow> acyclic (dep_rel rq)"
proof
  have preds: "(s, t) \<in> dep_rel rq \<longleftrightarrow> s \<in> set (revdeps_of rq t)" for s t
    using ok by (simp add: dep_rel_def graph_ok_def)
  show "acyclic (dep_rel rq)" if all: "\<forall>t \<in> set (dkeys rq). buildable rq t"
  proof -
    have "t \<in> Wellfounded.acc (dep_rel rq)" if "buildable rq t" for t
      using that by (induction) (rule accI, simp add: preds)
    moreover have "buildable rq t" if "t \<notin> set (dkeys rq)" for t
      by (rule buildable_step) (simp add: revdeps_of_None [OF that])
    ultimately show ?thesis using all by (intro wf_acyclic acc_wfI) blast
  qed
  show "\<forall>t \<in> set (dkeys rq). buildable rq t" if ac: "acyclic (dep_rel rq)"
  proof -
    have "s \<in> set (dkeys rq)" "t \<in> set (dkeys rq)" if "(s, t) \<in> dep_rel rq" for s t
      using that preds [of s t] ok unfolding graph_ok_def dep_rel_def by blast+
    then have "dep_rel rq \<subseteq> set (dkeys rq) \<times> set (dkeys rq)" by auto
    then have "finite (dep_rel rq)" by (rule finite_subset) simp
    then have "wf (dep_rel rq)" using ac by (rule finite_acyclic_wf)
    then have "buildable rq t" for t
      by (induction t rule: wf_induct_rule) (auto simp: preds intro: buildable_step)
    then show ?thesis by blast
  qed
qed

lemma dget_or_foldl_dset:
  "dget_or (foldl (\<lambda>w t. dset t v w) d es) x u = (if x \<in> set es then v else dget_or d x u)"
  by (induction es arbitrary: d) auto

lemma dkeys_foldl_dset: "set (dkeys (foldl (\<lambda>w t. dset t v w) d es)) = set (dkeys d) \<union> set es"
  by (induction es arbitrary: d) (auto simp del: list.set_map)

lemma dget_map_snd: "dget (map (\<lambda>(t, e). (t, f e)) d) x = map_option f (dget d x)"
  by (induction d) auto

lemma dkeys_map_snd [simp]: "dkeys (map (\<lambda>(t, e). (t, f e)) d) = dkeys d"
  by (induction d) auto

lemma walked_init:
  assumes ok: "graph_ok rq" and es: "es = filter (\<lambda>t. revdeps_of rq t = []) (dkeys rq)"
  shows "walked rq {} (kahn_init rq es)"
proof -
  have keys: "set (dkeys rq) \<union> set es = set (dkeys rq)" using es by auto
  have rd: "dget_or (map (\<lambda>(t, e). (t, f e)) rq) d u = (case dget rq d of None \<Rightarrow> u | Some e \<Rightarrow> f e)"
    for f d and u :: 'x
    by (simp add: dget_or_def dget_map_snd split: option.split)
  have len: "int (length (revdeps_of rq d)) = int (card (set (revdeps_of rq d)))" for d
    using ok by (simp add: graph_ok_def distinct_card)
  have left: "dget_or (deps_left (kahn_init rq es)) d 0 = int (card (set (revdeps_of rq d)))" for d
  proof (cases "dget rq d")
    case None
    then have "revdeps_of rq d = []" by (simp add: revdeps_of_def)
    with None show ?thesis by (simp add: kahn_init_def rd)
  next
    case (Some e)
    then have "revdeps_of rq d = revdeps e" by (simp add: revdeps_of_def)
    with Some len [of d] show ?thesis by (simp add: kahn_init_def rd)
  qed
  have es_iff: "d \<in> set es \<longleftrightarrow> revdeps_of rq d = []" if "d \<in> set (dkeys rq)" for d
    using that es by simp
  have compl: "complete_in rq {} d \<longleftrightarrow> revdeps_of rq d = []" for d
    by (auto simp: complete_in_def)
  have key: "\<exists>e. dget rq d = Some e" if "d \<in> set (dkeys rq)" for d
    using that dget_in_dkeys by metis
  show ?thesis
    unfolding walked_def
  proof (intro conjI ballI allI)
    fix d assume d: "d \<in> set (dkeys rq)"
    then obtain e where e: "dget rq d = Some e" using key by blast
    show "dget_or (task_done (kahn_init rq es)) d False = complete_in rq {} d"
      using es_iff [OF d] e by (simp add: kahn_init_def dget_or_foldl_dset rd compl)
    show "dget_or (k_weight (kahn_init rq es)) d 0 = base_weight rq d +
        (\<Sum>s \<in> {s \<in> set (revdeps_of rq d). (s, d) \<in> {}}. dget_or (k_weight (kahn_init rq es)) s 0)"
      using es_iff [OF d] e by (simp add: kahn_init_def dget_or_foldl_dset rd base_weight_def)
  next
    show "set (dkeys (k_weight (kahn_init rq es))) = set (dkeys rq)"
      by (simp only: kahn_init_def kahn.simps dkeys_foldl_dset dkeys_map_snd keys)
    show "set (dkeys (deps_left (kahn_init rq es))) = set (dkeys rq)"
      by (simp only: kahn_init_def kahn.simps dkeys_map_snd)
  qed (simp_all add: left)
qed

text \<open>The weights that the dependencies determine.\<close>

definition weights_ok :: "runq \<Rightarrow> (string \<times> int) list \<Rightarrow> bool" where
  "weights_ok rq w \<longleftrightarrow> (\<forall>t \<in> set (dkeys rq).
     dget_or w t 0 =
       (if revdeps_of rq t = [] then 10 else 1 + (\<Sum>s\<leftarrow>revdeps_of rq t. dget_or w s 0)))"

lemma kahn_problem_tasks:
  assumes ok: "graph_ok rq" and es: "es = filter (\<lambda>t. revdeps_of rq t = []) (dkeys rq)"
  obtains k where "kahn_loop rq es (kahn_init rq es) = (Inr (), k)"
    "walked rq (edges_from rq {t \<in> set (dkeys rq). buildable rq t}) k"
    "\<And>t. t \<in> set (problem_tasks rq k) \<longleftrightarrow> t \<in> set (dkeys rq) \<and> \<not> buildable rq t"
proof -
  have "edges_from rq {} = {}" by (simp add: edges_from_def)
  then have w0: "walked rq (edges_from rq {}) (kahn_init rq es)" using walked_init [OF ok es] by simp
  have d: "distinct es" using ok by (simp add: es graph_ok_def wf_dict_def)
  have e1: "{} \<union> set es = {t \<in> set (dkeys rq). set (revdeps_of rq t) \<subseteq> {}}" by (auto simp: es)
  have e2: "\<forall>t \<in> {} \<union> set es. buildable rq t" by (auto simp: es intro: buildable_step)
  from kahn_loop_walked [OF ok w0 d _ _ e1 e2]
  obtain k where k: "kahn_loop rq es (kahn_init rq es) = (Inr (), k)"
    "walked rq (edges_from rq {t \<in> set (dkeys rq). buildable rq t}) k" by auto
  let ?B = "{t \<in> set (dkeys rq). buildable rq t}"
  have compl: "complete_in rq (edges_from rq ?B) t \<longleftrightarrow> buildable rq t" for t
  proof -
    have "set (revdeps_of rq t) \<subseteq> set (dkeys rq)" using ok by (simp add: graph_ok_def)
    then show ?thesis
      unfolding complete_keys_edges [OF ok] using buildable.simps [of rq t] by blast
  qed
  have left: "dget_or (deps_left k) t 0 = 0 \<longleftrightarrow> buildable rq t" for t
  proof -
    have "dget_or (deps_left k) t 0 = 0 \<longleftrightarrow> complete_in rq (edges_from rq ?B) t"
      using k(2) by (auto simp: walked_def complete_in_def)
    then show ?thesis unfolding compl .
  qed
  have prob: "t \<in> set (problem_tasks rq k) \<longleftrightarrow> t \<in> set (dkeys rq) \<and> \<not> buildable rq t" for t
    using walked_done [OF k(2), of t, unfolded compl] left [of t] by (auto simp: problem_tasks_def)
  show ?thesis by (rule that [OF k prob])
qed

lemma problem_tasks_unbuildable:
  assumes "graph_ok rq" and "es = filter (\<lambda>t. revdeps_of rq t = []) (dkeys rq)"
    and "kahn_loop rq es (kahn_init rq es) = (r, k)"
  shows "t \<in> set (problem_tasks rq k) \<longleftrightarrow> t \<in> set (dkeys rq) \<and> \<not> buildable rq t"
  by (rule kahn_problem_tasks [OF assms(1,2)]) (use assms(3) in simp)

lemma calculate_task_weights_result:
  assumes "graph_ok rq" and "es = filter (\<lambda>t. revdeps_of rq t = []) (dkeys rq)"
  obtains k where "walked rq (edges_from rq {t \<in> set (dkeys rq). buildable rq t}) k"
    "calculate_task_weights rq es =
       (if \<forall>t \<in> set (dkeys rq). buildable rq t then Inr (k_weight k) else Inl Fatal, set_weights k rq)"
proof (rule kahn_problem_tasks [OF assms])
  fix k assume k: "kahn_loop rq es (kahn_init rq es) = (Inr (), k)"
    "walked rq (edges_from rq {t \<in> set (dkeys rq). buildable rq t}) k"
    "\<And>t. t \<in> set (problem_tasks rq k) \<longleftrightarrow> t \<in> set (dkeys rq) \<and> \<not> buildable rq t"
  have "problem_tasks rq k = [] \<longleftrightarrow> (\<forall>t \<in> set (dkeys rq). buildable rq t)"
    using k(3) by (metis empty_iff list.set(1) neq_Nil_conv list.set_intros(1))
  then have "calculate_task_weights rq es =
       (if \<forall>t \<in> set (dkeys rq). buildable rq t then Inr (k_weight k) else Inl Fatal, set_weights k rq)"
    using k(1) by (simp add: calculate_task_weights_def)
  with k(2) that show ?thesis by blast
qed

lemma walked_weights_ok:
  assumes ok: "graph_ok rq" and w: "walked rq (edges_from rq {t \<in> set (dkeys rq). buildable rq t}) k"
    and all: "\<forall>t \<in> set (dkeys rq). buildable rq t"
  shows "weights_ok rq (k_weight k)"
  unfolding weights_ok_def
proof
  fix t assume t: "t \<in> set (dkeys rq)"
  have rk: "set (revdeps_of rq t) \<subseteq> set (dkeys rq)" and rd: "distinct (revdeps_of rq t)"
    and dep: "s \<in> set (revdeps_of rq t) \<longleftrightarrow> t \<in> set (depends_of rq s)" for s
    using ok by (simp_all add: graph_ok_def)
  have "{s \<in> set (revdeps_of rq t). (s, t) \<in> edges_from rq {t \<in> set (dkeys rq). buildable rq t}} =
      set (revdeps_of rq t)"
    using rk all dep unfolding edges_from_def by blast
  moreover have "(\<Sum>s \<in> set (revdeps_of rq t). dget_or (k_weight k) s 0) =
      (\<Sum>s\<leftarrow>revdeps_of rq t. dget_or (k_weight k) s 0)"
    using rd by (simp add: sum_list_distinct_conv_sum_set)
  ultimately show "dget_or (k_weight k) t 0 = (if revdeps_of rq t = [] then 10
      else 1 + (\<Sum>s\<leftarrow>revdeps_of rq t. dget_or (k_weight k) s 0))"
    using walked_weight [OF w t] by (simp add: base_weight_def)
qed

lemma calculate_task_weights_kahn:
  assumes "graph_ok rq" and "es = filter (\<lambda>t. revdeps_of rq t = []) (dkeys rq)"
  shows "if acyclic (dep_rel rq)
    then \<exists>w. calculate_task_weights rq es =
           (Inr w, map (\<lambda>(t, e). (t, e\<lparr>weight := dget_or w t 0\<rparr>)) rq) \<and> weights_ok rq w
    else fst (calculate_task_weights rq es) = Inl Fatal"
proof -
  obtain k where k: "walked rq (edges_from rq {t \<in> set (dkeys rq). buildable rq t}) k"
    "calculate_task_weights rq es =
       (if \<forall>t \<in> set (dkeys rq). buildable rq t then Inr (k_weight k) else Inl Fatal, set_weights k rq)"
    by (rule calculate_task_weights_result [OF assms])
  show ?thesis
    using k walked_weights_ok [OF assms(1) k(1)] buildable_acyclic [OF assms(1)]
    by (auto simp: set_weights_def)
qed

section \<open>From the dependencies to the weights\<close>

text \<open>The steps of \<open>prepare\<close> from the reverse dependencies to the weights.\<close>

definition weigh_queue :: "runq \<Rightarrow> (string \<times> int) list result \<times> runq" where
  "weigh_queue rq =
     seq_st (add_revdeps rq) (\<lambda>rq1.
       case find_endpoints rq1 (dkeys rq1) of
         Inl e \<Rightarrow> (Inl e, rq1)
       | Inr es \<Rightarrow> calculate_task_weights rq1 es)"

definition same_but_revdeps :: "runq \<Rightarrow> runq \<Rightarrow> bool" where
  "same_but_revdeps a b \<longleftrightarrow> dkeys b = dkeys a \<and> depends_of b = depends_of a"

lemma add_revdep_step:
  assumes "dep \<in> set (dkeys q)"
  shows "\<exists>q'. add_revdep tid dep q = (Inr (), q') \<and> same_but_revdeps q q' \<and>
    (\<forall>t. revdeps_of q' t = (if t = dep then append_new tid (revdeps_of q t) else revdeps_of q t))"
proof -
  obtain e where e: "dget q dep = Some e" using assms dget_in_dkeys by metis
  define q' where "q' = dset dep (e\<lparr>revdeps := append_new tid (revdeps e)\<rparr>) q"
  have "depends_of q' = depends_of q"
    using e by (auto simp: q'_def depends_of_def fun_eq_iff)
  moreover have "dkeys q' = dkeys q" using assms by (simp add: q'_def dkeys_dset_same)
  ultimately show ?thesis
    using e by (auto simp: add_revdep_def q'_def [symmetric] same_but_revdeps_def)
      (auto simp: q'_def revdeps_of_def)
qed

lemma append_new_same [simp]: "append_new x (append_new x xs) = append_new x xs"
  by (simp add: append_new_def)

lemma add_revdep_loop:
  assumes "set ds \<subseteq> set (dkeys q)"
  shows "\<exists>q'. foreach (add_revdep tid) ds q = (Inr (), q') \<and> same_but_revdeps q q' \<and>
    (\<forall>t. revdeps_of q' t = (if t \<in> set ds then append_new tid (revdeps_of q t) else revdeps_of q t))"
  using assms
proof (induction ds arbitrary: q)
  case (Cons d ds)
  then have "d \<in> set (dkeys q)" by simp
  from add_revdep_step [OF this, of tid]
  obtain q1 where q1: "add_revdep tid d q = (Inr (), q1)" "same_but_revdeps q q1"
    "\<forall>t. revdeps_of q1 t = (if t = d then append_new tid (revdeps_of q t) else revdeps_of q t)" by blast
  have "set ds \<subseteq> set (dkeys q1)" using Cons.prems q1(2) by (simp add: same_but_revdeps_def)
  from Cons.IH [OF this]
  obtain q2 where "foreach (add_revdep tid) ds q1 = (Inr (), q2)" "same_but_revdeps q1 q2"
    "\<forall>t. revdeps_of q2 t = (if t \<in> set ds then append_new tid (revdeps_of q1 t) else revdeps_of q1 t)"
    by blast
  with q1 show ?case by (auto simp: same_but_revdeps_def)
qed (simp add: same_but_revdeps_def)

lemma add_revdeps_loop:
  assumes "\<forall>t. set (depends_of q t) \<subseteq> set (dkeys q)"
  shows "\<exists>q'. foreach (\<lambda>tid q. foreach (add_revdep tid) (depends_of q tid) q) ts q = (Inr (), q') \<and>
    same_but_revdeps q q' \<and>
    (\<forall>t. revdeps_of q' t =
       foldl (\<lambda>xs s. append_new s xs) (revdeps_of q t) (filter (\<lambda>s. t \<in> set (depends_of q s)) ts))"
  using assms
proof (induction ts arbitrary: q)
  case (Cons s ts)
  from add_revdep_loop [of "depends_of q s" q s] Cons.prems
  obtain q1 where q1: "foreach (add_revdep s) (depends_of q s) q = (Inr (), q1)" "same_but_revdeps q q1"
    "\<forall>t. revdeps_of q1 t =
       (if t \<in> set (depends_of q s) then append_new s (revdeps_of q t) else revdeps_of q t)" by blast
  have "\<forall>t. set (depends_of q1 t) \<subseteq> set (dkeys q1)"
    using Cons.prems q1(2) unfolding same_but_revdeps_def by metis
  from Cons.IH [OF this]
  obtain q2 where q2: "foreach (\<lambda>tid q. foreach (add_revdep tid) (depends_of q tid) q) ts q1 = (Inr (), q2)"
    "same_but_revdeps q1 q2"
    "\<forall>t. revdeps_of q2 t =
       foldl (\<lambda>xs s. append_new s xs) (revdeps_of q1 t) (filter (\<lambda>s. t \<in> set (depends_of q1 s)) ts)"
    by blast
  with q1 show ?case by (auto simp: same_but_revdeps_def)
qed (simp add: same_but_revdeps_def)

lemma foldl_append_new:
  "distinct (xs @ ys) \<Longrightarrow> foldl (\<lambda>xs s. append_new s xs) xs ys = xs @ ys"
  by (induction ys arbitrary: xs) (auto simp: append_new_def)

text \<open>A queue as it is before this step: every dependency is in it, no reverse ones are set.\<close>

definition queue_ok :: "runq \<Rightarrow> bool" where
  "queue_ok rq \<longleftrightarrow> wf_dict rq \<and>
     (\<forall>t. distinct (depends_of rq t) \<and> set (depends_of rq t) \<subseteq> set (dkeys rq) \<and> revdeps_of rq t = [])"

lemma add_revdeps_graph:
  assumes "queue_ok rq"
  obtains rq1 where "add_revdeps rq = (Inr (), rq1)" "graph_ok rq1" "dep_rel rq1 = dep_rel rq"
    "same_but_revdeps rq rq1"
proof -
  have "\<forall>t. set (depends_of rq t) \<subseteq> set (dkeys rq)" using assms by (simp add: queue_ok_def)
  from add_revdeps_loop [OF this, of "dkeys rq"]
  obtain rq1 where r: "add_revdeps rq = (Inr (), rq1)" "same_but_revdeps rq rq1"
    "\<forall>t. revdeps_of rq1 t = foldl (\<lambda>xs s. append_new s xs) (revdeps_of rq t)
       (filter (\<lambda>s. t \<in> set (depends_of rq s)) (dkeys rq))"
    by (auto simp: add_revdeps_def)
  have rev: "revdeps_of rq1 t = filter (\<lambda>s. t \<in> set (depends_of rq s)) (dkeys rq)" for t
    using r(3) assms foldl_append_new [of "[]" "filter (\<lambda>s. t \<in> set (depends_of rq s)) (dkeys rq)"]
    by (simp add: queue_ok_def wf_dict_def)
  have "s \<in> set (dkeys rq)" if "t \<in> set (depends_of rq s)" for s t
    using that dget_None_dkeys [of rq s] by (auto simp: depends_of_def split: option.splits)
  then have "s \<in> set (revdeps_of rq1 t) \<longleftrightarrow> t \<in> set (depends_of rq s)" for s t
    unfolding rev by auto
  moreover have "set (revdeps_of rq1 t) \<subseteq> set (dkeys rq) \<and> distinct (revdeps_of rq1 t)" for t
    using assms unfolding rev by (auto simp: queue_ok_def wf_dict_def)
  ultimately have "graph_ok rq1"
    using r(2) assms by (simp add: graph_ok_def same_but_revdeps_def queue_ok_def wf_dict_def)
  with that r show ?thesis by (simp add: dep_rel_def same_but_revdeps_def)
qed

lemma find_endpoints_result:
  assumes "graph_ok rq"
  shows "find_endpoints rq ts =
    (if \<exists>t \<in> set ts. \<exists>s. (s, t) \<in> dep_rel rq \<and> (t, s) \<in> dep_rel rq then Inl Fatal
     else Inr (filter (\<lambda>t. revdeps_of rq t = []) ts))"
proof (induction ts)
  case (Cons t ts)
  have "list_ex (\<lambda>dep. dep \<in> set (depends_of rq t)) (revdeps_of rq t) \<longleftrightarrow>
      (\<exists>s. (s, t) \<in> dep_rel rq \<and> (t, s) \<in> dep_rel rq)"
    using assms by (auto simp: dep_rel_def list_ex_iff graph_ok_def)
  with Cons show ?case by auto
qed simp

lemma weigh_queue_result:
  assumes "queue_ok rq"
  shows "if acyclic (dep_rel rq)
    then \<exists>w rq1. weigh_queue rq = (Inr w, map (\<lambda>(t, e). (t, e\<lparr>weight := dget_or w t 0\<rparr>)) rq1) \<and>
           graph_ok rq1 \<and> dkeys rq1 = dkeys rq \<and> depends_of rq1 = depends_of rq \<and> weights_ok rq1 w
    else fst (weigh_queue rq) = Inl Fatal"
proof -
  obtain rq1 where r: "add_revdeps rq = (Inr (), rq1)" "graph_ok rq1" "dep_rel rq1 = dep_rel rq"
    "same_but_revdeps rq rq1"
    by (rule add_revdeps_graph [OF assms])
  note kahn = calculate_task_weights_kahn [OF r(2) refl]
  show ?thesis
  proof (cases "\<exists>t \<in> set (dkeys rq1). \<exists>s. (s, t) \<in> dep_rel rq1 \<and> (t, s) \<in> dep_rel rq1")
    case True
    then have "\<not> acyclic (dep_rel rq)"
      unfolding acyclic_def r(3) by (meson r_into_trancl trancl_trans)
    with True r show ?thesis by (simp add: weigh_queue_def find_endpoints_result [OF r(2)])
  next
    case False
    then have "find_endpoints rq1 (dkeys rq1) = Inr (filter (\<lambda>t. revdeps_of rq1 t = []) (dkeys rq1))"
      by (simp only: find_endpoints_result [OF r(2)] if_False)
    then have run: "weigh_queue rq = calculate_task_weights rq1 (filter (\<lambda>t. revdeps_of rq1 t = []) (dkeys rq1))"
      using r(1) by (simp add: weigh_queue_def)
    have keys: "dkeys rq1 = dkeys rq" "depends_of rq1 = depends_of rq"
      using r(4) by (simp_all add: same_but_revdeps_def)
    show ?thesis
    proof (cases "acyclic (dep_rel rq)")
      case True
      then obtain w where w: "calculate_task_weights rq1 (filter (\<lambda>t. revdeps_of rq1 t = []) (dkeys rq1)) =
          (Inr w, map (\<lambda>(t, e). (t, e\<lparr>weight := dget_or w t 0\<rparr>)) rq1)" "weights_ok rq1 w"
        using kahn unfolding r(3) by (simp only: if_True) blast
      have "weigh_queue rq = (Inr w, map (\<lambda>(t, e). (t, e\<lparr>weight := dget_or w t 0\<rparr>)) rq1)"
        unfolding run by (rule w(1))
      with True w(2) keys r(2) show ?thesis unfolding if_P [OF True] by blast
    next
      case False
      with kahn show ?thesis unfolding r(3) run by (simp only: if_False)
    qed
  qed
qed

text \<open>
  C10: for a queue whose dependencies are all in it, computing the weights ends the program
  exactly when the dependencies have a cycle, of any length; otherwise every task gets the weight
  that the dependencies determine: ten when nothing needs it, and else one more than the sum of
  the weights of the tasks that need it.
\<close>

theorem weigh_queue_cyclic:
  assumes "queue_ok rq"
  shows "if acyclic (dep_rel rq)
    then \<exists>w rq1. weigh_queue rq = (Inr w, map (\<lambda>(t, e). (t, e\<lparr>weight := dget_or w t 0\<rparr>)) rq1) \<and>
           graph_ok rq1 \<and> dkeys rq1 = dkeys rq \<and> depends_of rq1 = depends_of rq \<and> weights_ok rq1 w
    else fst (weigh_queue rq) = Inl Fatal"
  using assms by (rule weigh_queue_result)

text \<open>A chain of two tasks, and a cycle of three.\<close>

definition entry_on :: "string list \<Rightarrow> run_entry" where
  "entry_on ds = new_entry\<lparr>depends := ds\<rparr>"

definition chain2 :: runq where
  "chain2 = [(''a:do_compile'', entry_on [''a:do_fetch'']), (''a:do_fetch'', entry_on [])]"

definition cycle3 :: runq where
  "cycle3 = [(''a:x'', entry_on [''b:x'']), (''b:x'', entry_on [''c:x'']), (''c:x'', entry_on [''a:x''])]"

lemma chain2_ok: "queue_ok chain2" and cycle3_ok: "queue_ok cycle3"
  by (auto simp: queue_ok_def chain2_def cycle3_def entry_on_def new_entry_def wf_dict_def
      depends_of_def revdeps_of_def)

theorem weigh_queue_cyclic_witness:
  "(\<exists>w rq1. fst (weigh_queue chain2) = Inr w \<and> weights_ok rq1 w) \<and> fst (weigh_queue cycle3) = Inl Fatal"
proof
  have d2: "dep_rel chain2 = {(''a:do_compile'', ''a:do_fetch'')}"
    by (auto simp: dep_rel_def depends_of_def chain2_def entry_on_def new_entry_def split: if_splits)
  have "acyclic (dep_rel chain2)" unfolding d2 by (rule acyclicI_order [of _ length]) simp
  with weigh_queue_cyclic [OF chain2_ok] show "\<exists>w rq1. fst (weigh_queue chain2) = Inr w \<and> weights_ok rq1 w"
    by auto
  have "(''a:x'', ''b:x'') \<in> dep_rel cycle3" "(''b:x'', ''c:x'') \<in> dep_rel cycle3"
    "(''c:x'', ''a:x'') \<in> dep_rel cycle3"
    by (simp_all add: dep_rel_def depends_of_def cycle3_def entry_on_def new_entry_def)
  then have "(''a:x'', ''a:x'') \<in> (dep_rel cycle3)\<^sup>+" by (meson r_into_trancl trancl_trans)
  then have "\<not> acyclic (dep_rel cycle3)" by (auto simp: acyclic_def)
  with weigh_queue_cyclic [OF cycle3_ok] show "fst (weigh_queue cycle3) = Inl Fatal" by simp
qed

end
