(* ===== verification/Schedulers.thy ===== *)
theory Schedulers
  imports Weights Providers
begin

text \<open>
  The schedulers of \<open>poky/bitbake/lib/bb/runqueue.py\<close>: \<open>RunQueueScheduler\<close> (\<open>basic\<close>),
  \<open>RunQueueSchedulerSpeed\<close> and \<open>RunQueueSchedulerCompletion\<close>.  \<open>scheduler\<close> is the object, \<open>rq_view\<close>
  what it reads of the run queue.  Whether the pressure or the load is too high comes from files
  under \<open>/proc\<close> and from the system load, so \<open>exceeds_max_pressure\<close> is a parameter; log messages are not
  modelled.

  A priority map by_fn the tasks, most important first.  The locale \<open>priority_map\<close> says what
  \<open>next_buildable_task\<close> needs of it, and is interpreted on the maps that the two derived
  schedulers build; the map of the basic scheduler is not one.
\<close>

section \<open>The objects\<close>

text \<open>The basic scheduler puts the view of the dict's keys, one object, into its list.\<close>

datatype prio_item = PKeys "string list" | PTid string

record scheduler =
  prio_map :: "prio_item list"
  buildable_set :: "string list"
  skip_maxthread :: "(string \<times> string option) list"
  stamps :: "(string \<times> string) list"
  rev_prio_map :: "(string \<times> nat) list"

record rq_view =
  runq_running :: "string list"
  runq_complete :: "string list"
  holdoff_tasks :: "string list"
  tasks_covered :: "string list"
  tasks_notcovered :: "string list"
  stats_active :: int
  build_stamps :: "(string \<times> string) list"

definition basic_init :: "(string \<Rightarrow> string) \<Rightarrow> string list \<Rightarrow> runq \<Rightarrow> scheduler" where
  "basic_init stampfile runq_buildable rq =
     \<lparr>prio_map = [PKeys (dkeys rq)],
      buildable_set = filter (\<lambda>t. t \<in> set runq_buildable) (dkeys rq),
      skip_maxthread = [], stamps = map (\<lambda>t. (t, stampfile t)) (dkeys rq), rev_prio_map = []\<rparr>"

definition newbuildable :: "string \<Rightarrow> scheduler \<Rightarrow> scheduler" where
  "newbuildable t s = s\<lparr>buildable_set := append_new t (buildable_set s)\<rparr>"

definition removebuildable :: "string \<Rightarrow> scheduler \<Rightarrow> unit result \<times> scheduler" where
  "removebuildable t s =
     (if t \<in> set (buildable_set s)
      then (Inr (), s\<lparr>buildable_set := remove_first t (buildable_set s)\<rparr>) else (Inl KeyError, s))"

section \<open>The next task\<close>

text \<open>Running tasks are counted by name where a limit (\<open>number_threads\<close>) is set.\<close>

fun count_running ::
  "(string \<Rightarrow> string option) \<Rightarrow> string list \<Rightarrow> (string \<times> string option) list \<times> (string \<times> nat) list \<Rightarrow>
     ((string \<times> string option) list \<times> (string \<times> nat) list) result"
where
  "count_running flag [] (sm, sb) = Inr (sm, sb)"
| "count_running flag (running # ts) (sm, sb) =
     (case taskname_from_tid running of
        None \<Rightarrow> Inl IndexError
      | Some name \<Rightarrow>
          (let sm1 = (if name \<in> set (dkeys sm) then sm else dset name (flag name) sm)
           in if \<not> truthy (dget_or sm1 name None) then count_running flag ts (sm1, sb)
              else count_running flag ts (sm1, dset name (dget_or sb name 0 + 1) sb)))"

definition over_limit :: "(string \<times> string option) list \<Rightarrow> (string \<times> nat) list \<Rightarrow> string \<Rightarrow> bool result" where
  "over_limit sm sb tid =
     (case taskname_from_tid tid of
        None \<Rightarrow> Inl IndexError
      | Some name \<Rightarrow>
          (case dget sb name of
             None \<Rightarrow> Inr False
           | Some n \<Rightarrow>
               (case dget_or sm name None of
                  None \<Rightarrow> Inl TypeError
                | Some v \<Rightarrow> (case py_int v of None \<Rightarrow> Inl ValueError | Some m \<Rightarrow> Inr (m \<le> int n)))))"

fun index_prios :: "prio_item list \<Rightarrow> string list \<Rightarrow> (string \<times> nat) list \<Rightarrow> unit result \<times> (string \<times> nat) list" where
  "index_prios pm [] m = (Inr (), m)"
| "index_prios pm (tid # ts) m =
     (case index_of pm (PTid tid) of
        None \<Rightarrow> (Inl ValueError, m) | Some i \<Rightarrow> index_prios pm ts (dset tid i m))"

fun pick_best ::
  "rq_view \<Rightarrow> scheduler \<Rightarrow> (string \<times> nat) list \<Rightarrow> string list \<Rightarrow> (string \<times> nat) option \<Rightarrow>
     (string \<times> nat) option result"
where
  "pick_best v s sb [] best = Inr best"
| "pick_best v s sb (tid # ts) best =
     (case dget (rev_prio_map s) tid of
        None \<Rightarrow> Inl KeyError
      | Some prio \<Rightarrow>
          if best = None \<or> snd (the best) > prio then
            bind_res (over_limit (skip_maxthread s) sb tid) (\<lambda>over.
              if over then pick_best v s sb ts best
              else (case dget (stamps s) tid of
                      None \<Rightarrow> Inl KeyError
                    | Some stamp \<Rightarrow>
                        if stamp \<in> snd ` set (build_stamps v) then pick_best v s sb ts best
                        else pick_best v s sb ts (Some (tid, prio))))
          else pick_best v s sb ts best)"

text \<open>The branch for a single buildable task: \<open>None\<close> when its stamp is in use, and it goes on.\<close>

definition single_buildable ::
  "rq_view \<Rightarrow> scheduler \<Rightarrow> (string \<times> nat) list \<Rightarrow> string \<Rightarrow> string option option result"
where
  "single_buildable v s sb tid =
     bind_res (over_limit (skip_maxthread s) sb tid) (\<lambda>over.
       if over then Inr (Some None)
       else (case dget (stamps s) tid of
               None \<Rightarrow> Inl KeyError
             | Some stamp \<Rightarrow>
                 Inr (if stamp \<in> snd ` set (build_stamps v) then None else Some (Some tid))))"

definition index_then_pick ::
  "runq \<Rightarrow> rq_view \<Rightarrow> (string \<times> nat) list \<Rightarrow> string list \<Rightarrow> scheduler \<Rightarrow> string option result \<times> scheduler"
where
  "index_then_pick rq v sb cands s =
     (case (if rev_prio_map s = [] then index_prios (prio_map s) (dkeys rq) []
            else (Inr (), rev_prio_map s)) of
        (Inl e, m) \<Rightarrow> (Inl e, s\<lparr>rev_prio_map := m\<rparr>)
      | (Inr _, m) \<Rightarrow>
          (let s1 = s\<lparr>rev_prio_map := m\<rparr>
           in (bind_res (pick_best v s1 sb cands None) (\<lambda>b. Inr (map_option fst b)), s1)))"

definition candidates :: "rq_view \<Rightarrow> scheduler \<Rightarrow> string list" where
  "candidates v s =
     filter (\<lambda>t. t \<notin> set (runq_running v) \<and> t \<notin> set (holdoff_tasks v) \<and>
                t \<in> set (tasks_covered v) \<union> set (tasks_notcovered v)) (buildable_set s)"

definition next_buildable_task ::
  "bool \<Rightarrow> (string \<Rightarrow> string option) \<Rightarrow> runq \<Rightarrow> rq_view \<Rightarrow> scheduler \<Rightarrow> string option result \<times> scheduler"
where
  "next_buildable_task exceeds_max_pressure flag rq v s =
     (let s0 = s\<lparr>buildable_set := filter (\<lambda>t. t \<notin> set (runq_running v)) (buildable_set s)\<rparr>;
          cands = candidates v s0
      in if cands = [] then (Inr None, s0)
         else if stats_active v \<noteq> 0 \<and> exceeds_max_pressure then (Inr None, s0)
         else (case count_running flag (filter (\<lambda>t. t \<notin> set (runq_complete v)) (runq_running v))
                      (skip_maxthread s0, []) of
                 Inl e \<Rightarrow> (Inl e, s0)
               | Inr (sm, sb) \<Rightarrow>
                   (let s1 = s0\<lparr>skip_maxthread := sm\<rparr>
                    in case cands of
                         [tid] \<Rightarrow>
                           (case single_buildable v s1 sb tid of
                              Inl e \<Rightarrow> (Inl e, s1)
                            | Inr (Some r) \<Rightarrow> (Inr r, s1)
                            | Inr None \<Rightarrow> index_then_pick rq v sb [] s1)
                       | _ \<Rightarrow> index_then_pick rq v sb cands s1)))"

definition next_task ::
  "bool \<Rightarrow> bool \<Rightarrow> (string \<Rightarrow> string option) \<Rightarrow> runq \<Rightarrow> rq_view \<Rightarrow> scheduler \<Rightarrow> string option result \<times> scheduler"
where
  "next_task can_start exceeds flag rq v s =
     (if can_start then next_buildable_task exceeds flag rq v s else (Inr None, s))"

section \<open>Priority by weight\<close>

definition group_weights :: "runq \<Rightarrow> (int \<times> string list) list" where
  "group_weights rq =
     foldl (\<lambda>d (t, e). dset (weight e) (dget_or d (weight e) [] @ [t]) d) [] rq"

definition speed_map :: "runq \<Rightarrow> string list" where
  "speed_map rq =
     (let ws = group_weights rq in rev (concat (map (\<lambda>w. dget_or ws w []) (sort (dkeys ws)))))"

definition speed_init :: "(string \<Rightarrow> string) \<Rightarrow> string list \<Rightarrow> runq \<Rightarrow> scheduler" where
  "speed_init stampfile runq_buildable rq =
     (basic_init stampfile runq_buildable rq)\<lparr>prio_map := map PTid (speed_map rq)\<rparr>"

section \<open>Priority by kind of task\<close>

text \<open>The tasks of every recipe, recipes in the order of their first task.\<close>

fun task_lists :: "string list \<Rightarrow> (string \<times> string list) list \<Rightarrow> (string \<times> string list) list result" where
  "task_lists [] d = Inr d"
| "task_lists (taskid # ts) d =
     (case rsplit1 (CHR '':'') taskid of
        None \<Rightarrow> Inl ValueError
      | Some (fn, name) \<Rightarrow> task_lists ts (dset fn (dget_or d fn [] @ [name]) d))"

definition item_at :: "string list \<Rightarrow> nat \<Rightarrow> string option" where
  "item_at xs i = (if i < length xs then Some (xs ! i) else None)"

text \<open>The inner loop that merges one recipe's tasks into \<open>all_tasks\<close>.\<close>

fun merge_tasks :: "string list \<Rightarrow> nat \<Rightarrow> string option \<Rightarrow> string list \<Rightarrow> string list" where
  "merge_tasks [] index old all_tasks = all_tasks"
| "merge_tasks (new_task # ts) index old all_tasks =
     (if old = Some new_task
      then merge_tasks ts (Suc index) (item_at all_tasks (Suc index)) all_tasks
      else (case index_of all_tasks new_task of
              Some i \<Rightarrow> merge_tasks ts (Suc i) (item_at all_tasks (Suc i)) all_tasks
            | None \<Rightarrow> merge_tasks ts (Suc index) old (take index all_tasks @ new_task # drop index all_tasks)))"

definition all_tasks_of :: "(string \<times> string list) list \<Rightarrow> string list" where
  "all_tasks_of by_fn =
     rev (foldl (\<lambda>acc (recipe, new_tasks). merge_tasks new_tasks 0 (item_at acc 0) acc) [] by_fn)"

text \<open>The inner loop that moves the tasks of one kind to the front of the rest.\<close>

definition move_step :: "string \<Rightarrow> nat \<Rightarrow> string list \<times> nat \<Rightarrow> string list \<times> nat" where
  "move_step task index st =
     (case st of (pm, task_index) \<Rightarrow>
        if map_option snd (rsplit1 (CHR '':'') (pm ! index)) = Some task
        then (let rest = take index pm @ drop (Suc index) pm
              in (take task_index rest @ pm ! index # drop task_index rest, Suc task_index))
        else (pm, task_index))"

definition move_kind :: "nat \<Rightarrow> string list \<times> nat \<Rightarrow> string \<Rightarrow> string list \<times> nat" where
  "move_kind numTasks st task = foldl (\<lambda>st index. move_step task index st) st [snd st..<numTasks]"

definition completion_map :: "runq \<Rightarrow> string list result" where
  "completion_map rq =
     bind_res (task_lists (speed_map rq) []) (\<lambda>by_fn.
       Inr (fst (foldl (move_kind (length rq)) (speed_map rq, 0) (all_tasks_of by_fn))))"

definition completion_init :: "(string \<Rightarrow> string) \<Rightarrow> string list \<Rightarrow> runq \<Rightarrow> scheduler result" where
  "completion_init stampfile runq_buildable rq =
     bind_res (completion_map rq) (\<lambda>pm.
       Inr ((basic_init stampfile runq_buildable rq)\<lparr>prio_map := map PTid pm\<rparr>))"

section \<open>The speed map\<close>

definition add_weight :: "(int \<times> string list) list \<Rightarrow> string \<times> run_entry \<Rightarrow> (int \<times> string list) list" where
  "add_weight d x = dset (weight (snd x)) (dget_or d (weight (snd x)) [] @ [fst x]) d"

lemma group_weights_add: "group_weights rq = foldl add_weight [] rq"
  by (simp add: group_weights_def add_weight_def [abs_def] case_prod_unfold)

lemma add_weight_fold:
  "dget_or (foldl add_weight d es) w [] = dget_or d w [] @ map fst (filter (\<lambda>x. weight (snd x) = w) es)"
  by (induction es arbitrary: d) (auto simp: add_weight_def)

lemma add_weight_keys: "set (dkeys (foldl add_weight d es)) = set (dkeys d) \<union> (\<lambda>x. weight (snd x)) ` set es"
  by (induction es arbitrary: d) (auto simp: add_weight_def simp del: list.set_map)

lemma add_weight_wf: "wf_dict d \<Longrightarrow> wf_dict (foldl add_weight d es)"
  by (induction es arbitrary: d) (auto simp: add_weight_def)

lemma speed_map_sorted: "speed_map rq = rev (map fst (sort_key (\<lambda>x. weight (snd x)) rq))"
proof -
  let ?f = "\<lambda>x :: string \<times> run_entry. weight (snd x)"
  let ?ws = "group_weights rq"
  have get: "dget_or ?ws w [] = map fst (filter (\<lambda>x. ?f x = w) rq)" for w
    by (simp add: group_weights_add add_weight_fold)
  have keys: "set (dkeys ?ws) = ?f ` set rq"
    unfolding group_weights_add add_weight_keys by simp
  have "wf_dict ?ws" unfolding group_weights_add by (rule add_weight_wf) simp
  then have srt: "concat (map (\<lambda>w. filter (\<lambda>x. ?f x = w) rq) (sort (dkeys ?ws))) = sort_key ?f rq"
    using keys by (intro sort_key_groups) (auto simp: wf_dict_def simp del: list.set_map)
  have "concat (map (\<lambda>w. dget_or ?ws w []) (sort (dkeys ?ws))) =
      map fst (concat (map (\<lambda>w. filter (\<lambda>x. ?f x = w) rq) (sort (dkeys ?ws))))"
    by (simp only: get map_concat map_map comp_def)
  then show ?thesis unfolding speed_map_def Let_def srt by simp
qed

lemma speed_map_perm: "mset (speed_map rq) = mset (dkeys rq)"
  by (simp add: speed_map_sorted)

section \<open>The completion map\<close>

lemma move_step_match:
  assumes "length pre \<le> i" "i < length (pre @ rest)" "rest = front @ x # backs" "i = length pre + length front"
    and "taskname_from_tid x = Some task"
  shows "move_step task i (pre @ rest, length pre) = (pre @ x # front @ backs, Suc (length pre))"
  using assms by (simp add: move_step_def nth_append taskname_from_tid_def)

text \<open>
  One pass stably partitions the rest: at index \<open>i\<close> the tasks of the kind have been moved in
  front of the other tasks passed so far.
\<close>

lemma move_kind_partition:
  assumes "n = length (pre @ rest)"
  shows "move_kind n (pre @ rest, length pre) task =
    (pre @ filter (\<lambda>t. taskname_from_tid t = Some task) rest @
       filter (\<lambda>t. taskname_from_tid t \<noteq> Some task) rest,
     length pre + length (filter (\<lambda>t. taskname_from_tid t = Some task) rest))"
proof -
  let ?P = "\<lambda>t. taskname_from_tid t = Some task"
  have "foldl (\<lambda>st index. move_step task index st) (pre @ rest, length pre) [length pre..<length pre + k] =
      (pre @ filter ?P (take k rest) @ filter (\<lambda>t. \<not> ?P t) (take k rest) @ drop k rest,
       length pre + length (filter ?P (take k rest)))" if "k \<le> length rest" for k
    using that
  proof (induction k)
    case (Suc k)
    let ?front = "pre @ filter ?P (take k rest)" and ?skip = "filter (\<lambda>t. \<not> ?P t) (take k rest)"
    have drop: "drop k rest = rest ! k # drop (Suc k) rest" using Suc.prems by (simp add: Cons_nth_drop_Suc)
    have take: "take (Suc k) rest = take k rest @ [rest ! k]" using Suc.prems by (simp add: take_Suc_conv_app_nth)
    have "length (filter ?P (take k rest)) + length ?skip = k"
      using Suc.prems sum_length_filter_compl [of ?P "take k rest"] by simp
    then have len: "length pre + k = length ?front + length ?skip" by simp
    have IH: "foldl (\<lambda>st index. move_step task index st) (pre @ rest, length pre) [length pre..<length pre + Suc k] =
        move_step task (length pre + k) (?front @ ?skip @ rest ! k # drop (Suc k) rest, length ?front)"
      using Suc drop by simp
    show ?case
    proof (cases "?P (rest ! k)")
      case True
      have "move_step task (length pre + k) (?front @ ?skip @ rest ! k # drop (Suc k) rest, length ?front) =
          (?front @ rest ! k # ?skip @ drop (Suc k) rest, Suc (length ?front))"
        by (rule move_step_match [where backs = "drop (Suc k) rest"]) (use len True in auto)
      with True IH take show ?thesis by simp
    next
      case False
      have "(?front @ ?skip @ rest ! k # drop (Suc k) rest) ! (length pre + k) = rest ! k"
        unfolding len by (simp add: nth_append)
      with False have "move_step task (length pre + k) (?front @ ?skip @ rest ! k # drop (Suc k) rest, length ?front) =
          (?front @ ?skip @ rest ! k # drop (Suc k) rest, length ?front)"
        by (simp add: move_step_def taskname_from_tid_def)
      with False IH take show ?thesis by simp
    qed
  qed simp
  from this [of "length rest"] show ?thesis
    using assms by (simp add: move_kind_def)
qed

lemma move_kinds_groups:
  assumes "n = length (pre @ rest)" "distinct ts"
  shows "foldl (move_kind n) (pre @ rest, length pre) ts =
    (pre @ concat (map (\<lambda>k. filter (\<lambda>t. taskname_from_tid t = Some k) rest) ts) @
       filter (\<lambda>t. taskname_from_tid t \<notin> Some ` set ts) rest,
     length pre + length (concat (map (\<lambda>k. filter (\<lambda>t. taskname_from_tid t = Some k) rest) ts)))"
  using assms
proof (induction ts arbitrary: pre rest)
  case (Cons k ts)
  let ?A = "filter (\<lambda>t. taskname_from_tid t = Some k) rest"
    and ?B = "filter (\<lambda>t. taskname_from_tid t \<noteq> Some k) rest"
  have "n = length ((pre @ ?A) @ ?B)"
    using Cons.prems(1) sum_length_filter_compl [of "\<lambda>t. taskname_from_tid t = Some k" rest] by simp
  from Cons.IH [OF this] Cons.prems(2)
  have IH: "foldl (move_kind n) ((pre @ ?A) @ ?B, length (pre @ ?A)) ts =
    ((pre @ ?A) @ concat (map (\<lambda>k. filter (\<lambda>t. taskname_from_tid t = Some k) ?B) ts) @
       filter (\<lambda>t. taskname_from_tid t \<notin> Some ` set ts) ?B,
     length (pre @ ?A) + length (concat (map (\<lambda>k. filter (\<lambda>t. taskname_from_tid t = Some k) ?B) ts)))"
    by simp
  have same: "map (\<lambda>j. filter (\<lambda>t. taskname_from_tid t = Some j) ?B) ts =
      map (\<lambda>j. filter (\<lambda>t. taskname_from_tid t = Some j) rest) ts"
    using Cons.prems(2) by (auto intro!: filter_cong)
  have last: "filter (\<lambda>t. taskname_from_tid t \<notin> Some ` set ts) ?B =
      filter (\<lambda>t. taskname_from_tid t \<notin> Some ` set (k # ts)) rest"
    by (auto intro!: filter_cong)
  show ?case
    using IH [unfolded same last] by (simp add: move_kind_partition [OF Cons.prems(1)])
qed simp

text \<open>The merge keeps the list of kinds distinct and collects every kind.\<close>

lemma merge_tasks_set:
  "distinct acc \<Longrightarrow> old = None \<or> (\<exists>x \<in> set acc. old = Some x) \<Longrightarrow>
     distinct (merge_tasks ts i old acc) \<and> set (merge_tasks ts i old acc) = set acc \<union> set ts"
proof (induction ts i old acc rule: merge_tasks.induct)
  case (2 new ts i old acc)
  have at: "item_at acc j = None \<or> (\<exists>x \<in> set acc. item_at acc j = Some x)" for j
    by (auto simp: item_at_def)
  show ?case
  proof (cases "old = Some new")
    case True
    with 2 at show ?thesis by auto
  next
    case False
    show ?thesis
    proof (cases "index_of acc new")
      case None
      then have new: "new \<notin> set acc" by simp
      let ?acc = "take i acc @ new # drop i acc"
      have perm: "mset ?acc = mset (new # acc)"
        by (metis append_take_drop_id mset_append mset.simps(2) union_mset_add_mset_right)
      have set: "set ?acc = insert new (set acc)" using mset_eq_setD [OF perm] by simp
      have dist: "distinct ?acc" using mset_eq_imp_distinct_iff [OF perm] 2(4) new by simp
      have "old = None \<or> (\<exists>x \<in> set ?acc. old = Some x)" using 2(5) unfolding set by auto
      from "2.IH"(2) [OF False None dist this] have "distinct (merge_tasks ts (Suc i) old ?acc) \<and>
          set (merge_tasks ts (Suc i) old ?acc) = set acc \<union> set (new # ts)"
        unfolding set by auto
      moreover have "merge_tasks (new # ts) i old acc = merge_tasks ts (Suc i) old ?acc"
        by (simp only: merge_tasks.simps if_not_P [OF False] None option.case)
      ultimately show ?thesis by (simp only:)
    next
      case (Some j)
      then have "new \<in> set acc" using index_of_Some [OF Some] by auto
      with "2.IH"(3) [OF False Some 2(4)] at False Some show ?thesis by auto
    qed
  qed
qed simp

definition kinds_in :: "(string \<times> string list) list \<Rightarrow> string set" where
  "kinds_in d = (\<Union>(fn, ks) \<in> set d. set ks)"

lemma kinds_in_dset: "kinds_in (dset fn (dget_or d fn [] @ [k]) d) = insert k (kinds_in d)"
proof (induction d)
  case (Cons x d)
  obtain f ks where "x = (f, ks)" by fastforce
  with Cons show ?case by (auto simp: kinds_in_def dget_or_def)
qed (simp add: kinds_in_def dget_or_def)

lemma task_lists_kinds:
  assumes "\<forall>t \<in> set ts. CHR '':'' \<in> set t"
  shows "\<exists>d'. task_lists ts d = Inr d' \<and> kinds_in d' = kinds_in d \<union> {k. \<exists>t \<in> set ts. taskname_from_tid t = Some k}"
  using assms
proof (induction ts arbitrary: d)
  case (Cons t ts)
  then obtain fn k where t: "rsplit1 (CHR '':'') t = Some (fn, k)"
    using rsplit1_None [of "CHR '':''" t] by fastforce
  from Cons.IH [of "dset fn (dget_or d fn [] @ [k]) d"] Cons.prems
  obtain d' where "task_lists ts (dset fn (dget_or d fn [] @ [k]) d) = Inr d'"
    "kinds_in d' = insert k (kinds_in d) \<union> {k. \<exists>t \<in> set ts. taskname_from_tid t = Some k}"
    by (auto simp: kinds_in_dset)
  with t show ?case by (auto simp: taskname_from_tid_def)
qed simp

lemma all_tasks_of_kinds: "distinct (all_tasks_of d) \<and> set (all_tasks_of d) = kinds_in d"
proof -
  let ?merge = "\<lambda>acc (recipe, new_tasks). merge_tasks new_tasks 0 (item_at acc 0) acc"
  have "distinct (foldl ?merge acc d) \<and> set (foldl ?merge acc d) = set acc \<union> kinds_in d"
    if "distinct acc" for acc
    using that
  proof (induction d arbitrary: acc)
    case (Cons x d)
    obtain f ks where x: "x = (f, ks)" by fastforce
    have "item_at acc 0 = None \<or> (\<exists>x \<in> set acc. item_at acc 0 = Some x)" by (auto simp: item_at_def)
    note m = merge_tasks_set [OF Cons.prems this, of ks 0]
    from Cons.IH [of "merge_tasks ks 0 (item_at acc 0) acc"] m
    show ?case unfolding x by (auto simp: kinds_in_def)
  qed (simp add: kinds_in_def)
  from this [of "[]"] show ?thesis by (simp add: all_tasks_of_def)
qed

lemma completion_map_groups:
  assumes "\<forall>t \<in> set (dkeys rq). CHR '':'' \<in> set t"
  shows "\<exists>ks. distinct ks \<and> set ks = {k. \<exists>t \<in> set (dkeys rq). taskname_from_tid t = Some k} \<and>
    completion_map rq = Inr (concat (map (\<lambda>k. filter (\<lambda>t. taskname_from_tid t = Some k) (speed_map rq)) ks))"
proof -
  have keys: "set (speed_map rq) = set (dkeys rq)" using speed_map_perm by (metis mset_eq_setD)
  with assms have "\<forall>t \<in> set (speed_map rq). CHR '':'' \<in> set t" by blast
  from task_lists_kinds [OF this, of "[]"] keys
  obtain d where d: "task_lists (speed_map rq) [] = Inr d"
    "kinds_in d = {k. \<exists>t \<in> set (dkeys rq). taskname_from_tid t = Some k}"
    by (auto simp: kinds_in_def)
  let ?ks = "all_tasks_of d"
  have len: "length rq = length ([] @ speed_map rq)"
    using arg_cong [OF speed_map_perm [of rq], of size] by simp
  have some: "taskname_from_tid t \<in> Some ` set ?ks" if "t \<in> set (speed_map rq)" for t
  proof -
    have "CHR '':'' \<in> set t" using that keys assms by blast
    then obtain k where "taskname_from_tid t = Some k"
      using rsplit1_None [of "CHR '':''" t] by (fastforce simp: taskname_from_tid_def)
    with that keys d(2) all_tasks_of_kinds [of d] show ?thesis by blast
  qed
  then have "filter (\<lambda>t. taskname_from_tid t \<notin> Some ` set ?ks) (speed_map rq) = []"
    by (simp add: filter_empty_conv)
  with move_kinds_groups [OF len, of ?ks] all_tasks_of_kinds [of d] d
  show ?thesis by (intro exI [of _ ?ks]) (simp add: completion_map_def)
qed

lemma completion_map_perm:
  assumes "\<forall>t \<in> set (dkeys rq). CHR '':'' \<in> set t" and "completion_map rq = Inr pm"
  shows "mset pm = mset (dkeys rq)"
proof -
  from completion_map_groups [OF assms(1)] assms(2)
  obtain ks where ks: "distinct ks" "set ks = {k. \<exists>t \<in> set (dkeys rq). taskname_from_tid t = Some k}"
    "pm = concat (map (\<lambda>k. filter (\<lambda>t. taskname_from_tid t = Some k) (speed_map rq)) ks)" by auto
  have keys: "set (speed_map rq) = set (dkeys rq)" using speed_map_perm by (metis mset_eq_setD)
  have some: "\<exists>k. taskname_from_tid t = Some k" if "t \<in> set (dkeys rq)" for t
    using that assms(1) rsplit1_None [of "CHR '':''" t] by (fastforce simp: taskname_from_tid_def)
  have "mset (concat (map (\<lambda>k. filter (\<lambda>t. taskname_from_tid t = k) (speed_map rq)) (map Some ks))) =
      mset (speed_map rq)"
  proof (rule mset_concat_groups)
    show "distinct (map Some ks)" using ks(1) by (simp add: distinct_map)
    show "taskname_from_tid ` set (speed_map rq) \<subseteq> set (map Some ks)"
    proof
      fix n assume "n \<in> taskname_from_tid ` set (speed_map rq)"
      then obtain t where t: "t \<in> set (dkeys rq)" "n = taskname_from_tid t" unfolding keys by blast
      with some [OF t(1)] show "n \<in> set (map Some ks)" unfolding set_map ks(2) by blast
    qed
  qed
  then show ?thesis using speed_map_perm by (simp add: ks(3) comp_def)
qed

section \<open>What a scheduler needs of its priority map\<close>

text \<open>The number of running tasks of a name, and what the limit allows to start.\<close>

definition running_named :: "rq_view \<Rightarrow> string \<Rightarrow> nat" where
  "running_named v name =
     length (filter (\<lambda>t. t \<notin> set (runq_complete v) \<and> taskname_from_tid t = Some name) (runq_running v))"

definition within_limit :: "(string \<Rightarrow> string option) \<Rightarrow> rq_view \<Rightarrow> string \<Rightarrow> bool" where
  "within_limit flag v tid =
     (case taskname_from_tid tid of
        None \<Rightarrow> True
      | Some name \<Rightarrow>
          \<not> truthy (flag name) \<or> running_named v name = 0 \<or>
          (case py_int (the (flag name)) of None \<Rightarrow> False | Some m \<Rightarrow> int (running_named v name) < m))"

definition startable :: "(string \<Rightarrow> string option) \<Rightarrow> rq_view \<Rightarrow> scheduler \<Rightarrow> string set" where
  "startable flag v s =
     {t \<in> set (candidates v s). within_limit flag v t \<and> dget_or (stamps s) t [] \<notin> snd ` set (build_stamps v)}"

text \<open>The inputs on which the code cannot raise, as the callers provide them.\<close>

definition sched_ok :: "(string \<Rightarrow> string option) \<Rightarrow> runq \<Rightarrow> rq_view \<Rightarrow> scheduler \<Rightarrow> bool" where
  "sched_ok flag rq v s \<longleftrightarrow>
     wf_dict rq \<and> distinct (buildable_set s) \<and> set (buildable_set s) \<subseteq> set (dkeys rq) \<and>
     set (dkeys rq) \<subseteq> set (dkeys (stamps s)) \<and>
     (\<forall>t \<in> set (dkeys rq) \<union> set (runq_running v). CHR '':'' \<in> set t) \<and>
     (\<forall>n x. dget (skip_maxthread s) n = Some x \<longrightarrow> x = flag n) \<and>
     (\<forall>n x. flag n = Some x \<longrightarrow> x \<noteq> [] \<longrightarrow> py_int x \<noteq> None)"

lemma taskname_Some: "CHR '':'' \<in> set t \<Longrightarrow> \<exists>n. taskname_from_tid t = Some n"
  using rsplit1_None [of "CHR '':''" t] by (fastforce simp: taskname_from_tid_def)

lemma count_running_result:
  assumes "\<forall>t \<in> set ts. CHR '':'' \<in> set t" and "\<forall>n x. dget sm n = Some x \<longrightarrow> x = flag n"
  shows "\<exists>sm' sb'. count_running flag ts (sm, sb) = Inr (sm', sb') \<and>
    (\<forall>n x. dget sm' n = Some x \<longrightarrow> x = flag n) \<and> set (dkeys sm) \<subseteq> set (dkeys sm') \<and>
    (\<forall>n. let c = length (filter (\<lambda>t. taskname_from_tid t = Some n) ts) in
       dget sb' n = (if \<not> truthy (flag n) \<or> c = 0 then dget sb n else Some (dget_or sb n 0 + c)) \<and>
       (c \<noteq> 0 \<longrightarrow> n \<in> set (dkeys sm')))"
  using assms
proof (induction ts arbitrary: sm sb)
  case (Cons t ts)
  then obtain name where t: "taskname_from_tid t = Some name" using taskname_Some by fastforce
  let ?sm = "if name \<in> set (dkeys sm) then sm else dset name (flag name) sm"
  have sm: "\<forall>n x. dget ?sm n = Some x \<longrightarrow> x = flag n" using Cons.prems(2) by simp
  have keys: "insert name (set (dkeys sm)) \<subseteq> set (dkeys ?sm)" by auto
  have get: "dget_or ?sm name None = flag name"
  proof (cases "dget sm name")
    case None
    then have "name \<notin> set (dkeys sm)" using dget_None_dkeys [of sm name] by blast
    then show ?thesis by simp
  next
    case (Some x)
    then have "name \<in> set (dkeys sm)" using dget_in_dkeys [of name sm] by blast
    with Some Cons.prems(2) show ?thesis by (simp add: dget_or_def)
  qed
  let ?sb = "if \<not> truthy (flag name) then sb else dset name (dget_or sb name 0 + 1) sb"
  have run: "count_running flag (t # ts) (sm, sb) = count_running flag ts (?sm, ?sb)"
    using t get by (simp add: Let_def)
  from Cons.IH [OF _ sm, of ?sb] Cons.prems(1)
  obtain sm' sb' where r: "count_running flag ts (?sm, ?sb) = Inr (sm', sb')"
    "\<forall>n x. dget sm' n = Some x \<longrightarrow> x = flag n" "set (dkeys ?sm) \<subseteq> set (dkeys sm')"
    "\<forall>n. let c = length (filter (\<lambda>t. taskname_from_tid t = Some n) ts) in
       dget sb' n = (if \<not> truthy (flag n) \<or> c = 0 then dget ?sb n else Some (dget_or ?sb n 0 + c)) \<and>
       (c \<noteq> 0 \<longrightarrow> n \<in> set (dkeys sm'))"
    by auto
  have "dget_or sb n 0 + 1 = (case dget sb n of None \<Rightarrow> 1 | Some c \<Rightarrow> c + 1)" for n
    by (simp add: dget_or_def split: option.split)
  show ?case
    unfolding run
  proof (intro exI [of _ sm'] exI [of _ sb'] conjI allI)
    show "let c = length (filter (\<lambda>t. taskname_from_tid t = Some n) (t # ts)) in
       dget sb' n = (if \<not> truthy (flag n) \<or> c = 0 then dget sb n else Some (dget_or sb n 0 + c)) \<and>
       (c \<noteq> 0 \<longrightarrow> n \<in> set (dkeys sm'))" for n
    proof (cases "n = name")
      case True
      have "name \<in> set (dkeys sm')" using keys r(3) by blast
      with True r(4) [rule_format, of n] t show ?thesis by (auto simp: Let_def split: if_splits)
    next
      case False
      with r(4) [rule_format, of n] t show ?thesis by (auto simp: Let_def dget_or_def split: if_splits)
    qed
    show "set (dkeys sm) \<subseteq> set (dkeys sm')" using keys r(3) by blast
  qed (use r in blast)+
qed simp

lemma over_limit_result:
  assumes "CHR '':'' \<in> set tid" and "\<forall>n x. flag n = Some x \<longrightarrow> x \<noteq> [] \<longrightarrow> py_int x \<noteq> None"
    and "\<forall>n x. dget sm n = Some x \<longrightarrow> x = flag n"
    and "\<forall>n. dget sb n = (if \<not> truthy (flag n) \<or> running_named v n = 0 then None
                          else Some (running_named v n)) \<and>
             (running_named v n \<noteq> 0 \<longrightarrow> n \<in> set (dkeys sm))"
  shows "over_limit sm sb tid = Inr (\<not> within_limit flag v tid)"
proof -
  obtain n where n: "taskname_from_tid tid = Some n" using taskname_Some [OF assms(1)] by blast
  show ?thesis
  proof (cases "\<not> truthy (flag n) \<or> running_named v n = 0")
    case True
    with assms(4) n show ?thesis by (auto simp: over_limit_def within_limit_def)
  next
    case False
    then obtain x where x: "flag n = Some x" "x \<noteq> []" by (auto simp: truthy_def)
    then obtain m where m: "py_int x = Some m" using assms(2) by blast
    have "n \<in> set (dkeys sm)" using assms(4) False by blast
    then have "dget sm n = Some (flag n)" using dget_in_dkeys [of n sm] assms(3) by metis
    then have "dget_or sm n None = Some x" using x by (simp add: dget_or_def)
    moreover have "dget sb n = Some (running_named v n)" using assms(4) False by auto
    ultimately show ?thesis using n x m False by (auto simp: over_limit_def within_limit_def)
  qed
qed

text \<open>The scan keeps the startable task of least number.\<close>

lemma pick_best_result:
  fixes v :: rq_view
  assumes "\<forall>t \<in> set ts. dget (rev_prio_map s) t = Some (idx t) \<and>
      over_limit (skip_maxthread s) sb t = Inr (\<not> ok t) \<and> dget (stamps s) t = Some (stamp t)"
  defines "P \<equiv> \<lambda>t. ok t \<and> stamp t \<notin> snd ` set (build_stamps v)"
  shows "\<exists>b. pick_best v s sb ts best = Inr b \<and>
    (case b of None \<Rightarrow> best = None \<and> (\<forall>c \<in> set ts. \<not> P c)
     | Some (t, p) \<Rightarrow> (best = Some (t, p) \<or> t \<in> set ts \<and> P t \<and> p = idx t) \<and>
         (\<forall>c \<in> set ts. P c \<longrightarrow> p \<le> idx c) \<and> (\<forall>t0 p0. best = Some (t0, p0) \<longrightarrow> p \<le> p0))"
  using assms(1)
proof (induction ts arbitrary: best)
  case (Cons t ts)
  then have IH: "\<exists>b. pick_best v s sb ts best' = Inr b \<and>
    (case b of None \<Rightarrow> best' = None \<and> (\<forall>c \<in> set ts. \<not> P c)
     | Some (t, p) \<Rightarrow> (best' = Some (t, p) \<or> t \<in> set ts \<and> P t \<and> p = idx t) \<and>
         (\<forall>c \<in> set ts. P c \<longrightarrow> p \<le> idx c) \<and> (\<forall>t0 p0. best' = Some (t0, p0) \<longrightarrow> p \<le> p0))" for best'
    by simp
  have t: "dget (rev_prio_map s) t = Some (idx t)" "over_limit (skip_maxthread s) sb t = Inr (\<not> ok t)"
    "dget (stamps s) t = Some (stamp t)" using Cons.prems by auto
  show ?case
  proof (cases "(best = None \<or> snd (the best) > idx t) \<and> P t")
    case True
    then have "pick_best v s sb (t # ts) best = pick_best v s sb ts (Some (t, idx t))"
      using t by (auto simp: P_def)
    with IH [of "Some (t, idx t)"] True show ?thesis by (fastforce split: option.splits)
  next
    case False
    then have "pick_best v s sb (t # ts) best = pick_best v s sb ts best"
      using t by (auto simp: P_def)
    with IH [of best] False show ?thesis by (fastforce split: option.splits)
  qed
qed (auto split: option.split)

lemma pick_best_None:
  fixes v :: rq_view
  assumes "\<forall>t \<in> set ts. dget (rev_prio_map s) t = Some (idx t) \<and>
      over_limit (skip_maxthread s) sb t = Inr (\<not> ok t) \<and> dget (stamps s) t = Some (stamp t)"
  defines "P \<equiv> \<lambda>t. ok t \<and> stamp t \<notin> snd ` set (build_stamps v)"
  shows "\<exists>b. pick_best v s sb ts None = Inr b \<and>
    (case b of None \<Rightarrow> \<forall>c \<in> set ts. \<not> P c
     | Some (t, p) \<Rightarrow> t \<in> set ts \<and> P t \<and> p = idx t \<and> (\<forall>c \<in> set ts. P c \<longrightarrow> p \<le> idx c))"
  using pick_best_result [OF assms(1), of v None] unfolding P_def [symmetric]
  by (elim exE conjE) (rule exI, rule conjI, assumption, simp add: P_def split: option.splits prod.splits)

definition tids_ok :: "runq \<Rightarrow> bool" where
  "tids_ok rq \<longleftrightarrow> (\<forall>t \<in> set (dkeys rq). CHR '':'' \<in> set t)"

definition prio_in :: "string list \<Rightarrow> string \<Rightarrow> nat" where
  "prio_in pm t = (case index_of pm t of None \<Rightarrow> 0 | Some i \<Rightarrow> i)"

locale priority_map =
  fixes rq :: runq and pm :: "string list"
  assumes perm: "tids_ok rq \<Longrightarrow> mset pm = mset (dkeys rq)"
begin

lemma keys: "tids_ok rq \<Longrightarrow> set pm = set (dkeys rq)"
  using mset_eq_setD [OF perm] .

lemma index_PTid: "index_of (map PTid xs) (PTid t) = index_of xs t"
  by (induction xs) auto

lemma index_prios_result:
  assumes "tids_ok rq" "set ts \<subseteq> set (dkeys rq)"
  shows "\<exists>m'. index_prios (map PTid pm) ts m = (Inr (), m') \<and>
    (\<forall>t. dget m' t = (if t \<in> set ts then Some (prio_in pm t) else dget m t))"
  using assms
proof (induction ts arbitrary: m)
  case (Cons t ts)
  then have "t \<in> set pm" using keys by simp
  then obtain i where i: "index_of pm t = Some i" using index_of_None [of pm t] by fastforce
  with Cons.IH [of "dset t i m"] Cons.prems
  show ?case by (auto simp: index_PTid prio_in_def)
qed simp

lemma next_buildable:
  assumes ok: "sched_ok flag rq v s" and pm: "prio_map s = map PTid pm"
    and rev: "rev_prio_map s = [] \<or> (\<forall>t \<in> set (dkeys rq). dget (rev_prio_map s) t = Some (prio_in pm t))"
  shows "\<exists>r s'. next_buildable_task p flag rq v s = (Inr r, s') \<and>
    (case r of
       None \<Rightarrow> startable flag v s = {} \<or> stats_active v \<noteq> 0 \<and> p
     | Some t \<Rightarrow> t \<in> startable flag v s \<and> (\<forall>c \<in> startable flag v s. prio_in pm t \<le> prio_in pm c))"
proof -
  define s0 where "s0 = s\<lparr>buildable_set := filter (\<lambda>t. t \<notin> set (runq_running v)) (buildable_set s)\<rparr>"
  define cands where "cands = candidates v s0"
  have cands: "cands = candidates v s"
    by (auto simp: cands_def s0_def candidates_def intro!: filter_cong)
  have sub: "set cands \<subseteq> set (dkeys rq)" using ok by (auto simp: cands candidates_def sched_ok_def)
  show ?thesis
  proof (cases "cands = [] \<or> stats_active v \<noteq> 0 \<and> p")
    case True
    then have "next_buildable_task p flag rq v s = (Inr None, s0)"
      by (auto simp: next_buildable_task_def s0_def [symmetric] cands_def [symmetric] Let_def)
    with True show ?thesis by (auto simp: startable_def cands)
  next
    case False
    let ?running = "filter (\<lambda>t. t \<notin> set (runq_complete v)) (runq_running v)"
    have "\<forall>t \<in> set ?running. CHR '':'' \<in> set t" "\<forall>n x. dget (skip_maxthread s0) n = Some x \<longrightarrow> x = flag n"
      using ok by (auto simp: sched_ok_def s0_def)
    from count_running_result [OF this, of "[]"]
    obtain sm sb where c: "count_running flag ?running (skip_maxthread s0, []) = Inr (sm, sb)"
      "\<forall>n x. dget sm n = Some x \<longrightarrow> x = flag n"
      "\<forall>n. dget sb n = (if \<not> truthy (flag n) \<or> running_named v n = 0 then None
                          else Some (running_named v n)) \<and>
             (running_named v n \<noteq> 0 \<longrightarrow> n \<in> set (dkeys sm))"
      by (auto simp: running_named_def Let_def conj_commute dget_or_def)
    define s1 where "s1 = s0\<lparr>skip_maxthread := sm\<rparr>"
    have over: "over_limit sm sb t = Inr (\<not> within_limit flag v t)" if "t \<in> set cands" for t
      using ok that sub c by (intro over_limit_result) (auto simp: sched_ok_def)
    have stamp: "dget (stamps s1) t = Some (dget_or (stamps s) t [])" if "t \<in> set cands" for t
    proof -
      have "t \<in> set (dkeys (stamps s))" using that sub ok by (auto simp: sched_ok_def)
      then show ?thesis using dget_in_dkeys [of t "stamps s"] by (auto simp: s1_def s0_def dget_or_def)
    qed
    have pick: "\<exists>r s'. index_then_pick rq v sb ts s1 = (Inr r, s') \<and>
        (case r of None \<Rightarrow> startable flag v s \<inter> set ts = {}
         | Some t \<Rightarrow> t \<in> startable flag v s \<inter> set ts \<and> (\<forall>c \<in> startable flag v s \<inter> set ts. prio_in pm t \<le> prio_in pm c))"
      if ts: "set ts \<subseteq> set cands" for ts
    proof -
      obtain m where m: "(if rev_prio_map s1 = [] then index_prios (prio_map s1) (dkeys rq) []
          else (Inr (), rev_prio_map s1)) = (Inr (), m)" "\<forall>t \<in> set (dkeys rq). dget m t = Some (prio_in pm t)"
      proof (cases "rev_prio_map s = []")
        case True
        have "tids_ok rq" using ok by (auto simp: sched_ok_def tids_ok_def)
        from index_prios_result [OF this subset_refl, of "[]"]
        obtain m where "index_prios (map PTid pm) (dkeys rq) [] = (Inr (), m)"
          "\<forall>t \<in> set (dkeys rq). dget m t = Some (prio_in pm t)" by metis
        with True pm that [of m] show ?thesis by (simp add: s1_def s0_def)
      next
        case False
        with rev that [of "rev_prio_map s"] show ?thesis by (simp add: s1_def s0_def)
      qed
      let ?s2 = "s1\<lparr>rev_prio_map := m\<rparr>"
      have "\<forall>t \<in> set ts. dget (rev_prio_map ?s2) t = Some (prio_in pm t) \<and>
          over_limit (skip_maxthread ?s2) sb t = Inr (\<not> within_limit flag v t) \<and>
          dget (stamps ?s2) t = Some (dget_or (stamps s) t [])"
        using m(2) ts sub over stamp by (auto simp: s1_def)
      from pick_best_None [OF this, of v] obtain b where b: "pick_best v ?s2 sb ts None = Inr b"
        and b': "case b of
           None \<Rightarrow> \<forall>c \<in> set ts. \<not> (within_limit flag v c \<and>
             dget_or (stamps s) c [] \<notin> snd ` set (build_stamps v))
         | Some (t, p) \<Rightarrow> t \<in> set ts \<and> (within_limit flag v t \<and>
             dget_or (stamps s) t [] \<notin> snd ` set (build_stamps v)) \<and> p = prio_in pm t \<and>
             (\<forall>c \<in> set ts. within_limit flag v c \<and>
               dget_or (stamps s) c [] \<notin> snd ` set (build_stamps v) \<longrightarrow> p \<le> prio_in pm c)"
        by (elim exE conjE)
      have "index_then_pick rq v sb ts s1 = (Inr (map_option fst b), ?s2)"
        using m(1) b by (simp add: index_then_pick_def)
      with b' ts show ?thesis by (auto simp: startable_def cands split: option.splits)
    qed
    have all: "startable flag v s \<subseteq> set cands" by (auto simp: startable_def cands)
    have run: "next_buildable_task p flag rq v s =
        (case cands of
           [tid] \<Rightarrow> (case single_buildable v s1 sb tid of
                        Inl e \<Rightarrow> (Inl e, s1) | Inr (Some r) \<Rightarrow> (Inr r, s1)
                      | Inr None \<Rightarrow> index_then_pick rq v sb [] s1)
         | _ \<Rightarrow> index_then_pick rq v sb cands s1)"
      using False c(1) by (auto simp: next_buildable_task_def s0_def [symmetric] cands_def [symmetric]
          s1_def [symmetric] Let_def split: list.split sum.split option.split)
    show ?thesis
    proof (cases "\<exists>tid. cands = [tid]")
      case True
      then obtain tid where tid: "cands = [tid]" by blast
      have mem: "tid \<in> startable flag v s \<longleftrightarrow>
          within_limit flag v tid \<and> dget_or (stamps s) tid [] \<notin> snd ` set (build_stamps v)"
        using tid by (auto simp: startable_def cands [symmetric])
      have only: "startable flag v s \<subseteq> {tid}" using all tid by simp
      have single: "single_buildable v s1 sb tid =
          Inr (if \<not> within_limit flag v tid then Some None
               else if dget_or (stamps s) tid [] \<in> snd ` set (build_stamps v) then None else Some (Some tid))"
        using over [of tid] stamp [of tid] tid by (simp add: single_buildable_def s1_def)
      show ?thesis
      proof (cases "within_limit flag v tid \<and> dget_or (stamps s) tid [] \<notin> snd ` set (build_stamps v)")
        case True
        then have "next_buildable_task p flag rq v s = (Inr (Some tid), s1)"
          using run tid single by simp
        with mem only True show ?thesis by auto
      next
        case False
        then have none: "startable flag v s = {}" using mem only by blast
        from pick [of "[]"] obtain r s' where "index_then_pick rq v sb [] s1 = (Inr r, s')" "r = None"
          by (auto split: option.splits)
        with False run tid single none show ?thesis by auto
      qed
    next
      case False
      then have "next_buildable_task p flag rq v s = index_then_pick rq v sb cands s1"
        using run by (auto split: list.splits)
      moreover have "startable flag v s \<inter> set cands = startable flag v s" using all by blast
      ultimately show ?thesis using pick [of cands] by (auto split: option.splits)
    qed
  qed
qed

end

definition completion_order :: "runq \<Rightarrow> string list" where
  "completion_order rq = (case completion_map rq of Inl _ \<Rightarrow> [] | Inr pm \<Rightarrow> pm)"

interpretation speed: priority_map rq "speed_map rq" for rq
  by unfold_locales (rule speed_map_perm)

interpretation completion: priority_map rq "completion_order rq" for rq
proof unfold_locales
  assume ok: "tids_ok rq"
  then obtain pm where pm: "completion_map rq = Inr pm"
    using completion_map_groups [of rq] unfolding tids_ok_def by blast
  with completion_map_perm [OF ok [unfolded tids_ok_def] pm]
  show "mset (completion_order rq) = mset (dkeys rq)" by (simp add: completion_order_def)
qed

section \<open>The properties of the schedulers\<close>

text \<open>
  C23: the completion scheduler's priority map puts the kinds of task in one fixed order, every
  kind once, and keeps within a kind the order by weight of the speed scheduler.
\<close>

theorem completion_map_by_kind:
  assumes "tids_ok rq"
  shows "\<exists>ks. distinct ks \<and> set ks = {k. \<exists>t \<in> set (dkeys rq). taskname_from_tid t = Some k} \<and>
    completion_map rq = Inr (concat (map (\<lambda>k. filter (\<lambda>t. taskname_from_tid t = Some k)
      (rev (map fst (sort_key (\<lambda>x. weight (snd x)) rq)))) ks))"
  using completion_map_groups [of rq] assms unfolding speed_map_sorted tids_ok_def .



text \<open>Two tasks of one recipe, both buildable and covered, nothing running.\<close>

definition rq2 :: runq where
  "rq2 = [(''a:do_x'', new_entry\<lparr>weight := 3\<rparr>), (''a:do_y'', new_entry\<lparr>weight := 7\<rparr>)]"

definition view2 :: rq_view where
  "view2 = \<lparr>runq_running = [], runq_complete = [], holdoff_tasks = [],
     tasks_covered = [], tasks_notcovered = [''a:do_x'', ''a:do_y''], stats_active = 0, build_stamps = []\<rparr>"

theorem completion_map_by_kind_witness:
  "\<exists>ks. distinct ks \<and> set ks = {''do_x'', ''do_y''} \<and> completion_map rq2 \<noteq> Inl ValueError"
proof -
  have tn: "taskname_from_tid ''a:do_x'' = Some ''do_x''" "taskname_from_tid ''a:do_y'' = Some ''do_y''"
    by (simp_all add: taskname_from_tid_def rsplit1_def)
  have names: "{k. \<exists>t \<in> set (dkeys rq2). taskname_from_tid t = Some k} = {''do_x'', ''do_y''}"
    unfolding rq2_def list.map fst_conv list.set by (auto simp only: tn option.inject bex_simps)
  have "tids_ok rq2" by (simp add: tids_ok_def rq2_def)
  from completion_map_by_kind [OF this, unfolded names]
  show ?thesis by (elim exE conjE) (rule exI, intro conjI, assumption, assumption, simp only: sum.distinct not_False_eq_True)
qed



end
