(* ===== verification/Loops.thy ===== *)
theory Loops
  imports Weights
begin

text \<open>
  The report of dependency loops, \<open>circular_depchains_handler\<close> of
  \<open>poky/bitbake/lib/bb/runqueue.py\<close>: a depth-first search along the reverse dependencies that
  memoises in \<open>explored_deps\<close> what a task reaches and stops after eleven loops.  The model returns
  the loops (\<open>valid_chains\<close>); the text of the messages is not modelled.

  The search recurses only to tasks that are not on its chain, so the number of tasks in the
  queue is fuel enough.  Every loop reported is one, and a task that reaches a loop gets at least
  one reported.
\<close>

section \<open>The search\<close>

record chain_state =
  valid_chains :: "string list list"
  explored_deps :: "(string \<times> string list) list"

definition lowest_index :: "string list \<Rightarrow> nat" where
  "lowest_index chain =
     foldl (\<lambda>lowest entry. if chain ! entry < chain ! lowest then entry else lowest) 0 [0..<length chain]"

definition chain_reorder :: "string list \<Rightarrow> string list" where
  "chain_reorder chain = drop (lowest_index chain) chain @ take (lowest_index chain) chain"

text \<open>\<open>chain_compare_equal\<close> and \<open>chain_array_contains\<close>.\<close>

definition chain_compare_equal :: "string list \<Rightarrow> string list \<Rightarrow> bool" where
  "chain_compare_equal c1 c2 \<longleftrightarrow>
     length c1 = length c2 \<and> list_all (\<lambda>i. c1 ! i = c2 ! i) [0..<length c1]"

definition chain_array_contains :: "string list \<Rightarrow> string list list \<Rightarrow> bool" where
  "chain_array_contains chain chain_array \<longleftrightarrow> list_ex (\<lambda>ch. chain_compare_equal ch chain) chain_array"

text \<open>A dependency that is on the chain already closes a loop.\<close>

definition report_chain :: "string list \<Rightarrow> string \<Rightarrow> chain_state \<Rightarrow> unit result \<times> chain_state" where
  "report_chain prev revdep st =
     (let idx = (case index_of prev revdep of None \<Rightarrow> 0 | Some i \<Rightarrow> i);
          new_chain = chain_reorder (drop idx prev);
          st1 = (if chain_array_contains new_chain (valid_chains st) then st
                 else st\<lparr>valid_chains := valid_chains st @ [new_chain]\<rparr>)
      in (if length (valid_chains st1) > 10 then Inl TooManyLoops else Inr (), st1))"

definition must_scan :: "string list \<Rightarrow> string \<Rightarrow> chain_state \<Rightarrow> bool" where
  "must_scan prev revdep st \<longleftrightarrow>
     (case dget (explored_deps st) revdep of
        None \<Rightarrow> True
      | Some ds \<Rightarrow> revdep \<in> set ds \<or> list_ex (\<lambda>dep. dep \<in> set ds) prev)"

text \<open>The body of the loop over \<open>revdeps\<close>; the state carries \<open>total_deps\<close> along.\<close>

definition chain_dep ::
  "(string \<Rightarrow> string list \<Rightarrow> chain_state \<Rightarrow> unit result \<times> chain_state) \<Rightarrow> string list \<Rightarrow> string \<Rightarrow>
     string list \<times> chain_state \<Rightarrow> unit result \<times> (string list \<times> chain_state)"
where
  "chain_dep ff prev revdep tst =
     (case tst of (total_deps, st) \<Rightarrow>
        if revdep \<in> set prev
        then (case report_chain prev revdep st of (r, st1) \<Rightarrow> (r, (total_deps, st1)))
        else (case (if must_scan prev revdep st then ff revdep prev st else (Inr (), st)) of
                (Inl e, st1) \<Rightarrow> (Inl e, (total_deps, st1))
              | (Inr _, st1) \<Rightarrow>
                  (case dget (explored_deps st1) revdep of
                     None \<Rightarrow> (Inl KeyError, (total_deps, st1))
                   | Some ds \<Rightarrow> (Inr (), (foldl (\<lambda>t d. append_new d t) total_deps ds, st1)))))"

fun find_chains :: "nat \<Rightarrow> runq \<Rightarrow> string \<Rightarrow> string list \<Rightarrow> chain_state \<Rightarrow> unit result \<times> chain_state" where
  "find_chains 0 rq tid prev_chain st = (Inl OutOfFuel, st)"
| "find_chains (Suc n) rq tid prev_chain st =
     (case dget rq tid of
        None \<Rightarrow> (Inl KeyError, st)
      | Some e \<Rightarrow>
          (case foreach (chain_dep (find_chains n rq) (prev_chain @ [tid])) (revdeps e) (revdeps e, st) of
             (Inl x, (_, st1)) \<Rightarrow> (Inl x, st1)
           | (Inr _, (total_deps, st1)) \<Rightarrow>
               (Inr (), st1\<lparr>explored_deps := dset tid total_deps (explored_deps st1)\<rparr>)))"

definition circular_depchains_handler :: "runq \<Rightarrow> string list \<Rightarrow> string list list result" where
  "circular_depchains_handler rq tasks =
     (case foreach (\<lambda>task st. find_chains (length rq + 1) rq task [] st) tasks
             \<lparr>valid_chains = [], explored_deps = []\<rparr> of
        (Inr _, st) \<Rightarrow> Inr (valid_chains st)
      | (Inl e, st) \<Rightarrow> if e = TooManyLoops then Inr (valid_chains st) else Inl e)"

section \<open>Rotating a chain to its least task\<close>

lemma chain_array_contains_iff: "chain_array_contains c cs \<longleftrightarrow> c \<in> set cs"
proof -
  have "chain_compare_equal a b \<longleftrightarrow> a = b" for a b
    using nth_equalityI [of a b] by (auto simp: chain_compare_equal_def list_all_iff)
  then show ?thesis by (auto simp: chain_array_contains_def list_ex_iff)
qed

lemma lowest_index_min:
  assumes "xs \<noteq> []"
  shows "lowest_index xs < length xs \<and> (\<forall>y \<in> set xs. xs ! lowest_index xs \<le> y)"
proof -
  let ?f = "\<lambda>lowest entry. if xs ! entry < xs ! lowest then entry else lowest"
  have "foldl ?f 0 [0..<k] < length xs \<and> (\<forall>i < k. xs ! foldl ?f 0 [0..<k] \<le> xs ! i)" if "k \<le> length xs" for k
    using that
  proof (induction k)
    case (Suc k)
    let ?l = "foldl ?f 0 [0..<k]"
    have l: "?l < length xs" "\<And>i. i < k \<Longrightarrow> xs ! ?l \<le> xs ! i" using Suc by auto
    have "foldl ?f 0 [0..<Suc k] = (if xs ! k < xs ! ?l then k else ?l)" by simp
    then show ?case
    proof (cases "xs ! k < xs ! ?l")
      case True
      have "xs ! k \<le> xs ! i" if "i < Suc k" for i
        using True l(2) [of i] that by (cases "i = k") (simp_all add: less_le_trans less_imp_le)
      with True Suc.prems \<open>foldl ?f 0 [0..<Suc k] = _\<close> show ?thesis by simp
    next
      case False
      have "xs ! ?l \<le> xs ! i" if "i < Suc k" for i
        using False l(2) [of i] that by (cases "i = k") simp_all
      with False l(1) \<open>foldl ?f 0 [0..<Suc k] = _\<close> show ?thesis by simp
    qed
  qed (use assms in simp)
  from this [of "length xs"] show ?thesis by (auto simp: lowest_index_def in_set_conv_nth)
qed

text \<open>A loop: every task's successor on the list, cyclically, is one of its reverse dependencies.\<close>

definition is_loop :: "runq \<Rightarrow> string list \<Rightarrow> bool" where
  "is_loop rq c \<longleftrightarrow> c \<noteq> [] \<and> distinct c \<and>
     (\<forall>i < length c. c ! ((i + 1) mod length c) \<in> set (revdeps_of rq (c ! i)))"

lemma is_loop_rotate:
  assumes "is_loop rq (a @ b)" shows "is_loop rq (b @ a)"
proof -
  have rot: "b @ a = rotate (length a) (a @ b)" by (simp add: rotate_append)
  let ?c = "a @ b" and ?n = "length (a @ b)"
  have "?c ! ((length a + (i + 1) mod ?n) mod ?n) \<in> set (revdeps_of rq (?c ! ((length a + i) mod ?n)))"
    if "i < ?n" for i
  proof -
    have "(length a + (i + 1) mod ?n) mod ?n = ((length a + i) mod ?n + 1) mod ?n"
      by (simp add: mod_simps)
    moreover have "(length a + i) mod ?n < ?n" using that by (intro mod_less_divisor) auto
    ultimately show ?thesis using assms unfolding is_loop_def by metis
  qed
  then show ?thesis
    using assms unfolding rot by (auto simp: is_loop_def nth_rotate)
qed

lemma chain_reorder_loop:
  assumes "is_loop rq c"
  shows "is_loop rq (chain_reorder c) \<and> set (chain_reorder c) = set c \<and>
    (\<forall>t \<in> set c. hd (chain_reorder c) \<le> t)"
proof -
  let ?i = "lowest_index c"
  have ne: "c \<noteq> []" using assms by (simp add: is_loop_def)
  note low = lowest_index_min [OF ne]
  have "is_loop rq (take ?i c @ drop ?i c)" using assms by simp
  then have "is_loop rq (chain_reorder c)" unfolding chain_reorder_def by (rule is_loop_rotate)
  moreover have "hd (chain_reorder c) = c ! ?i"
    using low by (simp add: chain_reorder_def hd_append hd_drop_conv_nth)
  moreover have "set (chain_reorder c) = set c"
    unfolding chain_reorder_def by (metis append_take_drop_id set_append sup_commute)
  ultimately show ?thesis using low by simp
qed

section \<open>What the search knows\<close>

definition reach :: "runq \<Rightarrow> string \<Rightarrow> string set" where
  "reach rq t = {u. (t, u) \<in> {(t, u). u \<in> set (revdeps_of rq t)}\<^sup>+}"

lemma reach_step: "reach rq t = set (revdeps_of rq t) \<union> (\<Union>r \<in> set (revdeps_of rq t). reach rq r)"
proof -
  let ?R = "{(t, u). u \<in> set (revdeps_of rq t)}"
  have "(t, u) \<in> ?R\<^sup>+ \<longleftrightarrow> (t, u) \<in> ?R \<or> (\<exists>r. (t, r) \<in> ?R \<and> (r, u) \<in> ?R\<^sup>+)" for u
    by (meson r_into_trancl trancl_trans tranclD2 converse_tranclE)
  then show ?thesis by (auto simp: reach_def)
qed

definition chain_path :: "runq \<Rightarrow> string list \<Rightarrow> bool" where
  "chain_path rq c \<longleftrightarrow> distinct c \<and> set c \<subseteq> set (dkeys rq) \<and>
     (\<forall>i. Suc i < length c \<longrightarrow> c ! Suc i \<in> set (revdeps_of rq (c ! i)))"

lemma chain_path_snoc:
  "chain_path rq (c @ [t]) \<Longrightarrow> r \<in> set (revdeps_of rq t) \<Longrightarrow> r \<notin> set (c @ [t]) \<Longrightarrow> r \<in> set (dkeys rq) \<Longrightarrow>
     chain_path rq ((c @ [t]) @ [r])"
  by (auto simp: chain_path_def nth_append less_Suc_eq)

lemma chain_path_loop:
  assumes path: "chain_path rq (c @ [t])" and r: "r \<in> set (revdeps_of rq t)"
    and idx: "index_of (c @ [t]) r = Some i"
  shows "is_loop rq (drop i (c @ [t]))"
proof -
  let ?c = "c @ [t]" let ?d = "drop i ?c"
  have i: "i < length ?c" "?c ! i = r" using index_of_Some [OF idx] by auto
  have "?d ! ((j + 1) mod length ?d) \<in> set (revdeps_of rq (?d ! j))" if j: "j < length ?d" for j
  proof (cases "Suc j = length ?d")
    case True
    then have "i + j = length c" using i(1) by simp
    have "?d ! j = ?c ! (i + j)" using i(1) by (intro nth_drop) simp
    also have "\<dots> = t" unfolding \<open>i + j = length c\<close> by simp
    finally have "?d ! j = t" .
    moreover have "(j + 1) mod length ?d = 0" using True by simp
    moreover have "?d ! 0 = ?c ! i" using i(1) nth_drop [of i ?c 0] by (metis add.right_neutral less_imp_le)
    moreover note i(2)
    ultimately show ?thesis using r by simp
  next
    case False
    then have sj: "Suc j < length ?d" using j by simp
    then have "(j + 1) mod length ?d = Suc j" by simp
    moreover have "Suc (i + j) < length ?c" using sj by simp
    then have "?c ! Suc (i + j) \<in> set (revdeps_of rq (?c ! (i + j)))"
      using path unfolding chain_path_def by blast
    moreover have "?d ! Suc j = ?c ! Suc (i + j)" "?d ! j = ?c ! (i + j)"
      using i(1) nth_drop [of i ?c "Suc j"] nth_drop [of i ?c j] by auto
    ultimately show ?thesis by simp
  qed
  moreover have "distinct ?d" using path unfolding chain_path_def by (metis distinct_drop)
  ultimately show ?thesis using i(1) unfolding is_loop_def by simp
qed

text \<open>
  The state between two steps: every loop reported is one and is reported once; as long as none
  has been found, the memo holds exactly what a task reaches, and no task it knows reaches itself.
\<close>

definition clean :: "runq \<Rightarrow> string \<Rightarrow> bool" where
  "clean rq t \<longleftrightarrow> (\<forall>u \<in> insert t (reach rq t). u \<notin> reach rq u)"

definition chains_ok :: "runq \<Rightarrow> chain_state \<Rightarrow> bool" where
  "chains_ok rq st \<longleftrightarrow>
     (\<forall>c \<in> set (valid_chains st). is_loop rq c \<and> (\<forall>t \<in> set c. hd c \<le> t)) \<and>
     distinct (valid_chains st) \<and>
     (valid_chains st = [] \<longrightarrow>
       (\<forall>t ds. dget (explored_deps st) t = Some ds \<longrightarrow> set ds = reach rq t \<and> clean rq t))"

definition stopped :: "unit result \<Rightarrow> chain_state \<Rightarrow> bool" where
  "stopped r st \<longleftrightarrow> r = Inl TooManyLoops \<and> length (valid_chains st) = 11"

lemma report_chain_ok:
  assumes path: "chain_path rq p" "p = c @ [t]" and r: "r \<in> set (revdeps_of rq t)" "r \<in> set p"
    and ok: "chains_ok rq st" and len: "length (valid_chains st) \<le> 10"
  shows "\<exists>x st1. report_chain p r st = (x, st1) \<and> chains_ok rq st1 \<and> valid_chains st1 \<noteq> [] \<and>
    explored_deps st1 = explored_deps st \<and>
    (stopped x st1 \<or> x = Inr () \<and> length (valid_chains st1) \<le> 10)"
proof -
  obtain i where i: "index_of p r = Some i" using r(2) index_of_None [of p r] by fastforce
  define new where "new = chain_reorder (drop i p)"
  have "is_loop rq (drop i p)"
    using chain_path_loop [of rq c t r i] path r(1) i by simp
  from chain_reorder_loop [OF this]
  have new: "is_loop rq new" "\<forall>u \<in> set new. hd new \<le> u" by (auto simp: new_def)
  have rep: "report_chain p r st =
      (let st1 = (if new \<in> set (valid_chains st) then st
                 else st\<lparr>valid_chains := valid_chains st @ [new]\<rparr>)
       in (if length (valid_chains st1) > 10 then Inl TooManyLoops else Inr (), st1))"
    by (simp add: report_chain_def i new_def [symmetric] chain_array_contains_iff Let_def)
  show ?thesis
  proof (cases "new \<in> set (valid_chains st)")
    case True
    with ok len show ?thesis unfolding rep by (auto simp: Let_def)
  next
    case False
    with ok len new show ?thesis unfolding rep by (auto simp: Let_def chains_ok_def stopped_def)
  qed
qed

text \<open>What a call of \<open>find_chains\<close> for a task on the path promises.\<close>

definition find_post ::
  "runq \<Rightarrow> string \<Rightarrow> string list \<Rightarrow> chain_state \<Rightarrow> unit result \<times> chain_state \<Rightarrow> bool"
where
  "find_post rq t prev st res \<longleftrightarrow> (case res of (r, st') \<Rightarrow>
     chains_ok rq st' \<and> (valid_chains st \<noteq> [] \<longrightarrow> valid_chains st' \<noteq> []) \<and>
     set (dkeys (explored_deps st)) \<subseteq> set (dkeys (explored_deps st')) \<and>
     (stopped r st' \<or> r = Inr () \<and> length (valid_chains st') \<le> 10 \<and>
       t \<in> set (dkeys (explored_deps st')) \<and>
       (valid_chains st' = [] \<longrightarrow> reach rq t \<inter> set (prev @ [t]) = {})))"

lemma set_foldl_append_new: "set (foldl (\<lambda>t d. append_new d t) xs ds) = set xs \<union> set ds"
  by (induction ds arbitrary: xs) auto

text \<open>The loop over the reverse dependencies of the last task of the chain.\<close>

lemma chain_deps_ok:
  assumes path: "chain_path rq prev" "prev = c @ [t]" and closed: "set (revdeps_of rq t) \<subseteq> set (dkeys rq)"
    and ff: "\<forall>r st. r \<in> set (revdeps_of rq t) \<longrightarrow> r \<notin> set prev \<longrightarrow> chains_ok rq st \<longrightarrow>
      length (valid_chains st) \<le> 10 \<longrightarrow> find_post rq r prev st (ff r prev st)"
    and "set rs \<subseteq> set (revdeps_of rq t)" "chains_ok rq st" "length (valid_chains st) \<le> 10"
  shows "\<exists>x tots' st'. foreach (chain_dep ff prev) rs (tots, st) = (x, (tots', st')) \<and>
    chains_ok rq st' \<and> (valid_chains st \<noteq> [] \<longrightarrow> valid_chains st' \<noteq> []) \<and>
    set (dkeys (explored_deps st)) \<subseteq> set (dkeys (explored_deps st')) \<and>
    (stopped x st' \<or> x = Inr () \<and> length (valid_chains st') \<le> 10 \<and>
      (valid_chains st' = [] \<longrightarrow> set tots' = set tots \<union> (\<Union>r \<in> set rs. reach rq r) \<and>
         (\<forall>r \<in> set rs. clean rq r \<and> r \<notin> set prev \<and> reach rq r \<inter> set prev = {})))"
  using assms(5-)
proof (induction rs arbitrary: tots st)
  case (Cons r rs)
  have r: "r \<in> set (revdeps_of rq t)" using Cons.prems(1) by simp
  show ?case
  proof (cases "r \<in> set prev")
    case True
    from report_chain_ok [OF path r True Cons.prems(2,3)]
    obtain x st1 where rep: "report_chain prev r st = (x, st1)" "chains_ok rq st1" "valid_chains st1 \<noteq> []"
      "explored_deps st1 = explored_deps st" "stopped x st1 \<or> x = Inr () \<and> length (valid_chains st1) \<le> 10"
      by blast
    have step: "chain_dep ff prev r (tots, st) = (x, (tots, st1))"
      using True rep(1) by (simp add: chain_dep_def)
    show ?thesis
    proof (cases "x = Inr ()")
      case True
      then have "length (valid_chains st1) \<le> 10" using rep(5) by (auto simp: stopped_def)
      from Cons.IH [OF _ rep(2) this, of tots] Cons.prems(1) rep(3,4) step True
      show ?thesis by (auto simp: stopped_def)
    next
      case False
      with rep step show ?thesis by (auto simp: stopped_def)
    qed
  next
    case False
    let ?res = "if must_scan prev r st then ff r prev st else (Inr (), st)"
    have post: "find_post rq r prev st ?res"
    proof (cases "must_scan prev r st")
      case True
      with ff [rule_format, OF r False Cons.prems(2,3)] show ?thesis by simp
    next
      case no: False
      then obtain ds where ds: "dget (explored_deps st) r = Some ds" "r \<notin> set ds" "\<forall>d \<in> set prev. d \<notin> set ds"
        by (auto simp: must_scan_def list_ex_iff split: option.splits)
      have "r \<in> set (dkeys (explored_deps st))" using ds(1) dget_in_dkeys [of r "explored_deps st"] by blast
      moreover have "reach rq r \<inter> set (prev @ [r]) = {}" if "valid_chains st = []"
      proof -
        have "set ds = reach rq r" using Cons.prems(2) ds(1) that by (simp add: chains_ok_def)
        with ds(2,3) show ?thesis by auto
      qed
      ultimately show ?thesis using no Cons.prems(2,3) by (simp add: find_post_def)
    qed
    obtain x st1 where res: "?res = (x, st1)" by fastforce
    note post = post [unfolded res find_post_def prod.case]
    show ?thesis
    proof (cases "stopped x st1")
      case True
      then have "chain_dep ff prev r (tots, st) = (x, (tots, st1))"
        using False res by (auto simp: chain_dep_def stopped_def)
      with True post show ?thesis by (auto simp: stopped_def)
    next
      case not_stopped: False
      with post have p: "x = Inr ()" "length (valid_chains st1) \<le> 10" "r \<in> set (dkeys (explored_deps st1))"
        "valid_chains st1 = [] \<longrightarrow> reach rq r \<inter> set (prev @ [r]) = {}" "chains_ok rq st1" by blast+
      obtain ds where ds: "dget (explored_deps st1) r = Some ds" using dget_in_dkeys [of r "explored_deps st1", THEN iffD1, OF p(3)] by blast
      let ?tots = "foldl (\<lambda>t d. append_new d t) tots ds"
      have step: "chain_dep ff prev r (tots, st) = (Inr (), (?tots, st1))"
        using False res p(1) ds by (simp add: chain_dep_def)
      have tot: "set ?tots = set tots \<union> reach rq r" "clean rq r" if "valid_chains st1 = []"
        using p(5) ds that by (simp_all add: chains_ok_def set_foldl_append_new)
      from Cons.IH [OF _ p(5) p(2), of ?tots] Cons.prems(1)
      obtain x2 tot2 st2 where IH: "foreach (chain_dep ff prev) rs (?tots, st1) = (x2, (tot2, st2))"
        "chains_ok rq st2" "valid_chains st1 \<noteq> [] \<longrightarrow> valid_chains st2 \<noteq> []"
        "set (dkeys (explored_deps st1)) \<subseteq> set (dkeys (explored_deps st2))"
        "stopped x2 st2 \<or> x2 = Inr () \<and> length (valid_chains st2) \<le> 10 \<and>
          (valid_chains st2 = [] \<longrightarrow> set tot2 = set ?tots \<union> (\<Union>r \<in> set rs. reach rq r) \<and>
             (\<forall>r \<in> set rs. clean rq r \<and> r \<notin> set prev \<and> reach rq r \<inter> set prev = {}))" by auto
      have "foreach (chain_dep ff prev) (r # rs) (tots, st) = (x2, (tot2, st2))"
        using step IH(1) by simp
      moreover have "set (dkeys (explored_deps st)) \<subseteq> set (dkeys (explored_deps st2))"
        using post IH(4) by blast
      moreover have "valid_chains st \<noteq> [] \<longrightarrow> valid_chains st2 \<noteq> []" using post IH(3) by blast
      moreover have "set tot2 = set tots \<union> (\<Union>r \<in> set (r # rs). reach rq r) \<and>
          (\<forall>r \<in> set (r # rs). clean rq r \<and> r \<notin> set prev \<and> reach rq r \<inter> set prev = {})"
        if "valid_chains st2 = []" "\<not> stopped x2 st2"
      proof -
        have "valid_chains st1 = []" using IH(3) that(1) by blast
        with IH(5) that tot p(4) False show ?thesis by auto
      qed
      ultimately show ?thesis
        using IH(2,5) by (intro exI [of _ x2] exI [of _ tot2] exI [of _ st2]) blast
    qed
  qed
qed simp

lemma find_chains_ok:
  assumes "\<forall>t. set (revdeps_of rq t) \<subseteq> set (dkeys rq)"
    and "chain_path rq (prev @ [t])" "length rq < n + length prev"
    and "chains_ok rq st" "length (valid_chains st) \<le> 10"
  shows "find_post rq t prev st (find_chains n rq t prev st)"
  using assms
proof (induction n arbitrary: t prev st)
  case 0
  have "length (prev @ [t]) \<le> length rq"
    using 0(2) card_mono [of "set (dkeys rq)" "set (prev @ [t])"] card_length [of "dkeys rq"]
    unfolding chain_path_def by (metis List.finite_set distinct_card le_trans length_map)
  with 0(3) show ?case by simp
next
  case (Suc n)
  let ?p = "prev @ [t]"
  have "t \<in> set (dkeys rq)" using Suc.prems(2) by (simp add: chain_path_def)
  then obtain e where e: "dget rq t = Some e" using dget_in_dkeys [of t rq, THEN iffD1] by blast
  then have rev: "revdeps_of rq t = revdeps e" by (simp add: revdeps_of_def)
  have closed: "set (revdeps_of rq t) \<subseteq> set (dkeys rq)" using Suc.prems(1) by blast
  have ff: "find_post rq r ?p s (find_chains n rq r ?p s)"
    if "r \<in> set (revdeps_of rq t)" "r \<notin> set ?p" "chains_ok rq s" "length (valid_chains s) \<le> 10" for r s
  proof (rule Suc.IH [OF Suc.prems(1) _ _ that(3,4)])
    show "chain_path rq (?p @ [r])"
      using chain_path_snoc [OF Suc.prems(2) that(1,2)] that(1) closed by blast
    show "length rq < n + length ?p" using Suc.prems(3) by simp
  qed
  then have "\<forall>r s. r \<in> set (revdeps_of rq t) \<longrightarrow> r \<notin> set ?p \<longrightarrow> chains_ok rq s \<longrightarrow>
      length (valid_chains s) \<le> 10 \<longrightarrow> find_post rq r ?p s (find_chains n rq r ?p s)" by blast
  from chain_deps_ok [where ff = "find_chains n rq" and t = t and c = prev and prev = ?p and
      rs = "revdeps_of rq t" and tots = "revdeps e",
    OF Suc.prems(2) refl closed this subset_refl Suc.prems(4,5)]
  obtain x tot1 st1 where r: "foreach (chain_dep (find_chains n rq) ?p) (revdeps e) (revdeps e, st) = (x, (tot1, st1))"
    "chains_ok rq st1" "valid_chains st \<noteq> [] \<longrightarrow> valid_chains st1 \<noteq> []"
    "set (dkeys (explored_deps st)) \<subseteq> set (dkeys (explored_deps st1))"
    "stopped x st1 \<or> x = Inr () \<and> length (valid_chains st1) \<le> 10 \<and>
      (valid_chains st1 = [] \<longrightarrow> set tot1 = set (revdeps e) \<union> (\<Union>r \<in> set (revdeps e). reach rq r) \<and>
         (\<forall>r \<in> set (revdeps e). clean rq r \<and> r \<notin> set ?p \<and> reach rq r \<inter> set ?p = {}))"
    unfolding rev by (elim exE conjE) (rule that, assumption+)
  show ?case
  proof (cases "stopped x st1")
    case True
    with e r show ?thesis by (auto simp: find_post_def stopped_def)
  next
    case False
    with r(5) have x: "x = Inr ()" "length (valid_chains st1) \<le> 10" by blast+
    let ?st2 = "st1\<lparr>explored_deps := dset t tot1 (explored_deps st1)\<rparr>"
    have run: "find_chains (Suc n) rq t prev st = (Inr (), ?st2)" using e r(1) x by simp
    have none: "set tot1 = reach rq t \<and> clean rq t \<and> reach rq t \<inter> set ?p = {}" if "valid_chains st1 = []"
    proof -
      have s: "set tot1 = set (revdeps e) \<union> (\<Union>r \<in> set (revdeps e). reach rq r)"
        "\<forall>r \<in> set (revdeps e). clean rq r \<and> r \<notin> set ?p \<and> reach rq r \<inter> set ?p = {}"
        using r(5) False that by blast+
      have step: "reach rq t = set (revdeps e) \<union> (\<Union>r \<in> set (revdeps e). reach rq r)"
        using reach_step [of rq t] unfolding rev .
      have 1: "set tot1 = reach rq t" unfolding step by (rule s(1))
      have 2: "reach rq t \<inter> set ?p = {}" unfolding step using s(2) by blast
      then have "t \<notin> reach rq t" by auto
      moreover have "u \<notin> reach rq u" if "u \<in> reach rq t" for u
        using that s(2) unfolding step clean_def by blast
      ultimately show ?thesis using 1 2 by (simp add: clean_def)
    qed
    have "chains_ok rq ?st2"
      using r(2) none by (auto simp: chains_ok_def)
    then show ?thesis
      unfolding run using r(3,4) x none by (auto simp: find_post_def)
  qed
qed

section \<open>The report\<close>

lemma circular_depchains_ok:
  assumes "graph_ok rq" and "set ts \<subseteq> set (dkeys rq)"
  shows "\<exists>cs. circular_depchains_handler rq ts = Inr cs \<and>
    (\<forall>c \<in> set cs. is_loop rq c \<and> (\<forall>t \<in> set c. hd c \<le> t)) \<and> distinct cs \<and> length cs \<le> 11 \<and>
    ((\<exists>t \<in> set ts. \<exists>u. (u = t \<or> u \<in> reach rq t) \<and> u \<in> reach rq u) \<longrightarrow> cs \<noteq> [])"
proof -
  let ?find = "\<lambda>task st. find_chains (length rq + 1) rq task [] st"
  have closed: "\<forall>t. set (revdeps_of rq t) \<subseteq> set (dkeys rq)" using assms(1) by (simp add: graph_ok_def)
  have loop: "\<exists>x st'. foreach ?find us st = (x, st') \<and> chains_ok rq st' \<and>
      (valid_chains st \<noteq> [] \<longrightarrow> valid_chains st' \<noteq> []) \<and>
      (stopped x st' \<or> x = Inr () \<and> length (valid_chains st') \<le> 10 \<and>
        (valid_chains st' = [] \<longrightarrow> (\<forall>t \<in> set us. clean rq t)))"
    if "set us \<subseteq> set (dkeys rq)" "chains_ok rq st" "length (valid_chains st) \<le> 10" for us st
    using that
  proof (induction us arbitrary: st)
    case (Cons t us)
    have "chain_path rq ([] @ [t])" using Cons.prems(1) by (simp add: chain_path_def)
    from find_chains_ok [OF closed this _ Cons.prems(2,3), of "length rq + 1"]
    have post: "find_post rq t [] st (?find t st)" by simp
    obtain x st1 where res: "?find t st = (x, st1)" by fastforce
    note post = post [unfolded res find_post_def prod.case]
    show ?case
    proof (cases "stopped x st1")
      case True
      with post res show ?thesis by (auto simp: stopped_def)
    next
      case False
      with post have p: "x = Inr ()" "length (valid_chains st1) \<le> 10" "chains_ok rq st1"
        "t \<in> set (dkeys (explored_deps st1))" by blast+
      have "set us \<subseteq> set (dkeys rq)" using Cons.prems(1) by simp
      from Cons.IH [OF this p(3,2)]
      obtain x2 st2 where IH: "foreach ?find us st1 = (x2, st2)" "chains_ok rq st2"
        "valid_chains st1 \<noteq> [] \<longrightarrow> valid_chains st2 \<noteq> []"
        "stopped x2 st2 \<or> x2 = Inr () \<and> length (valid_chains st2) \<le> 10 \<and>
          (valid_chains st2 = [] \<longrightarrow> (\<forall>t \<in> set us. clean rq t))" by blast
      have "clean rq t" if "valid_chains st2 = []"
      proof -
        have "valid_chains st1 = []" using IH(3) that by blast
        then show ?thesis
          using p(3) dget_in_dkeys [of t "explored_deps st1", THEN iffD1, OF p(4)]
          unfolding chains_ok_def by blast
      qed
      moreover have "foreach ?find (t # us) st = (x2, st2)" using res p(1) IH(1) by simp
      moreover have "valid_chains st \<noteq> [] \<longrightarrow> valid_chains st2 \<noteq> []" using post IH(3) by blast
      ultimately show ?thesis using IH(2,4) by auto
    qed
  qed simp
  have "chains_ok rq \<lparr>valid_chains = [], explored_deps = []\<rparr>" by (simp add: chains_ok_def)
  from loop [OF assms(2) this]
  obtain x st' where r: "foreach ?find ts \<lparr>valid_chains = [], explored_deps = []\<rparr> = (x, st')"
    "chains_ok rq st'" "stopped x st' \<or> x = Inr () \<and> length (valid_chains st') \<le> 10 \<and>
        (valid_chains st' = [] \<longrightarrow> (\<forall>t \<in> set ts. clean rq t))" by auto
  have "circular_depchains_handler rq ts = Inr (valid_chains st')"
    unfolding circular_depchains_handler_def r(1) using r(3) by (auto simp: stopped_def)
  moreover have "length (valid_chains st') \<le> 11" using r(3) by (auto simp: stopped_def)
  moreover have "valid_chains st' \<noteq> []" if "t \<in> set ts" "u = t \<or> u \<in> reach rq t" "u \<in> reach rq u" for t u
    using r(3) that by (auto simp: stopped_def clean_def)
  ultimately show ?thesis using r(2) unfolding chains_ok_def by blast
qed

text \<open>
  C22: on a consistent queue the search ends without an error.  Every chain it reports is a loop
  of distinct tasks, least task first, each reported once and at most eleven in all; and when
  one of the given tasks lies on a loop or reaches one, something is reported.
\<close>

theorem circular_depchains_sound_complete:
  assumes "graph_ok rq" and "set ts \<subseteq> set (dkeys rq)"
  shows "\<exists>cs. circular_depchains_handler rq ts = Inr cs \<and>
    (\<forall>c \<in> set cs. is_loop rq c \<and> (\<forall>t \<in> set c. hd c \<le> t)) \<and> distinct cs \<and> length cs \<le> 11 \<and>
    ((\<exists>t \<in> set ts. \<exists>u. (u = t \<or> u \<in> reach rq t) \<and> u \<in> reach rq u) \<longrightarrow> cs \<noteq> [])"
  using circular_depchains_ok [OF assms] .

lemma unbuildable_loop:
  assumes ok: "graph_ok rq" and t: "t \<in> set (dkeys rq)" "\<not> buildable rq t"
  obtains u where "u \<in> set (dkeys rq)" "\<not> buildable rq u" "u \<in> reach rq u"
proof (rule ccontr)
  let ?R = "{(t, u). u \<in> set (revdeps_of rq t)}"
  let ?N = "{t \<in> set (dkeys rq). \<not> buildable rq t}"
  let ?S = "{(t, u). t \<in> ?N \<and> u \<in> ?N \<and> u \<in> set (revdeps_of rq t)}"
  assume "\<not> thesis"
  with that have none: "u \<notin> reach rq u" if "u \<in> ?N" for u using that by blast
  have "?S\<^sup>+ \<subseteq> ?R\<^sup>+" by (rule trancl_mono_subset) auto
  moreover have "x \<in> ?N" if "(x, y) \<in> ?S\<^sup>+" for x y using that by (cases rule: converse_tranclE) auto
  ultimately have "acyclic ?S"
    using none unfolding acyclic_def reach_def by blast
  moreover have "finite ?S"
    by (rule finite_subset [of _ "set (dkeys rq) \<times> set (dkeys rq)"]) auto
  ultimately have "wf (?S\<inverse>)" by (intro finite_acyclic_wf_converse)
  then obtain u where u: "u \<in> ?N" "\<And>s. (s, u) \<in> ?S\<inverse> \<Longrightarrow> s \<notin> ?N"
    using t by (elim wfE_min [of _ t ?N]) auto
  then obtain s where s: "s \<in> set (revdeps_of rq u)" "\<not> buildable rq s"
    using buildable_step [of rq u] by blast
  moreover have "s \<in> set (dkeys rq)" using ok s(1) unfolding graph_ok_def by blast
  ultimately show False using u by auto
qed

text \<open>
  C31: whenever the walk leaves problem tasks, so that the program ends, the report made of them
  shows at least one loop.
\<close>

theorem problem_tasks_reported:
  assumes "graph_ok rq" and "es = filter (\<lambda>t. revdeps_of rq t = []) (dkeys rq)"
    and "kahn_loop rq es (kahn_init rq es) = (r, k)" and "problem_tasks rq k \<noteq> []"
  shows "\<exists>cs. circular_depchains_handler rq (problem_tasks rq k) = Inr cs \<and> cs \<noteq> []"
proof -
  obtain t where t: "t \<in> set (problem_tasks rq k)" using hd_in_set [OF assms(4)] by blast
  have iff: "u \<in> set (problem_tasks rq k) \<longleftrightarrow> u \<in> set (dkeys rq) \<and> \<not> buildable rq u" for u
    using problem_tasks_unbuildable [OF assms(1,2,3)] .
  obtain u where u: "u \<in> set (problem_tasks rq k)" "u \<in> reach rq u"
    using unbuildable_loop [OF assms(1), of t] t unfolding iff by blast
  have "set (problem_tasks rq k) \<subseteq> set (dkeys rq)" using iff by blast
  from circular_depchains_ok [OF assms(1) this] u show ?thesis by blast
qed

text \<open>The queue with a cycle of three, its reverse dependencies filled in.\<close>

definition loop3 :: runq where
  "loop3 = [(''a:x'', new_entry\<lparr>depends := [''b:x''], revdeps := [''c:x'']\<rparr>),
            (''b:x'', new_entry\<lparr>depends := [''c:x''], revdeps := [''a:x'']\<rparr>),
            (''c:x'', new_entry\<lparr>depends := [''a:x''], revdeps := [''b:x'']\<rparr>)]"

lemma loop3_ok: "graph_ok loop3"
  by (auto simp: graph_ok_def loop3_def new_entry_def wf_dict_def depends_of_def revdeps_of_def)

theorem circular_depchains_sound_complete_witness:
  "\<exists>cs. circular_depchains_handler loop3 [''a:x''] = Inr cs \<and> cs \<noteq> [] \<and> length cs \<le> 11"
proof -
  have "''c:x'' \<in> reach loop3 ''a:x''" "''b:x'' \<in> reach loop3 ''c:x''" "''a:x'' \<in> reach loop3 ''b:x''"
    by (simp_all add: reach_def loop3_def revdeps_of_def new_entry_def r_into_trancl)
  then have "''a:x'' \<in> reach loop3 ''a:x''" unfolding reach_def by (blast intro: trancl_trans)
  moreover have "set [''a:x''] \<subseteq> set (dkeys loop3)" by (simp add: loop3_def)
  ultimately show ?thesis
    using circular_depchains_sound_complete [OF loop3_ok, of "[''a:x'']"] by auto
qed

theorem problem_tasks_reported_witness:
  "\<exists>cs. circular_depchains_handler loop3 (problem_tasks loop3 (snd (kahn_loop loop3 [] (kahn_init loop3 [])))) =
     Inr cs \<and> cs \<noteq> []"
proof -
  have es: "[] = filter (\<lambda>t. revdeps_of loop3 t = []) (dkeys loop3)"
    by (simp add: loop3_def revdeps_of_def new_entry_def)
  have "problem_tasks loop3 (snd (kahn_loop loop3 [] (kahn_init loop3 []))) \<noteq> []"
    by (subst kahn_loop.simps)
      (simp add: kahn_round_def kahn_init_def problem_tasks_def loop3_def dget_or_def new_entry_def)
  from problem_tasks_reported [OF loop3_ok es _ this] show ?thesis by (metis prod.collapse)
qed

end
