(* ===== verification/RunDeps.thy ===== *)
theory RunDeps
  imports Weights Taskdata
begin

text \<open>
  Step A of \<open>RunQueueData.prepare\<close> in \<open>poky/bitbake/lib/bb/runqueue.py\<close>: from the target tables of
  every configuration to the dependencies of every task.  \<open>prep\<close> is the state of the method: the
  \<open>TaskData\<close> objects (\<open>add_mc_dependencies\<close> appends to their entries), \<open>runtaskentries\<close> and the
  dicts of recursive tasks.  \<open>T\<close> gives the tables of a configuration's cache.
\<close>

section \<open>State\<close>

record prep =
  p_td :: "(string \<times> td_state) list"
  p_rq :: runq
  recursivetasks :: "(string \<times> string list) list"
  recursiveitasks :: "(string \<times> string list) list"
  recursivetasksselfref :: "string list"

definition first_provider :: "(string \<times> string list) list \<Rightarrow> string \<Rightarrow> string option" where
  "first_provider targets name =
     (case dget targets name of Some (fn # _) \<Rightarrow> Some fn | _ \<Rightarrow> None)"

text \<open>The common body of \<open>add_build_dependencies\<close> and \<open>add_runtime_dependencies\<close>.\<close>

definition add_named :: "string list \<Rightarrow> string list \<Rightarrow> string \<Rightarrow> string list \<Rightarrow> string list" where
  "add_named entries tasknames fn ds =
     foldl (\<lambda>ds name. if fn @ '':'' @ name \<in> set entries then append_new (fn @ '':'' @ name) ds else ds)
       ds tasknames"

definition add_dependencies ::
  "(string \<times> string list) list \<Rightarrow> string list \<Rightarrow> string list \<Rightarrow> string list \<Rightarrow> string list \<Rightarrow> string list"
where
  "add_dependencies targets entries ids tasknames ds =
     foldl (\<lambda>ds name. case first_provider targets name of
                        None \<Rightarrow> ds | Some fn \<Rightarrow> add_named entries tasknames fn ds) ds ids"

definition add_build_dependencies :: "td_state \<Rightarrow> string list \<Rightarrow> string list \<Rightarrow> string list \<Rightarrow> string list" where
  "add_build_dependencies td = add_dependencies (build_targets td) (dkeys (taskentries td))"

definition add_runtime_dependencies :: "td_state \<Rightarrow> string list \<Rightarrow> string list \<Rightarrow> string list \<Rightarrow> string list" where
  "add_runtime_dependencies td = add_dependencies (run_targets td) (dkeys (taskentries td))"

text \<open>One multiconfig dependency \<open>mc:from:to:recipe:task\<close>.\<close>

definition add_mc_dependency :: "string \<Rightarrow> string \<Rightarrow> string \<Rightarrow> prep \<Rightarrow> unit result \<times> prep" where
  "add_mc_dependency mc tid dep st =
     (case split_on (CHR '':'') dep of
        (_ # frommc # mcdep # pn # deptask # _) \<Rightarrow>
          (case dget (p_td st) mcdep of
             None \<Rightarrow> (Inl Fatal, st)
           | Some tdep \<Rightarrow>
               if mc = frommc then
                 (case dget (build_targets tdep) pn of
                    None \<Rightarrow> (Inl KeyError, st)
                  | Some [] \<Rightarrow> (Inl IndexError, st)
                  | Some (fn # _) \<Rightarrow>
                      (case dget (p_td st) mc of
                         None \<Rightarrow> (Inl KeyError, st)
                       | Some td \<Rightarrow>
                           (Inr (), st\<lparr>p_td := dset mc
                              (upd_entry tid (\<lambda>e. e\<lparr>tdepends := tdepends e @ [fn @ '':'' @ deptask]\<rparr>) td)
                              (p_td st)\<rparr>)))
               else (Inr (), st))
      | _ \<Rightarrow> (Inl IndexError, st))"

definition add_mc_dependencies :: "string \<Rightarrow> string \<Rightarrow> prep \<Rightarrow> unit result \<times> prep" where
  "add_mc_dependencies mc tid st =
     (case dget (p_td st) mc of
        None \<Rightarrow> (Inl KeyError, st)
      | Some td \<Rightarrow> foreach (add_mc_dependency mc tid) (mcdepends td) st)"

section \<open>The dependencies of one task\<close>

fun add_tdepends :: "string list \<Rightarrow> string list \<Rightarrow> string list result" where
  "add_tdepends [] ds = Inr ds"
| "add_tdepends (t # ts) ds =
     (case split_tid_mcfn t of
        None \<Rightarrow> Inl ValueError
      | Some (depmc, depfn, deptaskname, _) \<Rightarrow>
          add_tdepends ts (append_new (build_tid depmc depfn deptaskname) ds))"

text \<open>Inter-task dependencies: a provider without the task named ends the program.\<close>

fun add_idepends :: "td_state \<Rightarrow> (string \<times> string) list \<Rightarrow> string list \<Rightarrow> string list result" where
  "add_idepends td [] ds = Inr ds"
| "add_idepends td ((depname, idependtask) # ids) ds =
     (case first_provider (build_targets td) depname of
        Some fn \<Rightarrow>
          if depname \<in> set (failed_deps td) then add_idepends td ids ds
          else if fn @ '':'' @ idependtask \<notin> set (dkeys (taskentries td)) then Inl Fatal
          else add_idepends td ids (append_new (fn @ '':'' @ idependtask) ds)
      | None \<Rightarrow> add_idepends td ids ds)"

fun add_irdepends :: "td_state \<Rightarrow> (string \<times> string) list \<Rightarrow> string list \<Rightarrow> string list result" where
  "add_irdepends td [] ds = Inr ds"
| "add_irdepends td ((depname, idependtask) # ids) ds =
     (case first_provider (run_targets td) depname of
        Some fn \<Rightarrow>
          if fn @ '':'' @ idependtask \<notin> set (dkeys (taskentries td)) then Inl Fatal
          else add_irdepends td ids (append_new (fn @ '':'' @ idependtask) ds)
      | None \<Rightarrow> add_irdepends td ids ds)"

definition add_deptask :: "td_state \<Rightarrow> task_deps \<Rightarrow> string \<Rightarrow> string \<Rightarrow> string list \<Rightarrow> string list result" where
  "add_deptask td tdeps taskfn taskname ds =
     (case task_flag tdeps ''deptask'' taskname of
        None \<Rightarrow> Inr ds
      | Some v \<Rightarrow>
          (case dget (depids td) taskfn of
             None \<Rightarrow> Inl KeyError | Some ids \<Rightarrow> Inr (add_build_dependencies td ids (split_ws v) ds)))"

definition add_rdeptask :: "td_state \<Rightarrow> task_deps \<Rightarrow> string \<Rightarrow> string \<Rightarrow> string list \<Rightarrow> string list result" where
  "add_rdeptask td tdeps taskfn taskname ds =
     (case task_flag tdeps ''rdeptask'' taskname of
        None \<Rightarrow> Inr ds
      | Some v \<Rightarrow>
          (case dget (rdepids td) taskfn of
             None \<Rightarrow> Inl KeyError | Some ids \<Rightarrow> Inr (add_runtime_dependencies td ids (split_ws v) ds)))"

text \<open>Part A of the recursive dependencies: the task names and the tasks of \<open>recideptask\<close> are noted.\<close>

definition note_recursive ::
  "td_state \<Rightarrow> task_deps \<Rightarrow> string \<Rightarrow> string \<times> string \<times> string \<times> string \<Rightarrow> string list \<Rightarrow> prep \<Rightarrow>
     string list result \<times> prep"
where
  "note_recursive td tdeps tid parts ds st =
     (case parts of (mc, fn, taskname, taskfn) \<Rightarrow>
        (case task_flag tdeps ''recrdeptask'' taskname of
           None \<Rightarrow> (Inr ds, st)
         | Some v \<Rightarrow>
             (let tasknames = split_ws v;
                  st1 = st\<lparr>recursivetasks := dset tid tasknames (recursivetasks st)\<rparr>
              in case (dget (depids td) taskfn, dget (rdepids td) taskfn) of
                   (Some ids, Some rids) \<Rightarrow>
                     (let ds1 = add_runtime_dependencies td rids tasknames
                                  (add_build_dependencies td ids tasknames ds);
                          st2 = (if taskname \<in> set tasknames
                                 then st1\<lparr>recursivetasksselfref := append_new tid (recursivetasksselfref st1)\<rparr>
                                 else st1)
                      in (Inr ds1,
                          case task_flag tdeps ''recideptask'' taskname of
                            None \<Rightarrow> st2
                          | Some w \<Rightarrow>
                              st2\<lparr>recursiveitasks :=
                                dset tid (map (build_tid mc fn) (split_ws w)) (recursiveitasks st2)\<rparr>))
                 | _ \<Rightarrow> (Inl KeyError, st1))))"

definition set_depends :: "string \<Rightarrow> string list \<Rightarrow> prep \<Rightarrow> prep" where
  "set_depends tid ds st =
     (case dget (p_rq st) tid of
        None \<Rightarrow> st
      | Some e \<Rightarrow> st\<lparr>p_rq := dset tid (e\<lparr>depends := removeAll tid ds\<rparr>) (p_rq st)\<rparr>)"

text \<open>The dependency set that the code builds up before the recursive part.\<close>

definition direct_depends ::
  "td_state \<Rightarrow> task_deps \<Rightarrow> task_entry \<Rightarrow> string \<Rightarrow> string \<Rightarrow> string list result"
where
  "direct_depends td tdeps e taskfn taskname =
     bind_res (add_tdepends (tdepends e) []) (\<lambda>d1.
     bind_res (add_deptask td tdeps taskfn taskname d1) (\<lambda>d2.
     bind_res (add_rdeptask td tdeps taskfn taskname d2) (\<lambda>d3.
     bind_res (add_idepends td (idepends e) d3) (\<lambda>d4.
       add_irdepends td (irdepends e) d4))))"

text \<open>Everything after the multiconfig dependencies: \<open>parts\<close> are the parts of the task's id.\<close>

definition resolve_task ::
  "(string \<Rightarrow> tables) \<Rightarrow> string \<Rightarrow> string \<times> string \<times> string \<times> string \<Rightarrow> prep \<Rightarrow> unit result \<times> prep"
where
  "resolve_task T tid parts st =
     (case parts of (mc, fn, taskname, taskfn) \<Rightarrow>
        (case dget (p_td st) mc of
           None \<Rightarrow> (Inl KeyError, st)
         | Some td \<Rightarrow>
             (case dget (taskentries td) tid of
                None \<Rightarrow> (Inl KeyError, st)
              | Some e \<Rightarrow>
                  (case direct_depends td (t_deps (T mc) taskfn) e taskfn taskname of
                     Inl x \<Rightarrow> (Inl x, st)
                   | Inr ds \<Rightarrow>
                       (case note_recursive td (t_deps (T mc) taskfn) tid parts ds st of
                          (Inl x, st1) \<Rightarrow> (Inl x, st1)
                        | (Inr ds1, st1) \<Rightarrow> (Inr (), set_depends tid ds1 st1))))))"

definition add_mc_part ::
  "(string \<Rightarrow> tables) \<Rightarrow> string \<Rightarrow> string \<times> string \<times> string \<times> string \<Rightarrow> prep \<Rightarrow> unit result \<times> prep"
where
  "add_mc_part T tid parts st =
     (case parts of (mc, fn, taskname, taskfn) \<Rightarrow>
        (case task_flag (t_deps (T mc) taskfn) ''mcdepends'' taskname of
           None \<Rightarrow> (Inr (), st) | Some _ \<Rightarrow> add_mc_dependencies mc tid st))"

text \<open>The body of the loop over the entries of a configuration.\<close>

definition prep_task :: "(string \<Rightarrow> tables) \<Rightarrow> string \<Rightarrow> prep \<Rightarrow> unit result \<times> prep" where
  "prep_task T tid st =
     (case split_tid_mcfn tid of
        None \<Rightarrow> (Inl ValueError, st)
      | Some (mc, fn, taskname, taskfn) \<Rightarrow>
          (let st1 = st\<lparr>p_rq := dset tid new_entry (p_rq st)\<rparr>
           in case dget (p_td st1) mc of
                None \<Rightarrow> (Inl KeyError, st1)
              | Some td \<Rightarrow>
                  if fn \<in> set (failed_fns td) then (Inr (), st1)
                  else seq_st (add_mc_part T tid (mc, fn, taskname, taskfn) st1)
                         (resolve_task T tid (mc, fn, taskname, taskfn))))"

definition prep_tasks :: "(string \<Rightarrow> tables) \<Rightarrow> prep \<Rightarrow> unit result \<times> prep" where
  "prep_tasks T st =
     foreach (\<lambda>mc s. case dget (p_td s) mc of
                None \<Rightarrow> (Inl KeyError, s)
              | Some td \<Rightarrow> foreach (prep_task T) (dkeys (taskentries td)) s) (dkeys (p_td st)) st"

definition init_prep :: "(string \<times> td_state) list \<Rightarrow> prep" where
  "init_prep tds = \<lparr>p_td = tds, p_rq = [], recursivetasks = [], recursiveitasks = [],
     recursivetasksselfref = []\<rparr>"
section \<open>The dependencies of a task, declaratively\<close>

text \<open>
  What the comments of the code say: a task depends on the tasks of its own recipe it was declared
  after, on the named tasks of the providers of its build and runtime dependencies, and on the
  inter-task dependencies.
\<close>

text \<open>The named tasks of the providers of a list of dependencies.\<close>

definition provided ::
  "(string \<times> string list) list \<Rightarrow> string list \<Rightarrow> string list \<Rightarrow> string list \<Rightarrow> string set"
where
  "provided targets entries ids names =
     {p @ '':'' @ n | p n i. i \<in> set ids \<and> first_provider targets i = Some p \<and> n \<in> set names \<and>
        p @ '':'' @ n \<in> set entries}"

text \<open>The tasks that a flag of the task names for its dependencies \<open>idmap\<close>.\<close>

definition flag_deps ::
  "(string \<times> string list) list \<Rightarrow> (string \<times> string list) list \<Rightarrow> td_state \<Rightarrow> task_deps \<Rightarrow>
     string \<Rightarrow> string \<Rightarrow> string \<Rightarrow> string set"
where
  "flag_deps targets idmap td tdeps taskfn taskname flag =
     {d. \<exists>v ids. task_flag tdeps flag taskname = Some v \<and> dget idmap taskfn = Some ids \<and>
        d \<in> provided targets (dkeys (taskentries td)) ids (split_ws v)}"

inductive direct_dep :: "td_state \<Rightarrow> task_deps \<Rightarrow> task_entry \<Rightarrow> string \<Rightarrow> string \<Rightarrow> string \<Rightarrow> bool"
  for td tdeps e taskfn taskname
where
  internal: "t \<in> set (tdepends e) \<Longrightarrow> split_tid_mcfn t = Some (m, f, n, x) \<Longrightarrow>
    direct_dep td tdeps e taskfn taskname (build_tid m f n)"
| build: "flag = ''deptask'' \<or> flag = ''recrdeptask'' \<Longrightarrow>
    d \<in> flag_deps (build_targets td) (depids td) td tdeps taskfn taskname flag \<Longrightarrow>
    direct_dep td tdeps e taskfn taskname d"
| runtime: "flag = ''rdeptask'' \<or> flag = ''recrdeptask'' \<Longrightarrow>
    d \<in> flag_deps (run_targets td) (rdepids td) td tdeps taskfn taskname flag \<Longrightarrow>
    direct_dep td tdeps e taskfn taskname d"
| inter: "(i, n) \<in> set (idepends e) \<Longrightarrow> first_provider (build_targets td) i = Some p \<Longrightarrow>
    i \<notin> set (failed_deps td) \<Longrightarrow> direct_dep td tdeps e taskfn taskname (p @ '':'' @ n)"
| rinter: "(i, n) \<in> set (irdepends e) \<Longrightarrow> first_provider (run_targets td) i = Some p \<Longrightarrow>
    direct_dep td tdeps e taskfn taskname (p @ '':'' @ n)"

lemma set_add_named:
  "set (add_named entries names p ds) =
     set ds \<union> {p @ '':'' @ n | n. n \<in> set names \<and> p @ '':'' @ n \<in> set entries}"
proof -
  have "set (foldl (\<lambda>ds n. if p @ '':'' @ n \<in> set entries then append_new (p @ '':'' @ n) ds else ds) ds ns) =
      set ds \<union> {p @ '':'' @ n | n. n \<in> set ns \<and> p @ '':'' @ n \<in> set entries}" for ns
    by (induction ns arbitrary: ds) auto
  then show ?thesis by (simp add: add_named_def)
qed

lemma set_add_dependencies:
  "set (add_dependencies targets entries ids names ds) = set ds \<union> provided targets entries ids names"
proof -
  have "set (foldl (\<lambda>ds name. case first_provider targets name of
        None \<Rightarrow> ds | Some fn \<Rightarrow> add_named entries names fn ds) ds is) =
      set ds \<union> provided targets entries is names" for "is"
  proof (induction "is" arbitrary: ds)
    case (Cons i "is")
    have "provided targets entries (i # is) names =
        (case first_provider targets i of None \<Rightarrow> {}
         | Some p \<Rightarrow> {p @ '':'' @ n | n. n \<in> set names \<and> p @ '':'' @ n \<in> set entries}) \<union>
        provided targets entries is names"
      unfolding provided_def by (auto split: option.splits)
    then show ?case by (simp add: Cons.IH set_add_named split: option.splits) blast
  qed (simp add: provided_def)
  then show ?thesis by (simp add: add_dependencies_def)
qed

lemma add_tdepends_mem:
  "add_tdepends ts ds = Inr ds' \<Longrightarrow>
     d \<in> set ds' \<longleftrightarrow> d \<in> set ds \<or>
       (\<exists>t \<in> set ts. \<exists>m f n x. split_tid_mcfn t = Some (m, f, n, x) \<and> d = build_tid m f n)"
proof (induction ts arbitrary: ds)
  case (Cons t ts)
  then obtain m f n x where t: "split_tid_mcfn t = Some (m, f, n, x)"
    and rest: "add_tdepends ts (append_new (build_tid m f n) ds) = Inr ds'"
    by (auto split: option.splits)
  show ?case unfolding Cons.IH [OF rest] set_append_new list.set insert_iff using t by auto
qed simp

lemma add_idepends_mem:
  "add_idepends td ids ds = Inr ds' \<Longrightarrow>
     d \<in> set ds' \<longleftrightarrow> d \<in> set ds \<or>
       (\<exists>(i, n) \<in> set ids. \<exists>p. first_provider (build_targets td) i = Some p \<and>
          i \<notin> set (failed_deps td) \<and> d = p @ '':'' @ n)"
  by (induction td ids ds rule: add_idepends.induct)
    (simp_all del: append_Cons append_Nil split: option.splits if_splits, blast+)

lemma add_irdepends_mem:
  "add_irdepends td ids ds = Inr ds' \<Longrightarrow>
     d \<in> set ds' \<longleftrightarrow> d \<in> set ds \<or>
       (\<exists>(i, n) \<in> set ids. \<exists>p. first_provider (run_targets td) i = Some p \<and> d = p @ '':'' @ n)"
  by (induction td ids ds rule: add_irdepends.induct)
    (simp_all del: append_Cons append_Nil split: option.splits if_splits, blast+)

lemma add_idepends_closed:
  "add_idepends td ids ds = Inr ds' \<Longrightarrow> (i, n) \<in> set ids \<Longrightarrow>
     first_provider (build_targets td) i = Some p \<Longrightarrow> i \<notin> set (failed_deps td) \<Longrightarrow>
     p @ '':'' @ n \<in> set (dkeys (taskentries td))"
  by (induction td ids ds rule: add_idepends.induct)
    (auto simp del: append_Cons append_Nil set_map split: option.splits if_splits)

lemma add_irdepends_closed:
  "add_irdepends td ids ds = Inr ds' \<Longrightarrow> (i, n) \<in> set ids \<Longrightarrow>
     first_provider (run_targets td) i = Some p \<Longrightarrow>
     p @ '':'' @ n \<in> set (dkeys (taskentries td))"
  by (induction td ids ds rule: add_irdepends.induct)
    (auto simp del: append_Cons append_Nil set_map split: option.splits if_splits)

lemma add_deptask_mem:
  "add_deptask td tdeps taskfn taskname ds = Inr ds' \<Longrightarrow>
     d \<in> set ds' \<longleftrightarrow> d \<in> set ds \<or>
       d \<in> flag_deps (build_targets td) (depids td) td tdeps taskfn taskname ''deptask''"
  by (auto simp: add_deptask_def add_build_dependencies_def set_add_dependencies flag_deps_def
      split: option.splits)

lemma add_rdeptask_mem:
  "add_rdeptask td tdeps taskfn taskname ds = Inr ds' \<Longrightarrow>
     d \<in> set ds' \<longleftrightarrow> d \<in> set ds \<or>
       d \<in> flag_deps (run_targets td) (rdepids td) td tdeps taskfn taskname ''rdeptask''"
  by (auto simp: add_rdeptask_def add_runtime_dependencies_def set_add_dependencies flag_deps_def
      split: option.splits)

lemma note_recursive_mem:
  "note_recursive td tdeps tid (mc, fn, taskname, taskfn) ds st = (Inr ds', st') \<Longrightarrow>
     (d \<in> set ds' \<longleftrightarrow> d \<in> set ds \<or>
       d \<in> flag_deps (build_targets td) (depids td) td tdeps taskfn taskname ''recrdeptask'' \<or>
       d \<in> flag_deps (run_targets td) (rdepids td) td tdeps taskfn taskname ''recrdeptask'') \<and>
     p_td st' = p_td st \<and> p_rq st' = p_rq st"
  by (auto simp: note_recursive_def Let_def add_build_dependencies_def add_runtime_dependencies_def
      set_add_dependencies flag_deps_def split: option.splits if_splits)

lemmas dep_mem = add_tdepends_mem add_deptask_mem add_rdeptask_mem add_idepends_mem add_irdepends_mem

lemma direct_depends_note_mem:
  assumes dd: "direct_depends td tdeps e taskfn taskname = Inr ds"
    and nr: "note_recursive td tdeps tid (mc, fn, taskname, taskfn) ds st = (Inr ds', st')"
  shows "set ds' = {d. direct_dep td tdeps e taskfn taskname d}"
proof (rule set_eqI)
  fix d
  from dd obtain d1 d2 d3 d4 where
    steps: "add_tdepends (tdepends e) [] = Inr d1" "add_deptask td tdeps taskfn taskname d1 = Inr d2"
      "add_rdeptask td tdeps taskfn taskname d2 = Inr d3" "add_idepends td (idepends e) d3 = Inr d4"
      "add_irdepends td (irdepends e) d4 = Inr ds"
    unfolding direct_depends_def bind_res_Inr_iff by blast
  note mem = note_recursive_mem [OF nr, of d, THEN conjunct1] dep_mem(5) [OF steps(5), of d]
    dep_mem(4) [OF steps(4), of d] dep_mem(3) [OF steps(3), of d] dep_mem(2) [OF steps(2), of d]
    dep_mem(1) [OF steps(1), of d]
  show "d \<in> set ds' \<longleftrightarrow> d \<in> {d. direct_dep td tdeps e taskfn taskname d}"
    unfolding mem_Collect_eq
  proof (rule iffI)
    assume "direct_dep td tdeps e taskfn taskname d"
    then show "d \<in> set ds'"
      by (rule direct_dep.cases) (use mem in blast)+
  next
    assume "d \<in> set ds'"
    then show "direct_dep td tdeps e taskfn taskname d"
      unfolding mem list.set empty_iff
      by (elim disjE FalseE) (blast intro: direct_dep.intros)+
  qed
qed

lemma resolve_task_Inr:
  assumes "resolve_task T tid (mc, fn, taskname, taskfn) st = (Inr u, st')"
  obtains td e ds ds' st1 where
    "dget (p_td st) mc = Some td" "dget (taskentries td) tid = Some e"
    "direct_depends td (t_deps (T mc) taskfn) e taskfn taskname = Inr ds"
    "note_recursive td (t_deps (T mc) taskfn) tid (mc, fn, taskname, taskfn) ds st = (Inr ds', st1)"
    "st' = set_depends tid ds' st1"
  using assms
  by (auto simp: resolve_task_def split: option.splits sum.splits prod.splits intro: that)

lemma add_mc_dependency_rq: "p_rq (snd (add_mc_dependency mc tid dep st)) = p_rq st"
  by (auto simp: add_mc_dependency_def split: list.splits option.splits)

lemma add_mc_part_rq: "p_rq (snd (add_mc_part T tid parts st)) = p_rq st"
proof -
  have "p_rq (snd (foreach (add_mc_dependency mc tid) ds st)) = p_rq st" for mc ds
    by (rule foreach_inv [where I = "\<lambda>s. p_rq s = p_rq st"]) (simp_all add: add_mc_dependency_rq)
  then show ?thesis
    by (simp add: add_mc_part_def add_mc_dependencies_def split: prod.split option.split)
qed

lemma set_depends_rq:
  assumes "dget (p_rq st) tid \<noteq> None"
  shows "set (depends_of (p_rq (set_depends tid ds st)) tid) = set ds - {tid} \<and>
    (\<forall>t. t \<noteq> tid \<longrightarrow> dget (p_rq (set_depends tid ds st)) t = dget (p_rq st) t) \<and>
    p_td (set_depends tid ds st) = p_td st"
  using assms by (auto simp: set_depends_def depends_of_def)

text \<open>
  C15: After a task of a recipe that has not failed was prepared, its dependencies in the run
  queue are the ones the declarative rules give, itself left out, computed from the target tables
  after the multiconfig dependencies were added; no other entry of the queue changes.
\<close>

theorem prep_task_depends:
  assumes run: "prep_task T tid st = (Inr (), st')"
    and tid: "split_tid_mcfn tid = Some (mc, fn, taskname, taskfn)"
    and td0: "dget (p_td st) mc = Some td0" and nf: "fn \<notin> set (failed_fns td0)"
  shows "(\<exists>td e. dget (p_td st') mc = Some td \<and> dget (taskentries td) tid = Some e \<and>
      set (depends_of (p_rq st') tid) =
        {d. direct_dep td (t_deps (T mc) taskfn) e taskfn taskname d} - {tid}) \<and>
    (\<forall>t. t \<noteq> tid \<longrightarrow> dget (p_rq st') t = dget (p_rq st) t)"
proof -
  let ?st1 = "st\<lparr>p_rq := dset tid new_entry (p_rq st)\<rparr>"
  from run tid td0 nf obtain st2 where
    mc: "add_mc_part T tid (mc, fn, taskname, taskfn) ?st1 = (Inr (), st2)"
    and res: "resolve_task T tid (mc, fn, taskname, taskfn) st2 = (Inr (), st')"
    by (auto simp: prep_task_def Let_def seq_st_Inr)
  have rq2: "p_rq st2 = dset tid new_entry (p_rq st)"
    using add_mc_part_rq [of T tid "(mc, fn, taskname, taskfn)" ?st1] mc by simp
  from res obtain td e ds ds' st3 where td: "dget (p_td st2) mc = Some td"
    and e: "dget (taskentries td) tid = Some e"
    and dd: "direct_depends td (t_deps (T mc) taskfn) e taskfn taskname = Inr ds"
    and nr: "note_recursive td (t_deps (T mc) taskfn) tid (mc, fn, taskname, taskfn) ds st2 = (Inr ds', st3)"
    and st': "st' = set_depends tid ds' st3" by (rule resolve_task_Inr)
  have st3: "p_td st3 = p_td st2" "p_rq st3 = p_rq st2"
    using note_recursive_mem [OF nr] by blast+
  have "dget (p_rq st3) tid \<noteq> None" by (simp add: st3 rq2)
  note sd = set_depends_rq [OF this, of ds', folded st']
  have "set (depends_of (p_rq st') tid) =
      {d. direct_dep td (t_deps (T mc) taskfn) e taskfn taskname d} - {tid}"
    using sd direct_depends_note_mem [OF dd nr] by simp
  moreover have "dget (p_td st') mc = Some td" using sd td st3 by simp
  ultimately show ?thesis using e sd st3 rq2 by auto
qed

section \<open>Failed recipes\<close>


section \<open>An example\<close>

text \<open>Recipe \<open>a\<close> of configuration \<open>m\<close> failed; its task \<open>t\<close> comes after its task \<open>s\<close>.\<close>

definition cache_rd :: data_cache where
  "cache_rd = \<lparr>pkg_fn = (\<lambda>f. f), pkg_fn_items = [], pkg_pn = [], pkg_pepvpr = (\<lambda>_. ([], [], [])),
     pkg_dp = (\<lambda>_. 0), bbfile_priority = (\<lambda>_. 0), providers = [], rproviders = [], packages = [],
     packages_dynamic = [], pn_provides = (\<lambda>_. []), preferred = [], ignored_dependencies = [],
     possible_world = [], world_target = []\<rparr>"

definition tab_rd :: tables where
  "tab_rd = \<lparr>t_deps = (\<lambda>_. \<lparr>tasks = [''s'', ''t''], parents = [(''t'', [''s''])], flags = []\<rparr>),
     rundeps = (\<lambda>_. []), runrecs = (\<lambda>_. []), extra_deps = (\<lambda>_. None), py_order = (\<lambda>xs. xs),
     re_match = (\<lambda>_. None), getVar = (\<lambda>_. None)\<rparr>"

definition td_rd :: td_state where
  "td_rd = (init_td False False cache_rd (\<lambda>_. []))
     \<lparr>failed_fns := [''mc:m:a''], taskentries :=
        [(''mc:m:a:s'', \<lparr>tdepends = [], idepends = [], irdepends = []\<rparr>),
         (''mc:m:a:t'', \<lparr>tdepends = [''mc:m:a:s''], idepends = [], irdepends = []\<rparr>)]\<rparr>"

lemma split_rd:
  "split_tid_mcfn ''mc:m:a:t'' = Some (''m'', ''a'', ''t'', ''mc:m:a'')"
  "split_tid_mcfn ''mc:m:a:s'' = Some (''m'', ''a'', ''s'', ''mc:m:a'')"
  by (simp_all add: split_tid_mcfn_def is_mc_def Let_def)

lemma prep_rd:
  "prep_task (\<lambda>_. tab_rd) ''mc:m:a:t'' (init_prep [(''m'', td_rd)]) =
     (Inr (), (init_prep [(''m'', td_rd)])\<lparr>p_rq := [(''mc:m:a:t'', new_entry\<lparr>depends := [''mc:m:a:s'']\<rparr>)]\<rparr>)"
  by (simp add: prep_task_def split_rd init_prep_def td_rd_def add_mc_part_def task_flag_def tab_rd_def
      resolve_task_def direct_depends_def add_deptask_def add_rdeptask_def note_recursive_def
      set_depends_def build_tid_def append_new_def)


theorem prep_task_depends_witness:
  "\<exists>td e. dget (taskentries td) ''mc:m:a:t'' = Some e \<and>
     {''mc:m:a:s''} = {d. direct_dep td (t_deps tab_rd ''mc:m:a'') e ''mc:m:a'' ''t'' d} - {''mc:m:a:t''}"
proof -
  let ?st = "init_prep [(''m'', td_rd)]"
  have m: "dget (p_td ?st) ''m'' = Some td_rd" and a: "''a'' \<notin> set (failed_fns td_rd)"
    by (simp_all add: init_prep_def td_rd_def)
  have "set (depends_of (p_rq (?st\<lparr>p_rq := [(''mc:m:a:t'', new_entry\<lparr>depends := [''mc:m:a:s'']\<rparr>)]\<rparr>))
      ''mc:m:a:t'') = {''mc:m:a:s''}" by (simp add: depends_of_def)
  with prep_task_depends [OF prep_rd split_rd(1) m a] show ?thesis
    by (elim conjE exE) (simp only:, blast)
qed

end
