(* ===== verification/RunRecur.thy ===== *)
theory RunRecur
  imports RunDeps
begin

text \<open>
  Recursive dependencies, part B of step A of \<open>RunQueueData.prepare\<close>
  (\<open>poky/bitbake/lib/bb/runqueue.py\<close>): the recipes below every task, and the loop that adds the
  tasks that \<open>recrdeptask\<close> names, until nothing is added any more.
\<close>

section \<open>The recipes below every task\<close>

record cumul =
  c_left :: "(string \<times> string list) list"
  c_cum :: "(string \<times> string list) list"
  c_next :: "string list"

definition add_plain_revdep ::
  "string \<Rightarrow> string \<Rightarrow> (string \<times> string list) list \<Rightarrow> unit result \<times> (string \<times> string list) list"
where
  "add_plain_revdep tid dep rv =
     (case dget rv dep of
        None \<Rightarrow> (Inl KeyError, rv) | Some xs \<Rightarrow> (Inr (), dset dep (append_new tid xs) rv))"

definition plain_revdeps :: "runq \<Rightarrow> unit result \<times> (string \<times> string list) list" where
  "plain_revdeps rq =
     foreach (\<lambda>tid. foreach (add_plain_revdep tid) (depends_of rq tid)) (dkeys rq)
       (map (\<lambda>(t, e). (t, [])) rq)"

definition union_new :: "'a list \<Rightarrow> 'a list \<Rightarrow> 'a list" where
  "union_new xs ys = foldl (\<lambda>xs y. append_new y xs) xs ys"

definition cum_edge :: "string \<Rightarrow> cumul \<Rightarrow> string \<Rightarrow> cumul" where
  "cum_edge tid s dep =
     (let below = union_new (append_new (fn_from_tid tid) (dget_or (c_cum s) dep []))
                    (dget_or (c_cum s) tid []);
          rest = removeAll tid (dget_or (c_left s) dep [])
      in \<lparr>c_left = dset dep rest (c_left s), c_cum = dset dep below (c_cum s),
          c_next = (if rest = [] then append_new dep (c_next s) else c_next s)\<rparr>)"

definition cum_task :: "(string \<times> string list) list \<Rightarrow> cumul \<Rightarrow> string \<Rightarrow> cumul" where
  "cum_task rv s tid = foldl (cum_edge tid) s (dget_or rv tid [])"

definition cum_round :: "(string \<times> string list) list \<Rightarrow> string list \<Rightarrow> cumul \<Rightarrow> cumul" where
  "cum_round rv endpoints s = foldl (cum_task rv) (s\<lparr>c_next := []\<rparr>) endpoints"

fun cum_loop :: "nat \<Rightarrow> (string \<times> string list) list \<Rightarrow> string list \<Rightarrow> cumul \<Rightarrow> cumul option" where
  "cum_loop n rv [] s = Some s"
| "cum_loop 0 rv (e # es) s = None"
| "cum_loop (Suc n) rv (e # es) s =
     (let s1 = cum_round rv (e # es) s in cum_loop n rv (c_next s1) s1)"

definition cum_init :: "runq \<Rightarrow> cumul" where
  "cum_init rq = \<lparr>c_left = map (\<lambda>(t, e). (t, depends e)) rq, c_cum = map (\<lambda>(t, e). (t, [])) rq,
     c_next = []\<rparr>"

definition cumulativedeps :: "runq \<Rightarrow> (string \<times> string list) list result" where
  "cumulativedeps rq =
     (case plain_revdeps rq of
        (Inl e, _) \<Rightarrow> Inl e
      | (Inr _, rv) \<Rightarrow>
          (case cum_loop (Suc (length rq)) rv (filter (\<lambda>t. depends_of rq t = []) (dkeys rq)) (cum_init rq) of
             None \<Rightarrow> Inl OutOfFuel | Some s \<Rightarrow> Inr (c_cum s)))"

section \<open>The recursive loop\<close>

text \<open>\<open>rectasks\<close> and \<open>itasks\<close> are \<open>recursivetasks\<close> and \<open>recursiveitasks\<close>.\<close>

type_synonym names = "(string \<times> string list) list"

definition union_all :: "'a list list \<Rightarrow> 'a list" where
  "union_all xss = foldl union_new [] xss"

definition total_deps :: "names \<Rightarrow> runq \<Rightarrow> string \<Rightarrow> string list" where
  "total_deps itasks rq tid =
     (case dget itasks tid of
        None \<Rightarrow> depends_of rq tid
      | Some ts \<Rightarrow> foldl (\<lambda>ds t. union_new ds (depends_of rq t)) (union_new (depends_of rq tid) ts) ts)"

definition add_depend :: "string \<Rightarrow> string \<Rightarrow> runq \<Rightarrow> runq" where
  "add_depend tid d rq =
     (case dget rq tid of
        None \<Rightarrow> rq | Some e \<Rightarrow> dset tid (e\<lparr>depends := append_new d (depends e)\<rparr>) rq)"

text \<open>The counter \<open>extradeps\<close> goes along with the queue.\<close>

definition add_extra :: "string \<Rightarrow> runq \<times> nat \<Rightarrow> string \<Rightarrow> runq \<times> nat" where
  "add_extra tid s newtid =
     (case s of (rq, n) \<Rightarrow>
        if newtid \<noteq> tid \<and> newtid \<in> set (dkeys rq) \<and> newtid \<notin> set (depends_of rq tid)
        then (add_depend tid newtid rq, n + 1) else (rq, n))"

definition add_inherited :: "string \<Rightarrow> string list \<Rightarrow> runq \<times> nat \<Rightarrow> string \<Rightarrow> runq \<times> nat" where
  "add_inherited tid tasknames s newtid =
     (case s of (rq, n) \<Rightarrow>
        (let hits = length (filter (\<lambda>taskname. endswith newtid ('':'' @ taskname)) tasknames)
         in if 0 < hits \<and> newtid \<in> set (dkeys rq)
            then (add_depend tid newtid rq, n + hits) else (rq, n)))"

definition named_tasks :: "names \<Rightarrow> names \<Rightarrow> runq \<Rightarrow> string \<Rightarrow> string list \<Rightarrow> string list" where
  "named_tasks cum itasks rq tid tasknames =
     concat (map (\<lambda>f. map (\<lambda>taskname. f @ '':'' @ taskname) tasknames)
       (union_all (map (\<lambda>d. dget_or cum d []) (total_deps itasks rq tid))))"

definition inherited_tasks :: "names \<Rightarrow> runq \<Rightarrow> string \<Rightarrow> string list" where
  "inherited_tasks rectasks rq tid =
     union_all (map (\<lambda>d. filter (\<lambda>x. x \<notin> set (depends_of rq tid)) (depends_of rq d))
       (filter (\<lambda>d. d \<in> set (dkeys rectasks)) (depends_of rq tid)))"

definition rec_task ::
  "names \<Rightarrow> names \<Rightarrow> names \<Rightarrow> string \<times> string list \<Rightarrow> runq \<times> nat \<Rightarrow> unit result \<times> runq \<times> nat"
where
  "rec_task cum rectasks itasks task s =
     (case (task, s) of ((tid, tasknames), (rq, n)) \<Rightarrow>
        if tid \<notin> set (dkeys rq) then (Inl KeyError, s)
        else (let s1 = foldl (add_extra tid) s (named_tasks cum itasks rq tid tasknames)
              in (Inr (), foldl (add_inherited tid tasknames) s1 (inherited_tasks rectasks (fst s1) tid))))"

definition rec_pass :: "names \<Rightarrow> names \<Rightarrow> names \<Rightarrow> runq \<Rightarrow> unit result \<times> runq \<times> nat" where
  "rec_pass cum rectasks itasks rq = foreach (rec_task cum rectasks itasks) rectasks (rq, 0)"

section \<open>What the walk computes\<close>

lemma set_union_new [simp]: "set (union_new xs ys) = set xs \<union> set ys"
proof -
  have "set (foldl (\<lambda>xs y. append_new y xs) xs ys) = set xs \<union> set ys"
    by (induction ys arbitrary: xs) auto
  then show ?thesis by (simp add: union_new_def)
qed

lemma distinct_union_new [simp]: "distinct xs \<Longrightarrow> distinct (union_new xs ys)"
proof -
  have "distinct xs \<Longrightarrow> distinct (foldl (\<lambda>xs y. append_new y xs) xs ys)"
    by (induction ys arbitrary: xs) auto
  then show "distinct xs \<Longrightarrow> ?thesis" by (simp add: union_new_def)
qed

lemma set_union_all [simp]: "set (union_all xss) = (\<Union>xs \<in> set xss. set xs)"
proof -
  have "set (foldl union_new ys xss) = set ys \<union> (\<Union>xs \<in> set xss. set xs)" for ys
    by (induction xss arbitrary: ys) auto
  then show ?thesis by (simp add: union_all_def)
qed

lemma distinct_union_all [simp]: "distinct (union_all xss)"
proof -
  have "distinct ys \<Longrightarrow> distinct (foldl union_new ys xss)" for ys :: "'a list"
    by (induction xss arbitrary: ys) auto
  then show ?thesis by (simp add: union_all_def)
qed

abbreviation cum_of :: "cumul \<Rightarrow> string \<Rightarrow> string set" where
  "cum_of s t \<equiv> set (dget_or (c_cum s) t [])"

abbreviation left_of :: "cumul \<Rightarrow> string \<Rightarrow> string set" where
  "left_of s t \<equiv> set (dget_or (c_left s) t [])"

lemma cum_edges:
  fixes s :: cumul
  assumes "tid \<notin> set ds"
  defines "s' \<equiv> foldl (cum_edge tid) s ds"
  shows "cum_of s' t = cum_of s t \<union> (if t \<in> set ds then insert (fn_from_tid tid) (cum_of s tid) else {})"
    and "left_of s' t = left_of s t - (if t \<in> set ds then {tid} else {})"
    and "set (c_next s') = set (c_next s) \<union> {d \<in> set ds. left_of s d \<subseteq> {tid}}"
    and "distinct (c_next s) \<Longrightarrow> distinct (c_next s')"
proof -
  have "cum_of s' t = cum_of s t \<union> (if t \<in> set ds then insert (fn_from_tid tid) (cum_of s tid) else {}) \<and>
    left_of s' t = left_of s t - (if t \<in> set ds then {tid} else {}) \<and>
    set (c_next s') = set (c_next s) \<union> {d \<in> set ds. left_of s d \<subseteq> {tid}} \<and>
    (distinct (c_next s) \<longrightarrow> distinct (c_next s'))" for t
    unfolding s'_def using assms(1)
  proof (induction ds arbitrary: s t)
    case (Cons d ds)
    let ?s = "cum_edge tid s d"
    have c: "cum_of ?s x = (if x = d then insert (fn_from_tid tid) (cum_of s tid \<union> cum_of s d) else cum_of s x)"
      and l: "left_of ?s x = (if x = d then left_of s d - {tid} else left_of s x)" for x
      by (auto simp: cum_edge_def Let_def)
    have "removeAll tid xs = [] \<longleftrightarrow> set xs \<subseteq> {tid}" for xs
      by (metis set_removeAll Diff_eq_empty_iff set_empty)
    then have n: "set (c_next ?s) = set (c_next s) \<union> (if left_of s d \<subseteq> {tid} then {d} else {})"
      and di: "distinct (c_next s) \<Longrightarrow> distinct (c_next ?s)"
      by (auto simp: cum_edge_def Let_def)
    have tid: "tid \<notin> set ds" "tid \<noteq> d" using Cons.prems by auto
    note IH = Cons.IH [OF tid(1), of ?s]
    from IH [of t] tid(2) c l n di show ?case by (auto split: if_splits)
  qed simp
  then show "cum_of s' t = cum_of s t \<union> (if t \<in> set ds then insert (fn_from_tid tid) (cum_of s tid) else {})"
    and "left_of s' t = left_of s t - (if t \<in> set ds then {tid} else {})"
    and "set (c_next s') = set (c_next s) \<union> {d \<in> set ds. left_of s d \<subseteq> {tid}}"
    and "distinct (c_next s) \<Longrightarrow> distinct (c_next s')"
    by blast+
qed

text \<open>
  The invariant: \<open>P\<close> are the tasks the walk has come past, \<open>todo\<close> the rest of the round.
\<close>

definition deps_set :: "runq \<Rightarrow> string \<Rightarrow> string set" where
  "deps_set rq t = set (depends_of rq t)"

definition cum_inv :: "runq \<Rightarrow> string set \<Rightarrow> string list \<Rightarrow> cumul \<Rightarrow> bool" where
  "cum_inv rq P todo s \<longleftrightarrow>
     P \<subseteq> set (dkeys rq) \<and> (\<forall>d \<in> P. deps_set rq d \<subseteq> P) \<and>
     (\<forall>t. left_of s t = deps_set rq t - P) \<and>
     (\<forall>t. cum_of s t = (\<Union>d \<in> deps_set rq t \<inter> P. insert (fn_from_tid d) (cum_of s d))) \<and>
     distinct (todo @ c_next s) \<and>
     set (todo @ c_next s) = {t \<in> set (dkeys rq). deps_set rq t \<subseteq> P} - P"

lemma cum_invD:
  assumes "cum_inv rq P todo s"
  shows "P \<subseteq> set (dkeys rq)" and "\<forall>d \<in> P. deps_set rq d \<subseteq> P"
    and "\<forall>t. left_of s t = deps_set rq t - P"
    and "\<forall>t. cum_of s t = (\<Union>d \<in> deps_set rq t \<inter> P. insert (fn_from_tid d) (cum_of s d))"
    and "distinct (todo @ c_next s)"
    and "set (todo @ c_next s) = {t \<in> set (dkeys rq). deps_set rq t \<subseteq> P} - P"
  by (insert assms, unfold cum_inv_def, (elim conjE, assumption)+)

definition rev_ok :: "runq \<Rightarrow> names \<Rightarrow> bool" where
  "rev_ok rq rv \<longleftrightarrow> (\<forall>t. set (dget_or rv t []) = {s \<in> set (dkeys rq). t \<in> deps_set rq s})"

lemma cum_inv_step:
  assumes inv: "cum_inv rq P (tid # todo) s" and rv: "rev_ok rq rv"
  shows "cum_inv rq (insert tid P) todo (cum_task rv s tid)"
proof -
  let ?ds = "dget_or rv tid []"
  have ds: "set ?ds = {t \<in> set (dkeys rq). tid \<in> deps_set rq t}" using rv by (simp add: rev_ok_def)
  have tid: "tid \<in> set (dkeys rq)" "deps_set rq tid \<subseteq> P" "tid \<notin> P"
    and front: "set (todo @ c_next s) = {t \<in> set (dkeys rq). deps_set rq t \<subseteq> P} - P - {tid}"
    and dist: "distinct (todo @ c_next s)"
    using cum_invD(5,6) [OF inv] by auto
  have P: "P \<subseteq> set (dkeys rq)" "\<forall>d \<in> P. deps_set rq d \<subseteq> P"
    and left: "\<And>t. left_of s t = deps_set rq t - P"
    and cum: "\<And>t. cum_of s t = (\<Union>d \<in> deps_set rq t \<inter> P. insert (fn_from_tid d) (cum_of s d))"
    by (rule cum_invD [OF inv] spec [OF cum_invD(3) [OF inv]] spec [OF cum_invD(4) [OF inv]])+
  have self: "tid \<notin> set ?ds" using tid ds by auto
  define s' where "s' = cum_task rv s tid"
  note e = cum_edges [OF self, of s, folded cum_task_def, folded s'_def]
  have keys: "t \<in> set (dkeys rq)" if "d \<in> deps_set rq t" for t d
    using that dget_None_dkeys [of rq t] by (auto simp: deps_set_def depends_of_def split: option.splits)
  have in_ds: "t \<in> set ?ds \<longleftrightarrow> tid \<in> deps_set rq t" for t using ds keys by blast
  have notP: "tid \<notin> deps_set rq d" if "d \<in> insert tid P" for d
    using that P(2) tid by blast
  have next': "set (c_next s') = set (c_next s) \<union>
      {d \<in> set (dkeys rq). tid \<in> deps_set rq d \<and> deps_set rq d \<subseteq> insert tid P}"
    using e(3) left ds by auto
  have "cum_inv rq (insert tid P) todo s'"
    unfolding cum_inv_def
  proof (intro conjI)
    show "insert tid P \<subseteq> set (dkeys rq)" using P tid by blast
    show "\<forall>d \<in> insert tid P. deps_set rq d \<subseteq> insert tid P" using P tid by blast
    show "\<forall>t. left_of s' t = deps_set rq t - insert tid P"
      using e(2) left in_ds by auto
    show "\<forall>t. cum_of s' t = (\<Union>d \<in> deps_set rq t \<inter> insert tid P. insert (fn_from_tid d) (cum_of s' d))"
    proof
      fix t
      have same: "cum_of s' d = cum_of s d" if "d \<in> insert tid P" for d
        using e(1) [of d] in_ds notP [OF that] by simp
      have "(\<Union>d \<in> deps_set rq t \<inter> insert tid P. insert (fn_from_tid d) (cum_of s' d)) =
          (\<Union>d \<in> deps_set rq t \<inter> P. insert (fn_from_tid d) (cum_of s d)) \<union>
          (if tid \<in> deps_set rq t then insert (fn_from_tid tid) (cum_of s tid) else {})"
        using same by auto
      with e(1) [of t] cum [of t] in_ds [of t] show "cum_of s' t =
          (\<Union>d \<in> deps_set rq t \<inter> insert tid P. insert (fn_from_tid d) (cum_of s' d))" by simp
    qed
    have "set todo \<inter> {d. tid \<in> deps_set rq d} = {}" using front tid(3) by auto
    with dist e(4) next' show "distinct (todo @ c_next s')" by auto
    show "set (todo @ c_next s') =
        {t \<in> set (dkeys rq). deps_set rq t \<subseteq> insert tid P} - insert tid P"
      using front next' notP by (auto simp: set_append)
  qed
  then show ?thesis by (simp add: s'_def)
qed

lemma cum_inv_round:
  assumes "rev_ok rq rv" "cum_inv rq P es s"
  shows "cum_inv rq (P \<union> set es) [] (foldl (cum_task rv) s es)"
  using assms(2)
proof (induction es arbitrary: P s)
  case (Cons e es)
  from Cons.IH [OF cum_inv_step [OF Cons.prems assms(1)]] show ?case by simp
qed simp

lemma cum_inv_shift_eq: "cum_inv rq P (c_next s) (s\<lparr>c_next := []\<rparr>) \<longleftrightarrow> cum_inv rq P [] s"
  by (simp add: cum_inv_def)

lemmas cum_inv_shift = cum_inv_shift_eq [THEN iffD2]

lemma cum_loop_enough:
  assumes rv: "rev_ok rq rv" and "cum_inv rq P es (s\<lparr>c_next := []\<rparr>)"
    and "card (set (dkeys rq) - P) < n"
  shows "\<exists>s' P'. cum_loop n rv es s = Some s' \<and> cum_inv rq P' [] (s'\<lparr>c_next := []\<rparr>)"
  using assms
proof (induction n rv es s arbitrary: P rule: cum_loop.induct)
  case (3 n rv e es s)
  let ?s = "cum_round rv (e # es) s"
  have inv: "cum_inv rq (P \<union> set (e # es)) [] ?s"
    unfolding cum_round_def by (rule cum_inv_round [OF 3(2) 3(3)])
  have new: "e \<in> set (dkeys rq)" "e \<notin> P"
    using cum_invD(6) [OF 3(3)] by auto
  have "card (set (dkeys rq) - (P \<union> set (e # es))) < card (set (dkeys rq) - P)"
    by (rule psubset_card_mono) (use new in auto)
  with 3(4) have "card (set (dkeys rq) - (P \<union> set (e # es))) < n" by simp
  from 3(1) [OF refl 3(2) cum_inv_shift [OF inv] this] show ?case by (simp add: Let_def)
next
  case (1 n rv s)
  then show ?case by (intro exI [of _ s] exI [of _ P]) simp
qed simp

lemma finite_dep_rel: "finite (dep_rel rq)"
proof -
  have "(s, t) \<in> dep_rel rq \<Longrightarrow> s \<in> set (dkeys rq)" for s t
    using dget_None_dkeys [of rq s] by (auto simp: dep_rel_def depends_of_def split: option.splits)
  then have "dep_rel rq \<subseteq> Sigma (set (dkeys rq)) (\<lambda>s. set (depends_of rq s))"
    by (auto simp: dep_rel_def)
  then show ?thesis by (rule finite_subset) auto
qed

lemma dep_rel_induct [consumes 1, case_names less]:
  assumes "acyclic (dep_rel rq)" "\<And>t. (\<And>d. d \<in> deps_set rq t \<Longrightarrow> Q d) \<Longrightarrow> Q t"
  shows "Q t"
proof -
  have "wf ((dep_rel rq)\<inverse>)" using finite_acyclic_wf_converse [OF finite_dep_rel assms(1)] .
  then show ?thesis
    by (induction t rule: wf_induct_rule) (rule assms(2), auto simp: dep_rel_def deps_set_def)
qed

lemma trancl_deps_set:
  "{d. (t, d) \<in> (dep_rel rq)\<^sup>+} = (\<Union>d \<in> deps_set rq t. insert d {e. (d, e) \<in> (dep_rel rq)\<^sup>+})"
proof -
  have "(t, e) \<in> (dep_rel rq)\<^sup>+ \<longleftrightarrow> (\<exists>d. (t, d) \<in> dep_rel rq \<and> (e = d \<or> (d, e) \<in> (dep_rel rq)\<^sup>+))" for e
    by (blast elim: converse_tranclE intro: trancl_into_trancl2)
  then show ?thesis by (auto simp: deps_set_def dep_rel_def)
qed

lemma cum_inv_final:
  assumes inv: "cum_inv rq P [] s" "c_next s = []" and ac: "acyclic (dep_rel rq)"
    and closed: "\<And>t. deps_set rq t \<subseteq> set (dkeys rq)"
  shows "cum_of s t = fn_from_tid ` {d. (t, d) \<in> (dep_rel rq)\<^sup>+}"
proof -
  have "t \<in> set (dkeys rq) \<longrightarrow> t \<in> P" for t
    using ac
  proof (induction t rule: dep_rel_induct)
    case (less t)
    with closed [of t] have "deps_set rq t \<subseteq> P" by blast
    with cum_invD(6) [OF inv(1)] inv(2) show ?case by auto
  qed
  with closed have P: "deps_set rq t \<inter> P = deps_set rq t" for t by blast
  show ?thesis
    using ac
  proof (induction t rule: dep_rel_induct)
    case (less t)
    have "cum_of s t = (\<Union>d \<in> deps_set rq t. insert (fn_from_tid d) (cum_of s d))"
      using spec [OF cum_invD(4) [OF inv(1)], of t] by (simp only: P)
    also have "\<dots> = (\<Union>d \<in> deps_set rq t. fn_from_tid ` insert d {e. (d, e) \<in> (dep_rel rq)\<^sup>+})"
      by (intro SUP_cong refl) (simp only: less image_insert)
    also have "\<dots> = fn_from_tid ` {d. (t, d) \<in> (dep_rel rq)\<^sup>+}"
      unfolding trancl_deps_set [of t] image_UN ..
    finally show ?case .
  qed
qed

lemma plain_revdeps_ok:
  assumes "\<And>t. deps_set rq t \<subseteq> set (dkeys rq)"
  obtains rv where "plain_revdeps rq = (Inr (), rv)" "rev_ok rq rv"
proof -
  have edge: "\<exists>rv'. foreach (add_plain_revdep tid) ds rv = (Inr (), rv') \<and> set (dkeys rv') = set (dkeys rv) \<and>
      (\<forall>t. set (dget_or rv' t []) = set (dget_or rv t []) \<union> (if t \<in> set ds then {tid} else {}))"
    if "set ds \<subseteq> set (dkeys rv)" for tid ds and rv :: names
    using that
  proof (induction ds arbitrary: rv)
    case (Cons d ds)
    then obtain xs where xs: "dget rv d = Some xs" using dget_in_dkeys [of d rv] by auto
    let ?rv = "dset d (append_new tid xs) rv"
    have "set ds \<subseteq> set (dkeys ?rv)" using Cons.prems by auto
    from Cons.IH [OF this] obtain rv' where rv': "foreach (add_plain_revdep tid) ds ?rv = (Inr (), rv')"
      "set (dkeys rv') = set (dkeys ?rv)"
      "\<forall>t. set (dget_or rv' t []) = set (dget_or ?rv t []) \<union> (if t \<in> set ds then {tid} else {})" by blast
    have "set (dkeys ?rv) = set (dkeys rv)" using Cons.prems by auto
    moreover have "dget_or rv d [] = xs" using xs by (simp add: dget_or_def)
    moreover have "add_plain_revdep tid d rv = (Inr (), ?rv)" using xs by (simp add: add_plain_revdep_def)
    ultimately show ?case using rv' by auto
  qed simp
  have all: "\<exists>rv'. foreach (\<lambda>tid. foreach (add_plain_revdep tid) (depends_of rq tid)) ts rv = (Inr (), rv') \<and>
      set (dkeys rv') = set (dkeys rv) \<and>
      (\<forall>t. set (dget_or rv' t []) = set (dget_or rv t []) \<union> {s \<in> set ts. t \<in> deps_set rq s})"
    if "set (dkeys rv) = set (dkeys rq)" for ts and rv :: names
    using that
  proof (induction ts arbitrary: rv)
    case (Cons s ts)
    have "set (depends_of rq s) \<subseteq> set (dkeys rv)"
      using assms [of s] Cons.prems by (simp add: deps_set_def)
    from edge [OF this, of s] obtain rv1 where
      1: "foreach (add_plain_revdep s) (depends_of rq s) rv = (Inr (), rv1)" "set (dkeys rv1) = set (dkeys rv)"
      "\<forall>t. set (dget_or rv1 t []) = set (dget_or rv t []) \<union> (if t \<in> set (depends_of rq s) then {s} else {})"
      by blast
    with Cons.prems have "set (dkeys rv1) = set (dkeys rq)" by simp
    from Cons.IH [OF this] obtain rv2 where
      2: "foreach (\<lambda>tid. foreach (add_plain_revdep tid) (depends_of rq tid)) ts rv1 = (Inr (), rv2)"
      "set (dkeys rv2) = set (dkeys rv1)"
      "\<forall>t. set (dget_or rv2 t []) = set (dget_or rv1 t []) \<union> {s \<in> set ts. t \<in> deps_set rq s}" by blast
    have "\<forall>t. set (dget_or rv2 t []) = set (dget_or rv t []) \<union> {x \<in> set (s # ts). t \<in> deps_set rq x}"
      using 1(3) 2(3) by (auto simp: deps_set_def)
    with 1(1,2) 2(1,2) show ?case by auto
  qed simp
  define rv0 :: names where "rv0 = map (\<lambda>(t, e). (t, [])) rq"
  have "set (dkeys rv0) = set (dkeys rq)" by (force simp: rv0_def)
  from all [OF this, of "dkeys rq"] obtain rv where
    1: "foreach (\<lambda>tid. foreach (add_plain_revdep tid) (depends_of rq tid)) (dkeys rq) rv0 = (Inr (), rv)"
    and 2: "\<forall>t. set (dget_or rv t []) = set (dget_or rv0 t []) \<union> {s \<in> set (dkeys rq). t \<in> deps_set rq s}"
    by blast
  have "dget_or rv0 t [] = []" for t
    by (auto simp: rv0_def dget_or_def dget_map_snd split: option.splits)
  with 2 have "rev_ok rq rv" unfolding rev_ok_def by (simp only: list.set Un_empty_left) blast
  with 1 show ?thesis using that by (simp add: plain_revdeps_def rv0_def)
qed

lemma cum_inv_init:
  assumes "wf_dict rq"
  shows "cum_inv rq {} (filter (\<lambda>t. depends_of rq t = []) (dkeys rq)) (cum_init rq\<lparr>c_next := []\<rparr>)"
proof -
  have "dget_or (map (\<lambda>(t, e). (t, depends e)) rq) t [] = depends_of rq t"
    "dget_or (map (\<lambda>(t, e). (t, [])) rq) t [] = []" for t
    by (auto simp: dget_or_def dget_map_snd depends_of_def split: option.splits)
  with assms show ?thesis
    by (auto simp: cum_inv_def cum_init_def deps_set_def wf_dict_def)
qed

text \<open>The walk ends within its fuel; below a task are the recipes of all tasks it needs.\<close>

lemma cumulativedeps_result:
  assumes "wf_dict rq" "acyclic (dep_rel rq)" "\<And>t. set (depends_of rq t) \<subseteq> set (dkeys rq)"
  obtains cum where "cumulativedeps rq = Inr cum"
    "\<And>t. set (dget_or cum t []) = fn_from_tid ` {d. (t, d) \<in> (dep_rel rq)\<^sup>+}"
proof -
  have closed: "deps_set rq t \<subseteq> set (dkeys rq)" for t using assms(3) by (simp add: deps_set_def)
  obtain rv where rv: "plain_revdeps rq = (Inr (), rv)" "rev_ok rq rv"
    by (rule plain_revdeps_ok [OF closed])
  have "card (set (dkeys rq)) \<le> length rq" using card_length [of "dkeys rq"] by simp
  then have "card (set (dkeys rq) - {}) < Suc (length rq)" by simp
  from cum_loop_enough [OF rv(2) cum_inv_init [OF assms(1)] this]
  obtain s' P' where s': "cum_loop (Suc (length rq)) rv (filter (\<lambda>t. depends_of rq t = []) (dkeys rq))
      (cum_init rq) = Some s'" "cum_inv rq P' [] (s'\<lparr>c_next := []\<rparr>)" by blast
  have "cumulativedeps rq = Inr (c_cum s')"
    using rv(1) s'(1) by (simp add: cumulativedeps_def)
  moreover have "set (dget_or (c_cum s') t []) = fn_from_tid ` {d. (t, d) \<in> (dep_rel rq)\<^sup>+}" for t
    using cum_inv_final [OF s'(2) _ assms(2) closed, of t] by simp
  ultimately show ?thesis by (rule that)
qed

section \<open>The recursive loop ends\<close>

text \<open>
  What a part of the loop does to the queue and the counter: the counter moves exactly when a
  dependency is added, and only tasks of the queue with one of the names are added.
\<close>

definition addable :: "names \<Rightarrow> runq \<Rightarrow> string \<Rightarrow> string \<Rightarrow> bool" where
  "addable recs rq t d \<longleftrightarrow> d \<in> set (dkeys rq) \<and>
     (\<exists>tasknames. (t, tasknames) \<in> set recs \<and> (\<exists>n \<in> set tasknames. endswith d ('':'' @ n)))"

definition grows :: "names \<Rightarrow> runq \<times> nat \<Rightarrow> runq \<times> nat \<Rightarrow> bool" where
  "grows recs s s' \<longleftrightarrow>
     (case (s, s') of ((rq, n), (rq', n')) \<Rightarrow>
        dkeys rq' = dkeys rq \<and> revdeps_of rq' = revdeps_of rq \<and> n \<le> n' \<and> (n = n' \<longrightarrow> rq' = rq) \<and>
        (\<forall>t. distinct (depends_of rq t) \<longrightarrow> distinct (depends_of rq' t)) \<and>
        (\<forall>t. deps_set rq t \<subseteq> deps_set rq' t) \<and>
        (\<forall>t d. d \<in> deps_set rq' t \<longrightarrow> d \<notin> deps_set rq t \<longrightarrow> addable recs rq t d) \<and>
        (n < n' \<longrightarrow> (\<exists>t d. d \<in> deps_set rq' t \<and> d \<notin> deps_set rq t)))"

lemma grows_refl [simp]: "grows recs s s"
  by (cases s) (simp add: grows_def)

lemma grows_trans: "grows recs a b \<Longrightarrow> grows recs b c \<Longrightarrow> grows recs a c"
proof -
  assume ab: "grows recs a b" and bc: "grows recs b c"
  obtain ra na rb nb rc nc where s: "a = (ra, na)" "b = (rb, nb)" "c = (rc, nc)"
    by (metis surj_pair)
  have keys: "addable recs rb t d = addable recs ra t d" for t d
    using ab by (simp add: s grows_def addable_def)
  have new: "(\<exists>t d. d \<in> deps_set rc t \<and> d \<notin> deps_set ra t)" if "na < nc"
  proof (cases "na < nb")
    case True
    with ab bc show ?thesis unfolding s grows_def prod.case by blast
  next
    case False
    with ab have "rb = ra" "nb = na" by (auto simp: s grows_def)
    with that bc show ?thesis by (simp add: s grows_def)
  qed
  have "addable recs ra t d" if "d \<in> deps_set rc t" "d \<notin> deps_set ra t" for t d
    using ab bc that keys [of t d] unfolding s grows_def prod.case by (cases "d \<in> deps_set rb t") blast+
  with new ab bc show ?thesis
    unfolding s grows_def prod.case by (intro conjI) (auto, blast)
qed

lemma add_depend_simps:
  assumes "tid \<in> set (dkeys rq)"
  shows "dkeys (add_depend tid d rq) = dkeys rq" "revdeps_of (add_depend tid d rq) = revdeps_of rq"
    "depends_of (add_depend tid d rq) t =
       (if t = tid then append_new d (depends_of rq t) else depends_of rq t)"
    "deps_set (add_depend tid d rq) t = (if t = tid then insert d (deps_set rq t) else deps_set rq t)"
proof -
  obtain e where e: "dget rq tid = Some e" using assms dget_in_dkeys [of tid rq] by auto
  then show "dkeys (add_depend tid d rq) = dkeys rq" using assms
    by (simp add: add_depend_def dkeys_dset_same)
  show "revdeps_of (add_depend tid d rq) = revdeps_of rq"
    using e by (auto simp: add_depend_def revdeps_of_def)
  show dep: "depends_of (add_depend tid d rq) t =
       (if t = tid then append_new d (depends_of rq t) else depends_of rq t)"
    using e by (auto simp: add_depend_def depends_of_def)
  show "deps_set (add_depend tid d rq) t = (if t = tid then insert d (deps_set rq t) else deps_set rq t)"
    by (simp add: deps_set_def dep)
qed

lemma add_depend_grows:
  assumes "tid \<in> set (dkeys rq)" "addable recs rq tid d" "d \<notin> deps_set rq tid" "0 < k"
  shows "grows recs (rq, n) (add_depend tid d rq, n + k)"
  using assms by (auto simp: grows_def add_depend_simps)

lemma add_extra_grows:
  assumes "tid \<in> set (dkeys (fst s))" "(tid, tasknames) \<in> set recs"
    "\<exists>n \<in> set tasknames. endswith d ('':'' @ n)"
  shows "grows recs s (add_extra tid s d)"
  using assms add_depend_grows [of tid "fst s" recs d 1 "snd s"]
  by (cases s) (auto simp: add_extra_def addable_def deps_set_def)

lemma foldl_add_extra_grows:
  assumes "tid \<in> set (dkeys (fst s))" "(tid, tasknames) \<in> set recs"
    "\<forall>d \<in> set ds. \<exists>n \<in> set tasknames. endswith d ('':'' @ n)"
  shows "grows recs s (foldl (add_extra tid) s ds)"
  using assms(1,3)
proof (induction ds arbitrary: s)
  case (Cons d ds)
  have 1: "grows recs s (add_extra tid s d)"
    by (rule add_extra_grows [OF Cons.prems(1) assms(2)]) (use Cons.prems(2) in simp)
  then have "dkeys (fst (add_extra tid s d)) = dkeys (fst s)"
    by (auto simp: grows_def split: prod.splits)
  with Cons.prems(1) have "tid \<in> set (dkeys (fst (add_extra tid s d)))" by simp
  from Cons.IH [OF this] Cons.prems(2) grows_trans [OF 1] show ?case by simp
qed simp

lemma foldl_add_inherited_grows:
  assumes "tid \<in> set (dkeys rq)" "(tid, tasknames) \<in> set recs" "distinct ds" "set ds \<inter> deps_set rq tid = {}"
  shows "grows recs (rq, n) (foldl (add_inherited tid tasknames) (rq, n) ds)"
  using assms(1,3,4)
proof (induction ds arbitrary: rq n)
  case (Cons d ds)
  let ?hits = "filter (\<lambda>taskname. endswith d ('':'' @ taskname)) tasknames"
  show ?case
  proof (cases "0 < length ?hits \<and> d \<in> set (dkeys rq)")
    case True
    then have st: "add_inherited tid tasknames (rq, n) d = (add_depend tid d rq, n + length ?hits)"
      by (simp add: add_inherited_def)
    have "\<exists>x \<in> set tasknames. endswith d ('':'' @ x)"
      using True by (auto simp: filter_empty_conv)
    then have ad: "addable recs rq tid d" using True assms(2) by (auto simp: addable_def)
    have 1: "grows recs (rq, n) (add_depend tid d rq, n + length ?hits)"
      by (rule add_depend_grows [OF Cons.prems(1) ad]) (use Cons.prems True in auto)
    have "grows recs (add_depend tid d rq, n + length ?hits)
        (foldl (add_inherited tid tasknames) (add_depend tid d rq, n + length ?hits) ds)"
      by (rule Cons.IH) (use Cons.prems in \<open>auto simp: add_depend_simps\<close>)
    from grows_trans [OF 1 this] show ?thesis by (simp only: foldl_Cons st)
  next
    case False
    then have "add_inherited tid tasknames (rq, n) d = (rq, n)" by (auto simp: add_inherited_def)
    with Cons show ?thesis by simp
  qed
qed simp

lemma named_tasks_names:
  "d \<in> set (named_tasks cum itasks rq tid tasknames) \<Longrightarrow>
     \<exists>n \<in> set tasknames. endswith d ('':'' @ n)"
  by (auto simp: named_tasks_def suffix_def)

lemma inherited_fresh:
  "set (inherited_tasks recs rq tid) \<inter> deps_set rq tid = {}" "distinct (inherited_tasks recs rq tid)"
  by (auto simp: inherited_tasks_def deps_set_def)

lemma rec_task_grows:
  assumes "task \<in> set rectasks"
  shows "grows rectasks s (snd (rec_task cum rectasks itasks task s))"
proof -
  obtain tid tasknames rq n where t: "task = (tid, tasknames)" "s = (rq, n)" by (metis surj_pair)
  show ?thesis
  proof (cases "tid \<in> set (dkeys rq)")
    case True
    define s1 where "s1 = foldl (add_extra tid) (rq, n) (named_tasks cum itasks rq tid tasknames)"
    obtain rq1 n1 where s1: "s1 = (rq1, n1)" by (cases s1)
    have 1: "grows rectasks (rq, n) s1"
      unfolding s1_def by (rule foldl_add_extra_grows) (use True assms t named_tasks_names in auto)
    then have "tid \<in> set (dkeys rq1)" using True by (simp add: grows_def s1)
    from foldl_add_inherited_grows [OF this _ inherited_fresh(2) inherited_fresh(1)] assms t
    have "grows rectasks s1 (foldl (add_inherited tid tasknames) s1 (inherited_tasks rectasks rq1 tid))"
      by (simp add: s1)
    from grows_trans [OF 1 this] show ?thesis
      using True by (simp add: rec_task_def t Let_def s1_def [symmetric] s1)
  qed (simp add: rec_task_def t)
qed

lemma rec_pass_grows: "grows rectasks (rq, 0) (snd (rec_pass cum rectasks itasks rq))"
  unfolding rec_pass_def
  by (rule foreach_rel [where R = "grows rectasks"]) (auto intro: grows_trans rec_task_grows)

text \<open>The pairs that a pass can still add; every pass that counts something makes them fewer.\<close>

definition missing :: "names \<Rightarrow> runq \<Rightarrow> (string \<times> string) set" where
  "missing recs rq = set (dkeys recs) \<times> set (dkeys rq) - dep_rel rq"

lemma grows_missing:
  assumes "grows recs (rq, n) (rq', n')" "n < n'"
  shows "card (missing recs rq') < card (missing recs rq)"
proof (rule psubset_card_mono)
  show "finite (missing recs rq)" by (simp add: missing_def)
  obtain t d where td: "d \<in> deps_set rq' t" "d \<notin> deps_set rq t"
    using assms unfolding grows_def prod.case by blast
  then have "addable recs rq t d" using assms unfolding grows_def prod.case by blast
  then have "(t, d) \<in> missing recs rq" using td by (force simp: addable_def missing_def dep_rel_def deps_set_def)
  moreover have "(t, d) \<notin> missing recs rq'" using td by (auto simp: missing_def dep_rel_def deps_set_def)
  moreover have "missing recs rq' \<subseteq> missing recs rq"
    using assms unfolding grows_def prod.case missing_def dep_rel_def deps_set_def by auto
  ultimately show "missing recs rq' \<subset> missing recs rq" by blast
qed

lemma rec_pass_missing:
  assumes "(r, s) = rec_pass cum recs itasks rq" "(rq1, n) = s" "n \<noteq> 0"
  shows "card (missing recs rq1) < card (missing recs rq)"
proof -
  have "snd (rec_pass cum recs itasks rq) = (rq1, n)" using assms by (metis snd_conv)
  with rec_pass_grows [of recs rq cum itasks] grows_missing [of recs rq 0 rq1 n] assms(3)
  show ?thesis by simp
qed

function rec_loop :: "names \<Rightarrow> names \<Rightarrow> names \<Rightarrow> runq \<Rightarrow> unit result \<times> runq" where
  "rec_loop cum rectasks itasks rq =
     (case rec_pass cum rectasks itasks rq of
        (Inl e, (rq1, n)) \<Rightarrow> (Inl e, rq1)
      | (Inr _, (rq1, n)) \<Rightarrow> if n = 0 then (Inr (), rq1) else rec_loop cum rectasks itasks rq1)"
  by pat_completeness auto
termination
  by (relation "measure (\<lambda>(cum, recs, itasks, rq). card (missing recs rq))")
    (simp, unfold in_measure prod.case, erule (2) rec_pass_missing)

declare rec_loop.simps [simp del]

text \<open>\<open>do_a[recrdeptask] = "do_a do_b"\<close>: the tasks that name themselves do not need each other.\<close>

definition drop_selfref :: "string list \<Rightarrow> runq \<Rightarrow> runq" where
  "drop_selfref selfs rq =
     foldl (\<lambda>q tid. case dget q tid of
              None \<Rightarrow> q
            | Some e \<Rightarrow> dset tid (e\<lparr>depends := filter (\<lambda>d. d \<notin> set selfs) (depends e)\<rparr>) q) rq selfs"

definition add_recursive :: "prep \<Rightarrow> unit result \<times> prep" where
  "add_recursive st =
     (case cumulativedeps (p_rq st) of
        Inl e \<Rightarrow> (Inl e, st)
      | Inr cum \<Rightarrow>
          (case rec_loop cum (recursivetasks st) (recursiveitasks st) (p_rq st) of
             (Inl e, rq) \<Rightarrow> (Inl e, st\<lparr>p_rq := rq\<rparr>)
           | (Inr _, rq) \<Rightarrow> (Inr (), st\<lparr>p_rq := drop_selfref (recursivetasksselfref st) rq\<rparr>)))"

section \<open>What the loop has reached when it ends\<close>

lemma foldl_mono:
  fixes m :: "'s \<Rightarrow> nat"
  assumes "\<And>s x. m s \<le> m (f s x)"
  shows "m s \<le> m (foldl f s xs)"
  by (induction xs arbitrary: s) (auto intro: order_trans assms)

lemma add_extra_count: "snd s \<le> snd (add_extra tid s d)"
  by (cases s) (simp add: add_extra_def)

lemma add_inherited_count: "snd s \<le> snd (add_inherited tid tasknames s d)"
  by (cases s) (simp add: add_inherited_def Let_def)

lemma add_extra_fixed:
  "snd (foldl (add_extra tid) (rq, n) ds) = n \<Longrightarrow> d \<in> set ds \<Longrightarrow> d \<noteq> tid \<Longrightarrow> d \<in> set (dkeys rq) \<Longrightarrow>
     d \<in> deps_set rq tid"
proof (induction ds)
  case (Cons x ds)
  show ?case
  proof (rule ccontr)
    assume d: "d \<notin> deps_set rq tid"
    have le: "snd (add_extra tid (rq, n) x) \<le> n"
      using foldl_mono [of snd "add_extra tid" "add_extra tid (rq, n) x" ds, OF add_extra_count] Cons.prems(1)
      by simp
    then have same: "add_extra tid (rq, n) x = (rq, n)" by (auto simp: add_extra_def split: if_splits)
    show False
    proof (cases "d = x")
      case True
      with le d Cons.prems(3,4) show False by (simp add: add_extra_def deps_set_def)
    next
      case False
      with Cons same d show False by simp
    qed
  qed
qed simp

lemma add_inherited_fixed:
  "snd (foldl (add_inherited tid tasknames) (rq, n) ds) = n \<Longrightarrow> d \<in> set ds \<Longrightarrow> d \<in> set (dkeys rq) \<Longrightarrow>
     n' \<in> set tasknames \<Longrightarrow> \<not> endswith d ('':'' @ n')"
proof (induction ds)
  case (Cons x ds)
  show ?case
  proof
    assume e: "endswith d ('':'' @ n')"
    have le: "snd (add_inherited tid tasknames (rq, n) x) \<le> n"
      using foldl_mono [of snd "add_inherited tid tasknames" "add_inherited tid tasknames (rq, n) x" ds,
          OF add_inherited_count] Cons.prems(1) by simp
    then have same: "add_inherited tid tasknames (rq, n) x = (rq, n)"
      by (auto simp: add_inherited_def Let_def split: if_splits)
    show False
    proof (cases "d = x")
      case True
      have "0 < length (filter (\<lambda>taskname. endswith d ('':'' @ taskname)) tasknames)"
        using e Cons.prems(4) by (auto simp: filter_empty_conv)
      with le True Cons.prems(3) show False by (simp add: add_inherited_def)
    next
      case False
      with Cons same e show False by simp
    qed
  qed
qed simp

definition rec_closed_at :: "names \<Rightarrow> names \<Rightarrow> names \<Rightarrow> runq \<Rightarrow> string \<Rightarrow> string list \<Rightarrow> bool" where
  "rec_closed_at cum rectasks itasks rq tid tasknames \<longleftrightarrow>
     (\<forall>d \<in> set (named_tasks cum itasks rq tid tasknames).
        d \<in> set (dkeys rq) \<longrightarrow> d \<noteq> tid \<longrightarrow> d \<in> deps_set rq tid) \<and>
     (\<forall>r \<in> deps_set rq tid. r \<in> set (dkeys rectasks) \<longrightarrow> (\<forall>d \<in> deps_set rq r. \<forall>n \<in> set tasknames.
        d \<in> set (dkeys rq) \<longrightarrow> endswith d ('':'' @ n) \<longrightarrow> d \<in> deps_set rq tid))"

definition rec_closed :: "names \<Rightarrow> names \<Rightarrow> names \<Rightarrow> runq \<Rightarrow> bool" where
  "rec_closed cum rectasks itasks rq \<longleftrightarrow>
     (\<forall>(tid, tasknames) \<in> set rectasks. rec_closed_at cum rectasks itasks rq tid tasknames)"

lemma rec_task_fixed:
  assumes "rec_task cum rectasks itasks (tid, tasknames) (rq, n) = (Inr (), (rq, n))"
    and "(tid, tasknames) \<in> set rectasks"
  shows "rec_closed_at cum rectasks itasks rq tid tasknames"
proof -
  have tid: "tid \<in> set (dkeys rq)" using assms(1) by (auto simp: rec_task_def split: if_splits)
  define s1 where "s1 = foldl (add_extra tid) (rq, n) (named_tasks cum itasks rq tid tasknames)"
  have fin: "foldl (add_inherited tid tasknames) s1 (inherited_tasks rectasks (fst s1) tid) = (rq, n)"
    using assms(1) tid by (simp add: rec_task_def Let_def s1_def)
  have 1: "grows rectasks (rq, n) s1"
    unfolding s1_def by (rule foldl_add_extra_grows) (use tid assms(2) named_tasks_names in auto)
  have "snd s1 \<le> n"
    using foldl_mono [of snd "add_inherited tid tasknames" s1 "inherited_tasks rectasks (fst s1) tid",
        OF add_inherited_count] fin by simp
  with 1 have s1: "s1 = (rq, n)" by (cases s1) (auto simp: grows_def)
  have "snd (foldl (add_extra tid) (rq, n) (named_tasks cum itasks rq tid tasknames)) = n"
    using s1 by (simp add: s1_def)
  note A = add_extra_fixed [OF this]
  have "snd (foldl (add_inherited tid tasknames) (rq, n) (inherited_tasks rectasks rq tid)) = n"
    using fin s1 by simp
  note B = add_inherited_fixed [OF this]
  have C: "d \<in> set (inherited_tasks rectasks rq tid)"
    if "r \<in> deps_set rq tid" "r \<in> set (dkeys rectasks)" "d \<in> deps_set rq r" "d \<notin> deps_set rq tid" for r d
    using that by (auto simp: inherited_tasks_def deps_set_def)
  show ?thesis unfolding rec_closed_at_def using A B C by blast
qed

lemma foreach_grows_fixed:
  assumes "foreach f xs (rq, n) = (Inr (), (rq', n))" "\<And>x s. x \<in> set xs \<Longrightarrow> grows recs s (snd (f x s))"
  shows "rq' = rq \<and> (\<forall>x \<in> set xs. f x (rq, n) = (Inr (), (rq, n)))"
  using assms
proof (induction xs)
  case (Cons x xs)
  obtain rq1 n1 where fx: "f x (rq, n) = (Inr (), (rq1, n1))" "foreach f xs (rq1, n1) = (Inr (), (rq', n))"
    using Cons.prems(1) by (auto split: prod.splits sum.splits)
  have "grows recs (rq, n) (rq1, n1)" using Cons.prems(2) [of x "(rq, n)"] fx(1) by simp
  moreover have "grows recs (rq1, n1) (snd (foreach f xs (rq1, n1)))"
    by (rule foreach_rel [where R = "grows recs"]) (use Cons.prems(2) grows_trans in auto)
  ultimately have "n1 = n" "rq1 = rq" unfolding fx(2) by (auto simp: grows_def)
  with Cons.IH fx Cons.prems(2) show ?case by auto
qed simp

lemma foreach_ok:
  assumes "P s" "\<And>x s. x \<in> set xs \<Longrightarrow> P s \<Longrightarrow> fst (f x s) = Inr () \<and> P (snd (f x s))"
  shows "fst (foreach f xs s) = Inr ()"
  using assms
proof (induction xs arbitrary: s)
  case (Cons x xs)
  obtain s' where "f x s = (Inr (), s')" "P s'"
    using Cons.prems(1) Cons.prems(2) [of x s] by (cases "f x s") auto
  with Cons.IH [of s'] Cons.prems(2) show ?case by auto
qed simp

lemma rec_pass_ok:
  assumes "set (dkeys rectasks) \<subseteq> set (dkeys rq)"
  shows "fst (rec_pass cum rectasks itasks rq) = Inr ()"
  unfolding rec_pass_def
proof (rule foreach_ok [where P = "\<lambda>s :: runq \<times> nat. dkeys (fst s) = dkeys rq"])
  fix task and s :: "runq \<times> nat" assume t: "task \<in> set rectasks" "dkeys (fst s) = dkeys rq"
  then have "dkeys (fst (snd (rec_task cum rectasks itasks task s))) = dkeys (fst s)"
    using rec_task_grows [OF t(1), of s cum itasks] by (auto simp: grows_def split: prod.splits)
  moreover have "fst task \<in> set (dkeys (fst s))" unfolding t(2) using t(1) assms by auto
  then have "fst (rec_task cum rectasks itasks task s) = Inr ()"
    by (cases task; cases s) (simp add: rec_task_def Let_def del: set_map)
  ultimately show "fst (rec_task cum rectasks itasks task s) = Inr () \<and>
      dkeys (fst (snd (rec_task cum rectasks itasks task s))) = dkeys rq" using t(2) by simp
qed simp

lemma rec_loop_result:
  assumes "set (dkeys rectasks) \<subseteq> set (dkeys rq)"
  shows "\<exists>rq' n. rec_loop cum rectasks itasks rq = (Inr (), rq') \<and> grows rectasks (rq, 0) (rq', n) \<and>
    rec_closed cum rectasks itasks rq'"
  using assms
proof (induction cum rectasks itasks rq rule: rec_loop.induct)
  case (1 cum rectasks itasks rq)
  obtain rq1 n where p: "rec_pass cum rectasks itasks rq = (Inr (), (rq1, n))"
    using rec_pass_ok [OF 1(2), of cum itasks] by (metis prod.collapse)
  note g = rec_pass_grows [of rectasks rq cum itasks, unfolded p snd_conv]
  show ?case
  proof (cases "n = 0")
    case True
    have "rq1 = rq \<and> (\<forall>task \<in> set rectasks. rec_task cum rectasks itasks task (rq, 0) = (Inr (), (rq, 0)))"
      by (rule foreach_grows_fixed [where recs = rectasks])
        (use p True rec_task_grows in \<open>auto simp: rec_pass_def\<close>)
    then have "rec_closed cum rectasks itasks rq1"
      unfolding rec_closed_def using rec_task_fixed by blast
    with p True g show ?thesis by (intro exI [of _ rq1] exI [of _ 0]) (simp add: rec_loop.simps)
  next
    case False
    have "set (dkeys rectasks) \<subseteq> set (dkeys rq1)" using 1(2) g by (simp add: grows_def)
    from 1(1) [OF p [symmetric] refl refl False this] obtain rq' n' where
      r: "rec_loop cum rectasks itasks rq1 = (Inr (), rq')" "grows rectasks (rq1, 0) (rq', n')"
      "rec_closed cum rectasks itasks rq'" by blast
    have "grows rectasks (rq1, n) (rq', n + n')" using r(2) by (auto simp: grows_def)
    with g have "grows rectasks (rq, 0) (rq', n + n')" by (rule grows_trans)
    with r p False show ?thesis by (intro exI [of _ rq'] exI [of _ "n + n'"]) (simp add: rec_loop.simps [of cum rectasks itasks rq])
  qed
qed

lemma drop_selfref_simps:
  "dkeys (drop_selfref selfs rq) = dkeys rq"
  "revdeps_of (drop_selfref selfs rq) t = revdeps_of rq t"
  "depends_of (drop_selfref selfs rq) t =
     (if t \<in> set selfs then filter (\<lambda>d. d \<notin> set selfs) (depends_of rq t) else depends_of rq t)"
proof -
  let ?step = "\<lambda>q tid. case dget q tid of
      None \<Rightarrow> q | Some e \<Rightarrow> dset tid (e\<lparr>depends := filter (\<lambda>d. d \<notin> set selfs) (depends e)\<rparr>) q"
  have one: "dkeys (?step q tid) = dkeys q \<and> revdeps_of (?step q tid) t = revdeps_of q t \<and>
      depends_of (?step q tid) t =
        (if t = tid then filter (\<lambda>d. d \<notin> set selfs) (depends_of q t) else depends_of q t)" for q :: runq and tid t
    using dget_in_dkeys [of tid q]
    by (auto simp: depends_of_def revdeps_of_def dkeys_dset_same split: option.splits)
  have "dkeys (foldl ?step q ts) = dkeys q \<and> revdeps_of (foldl ?step q ts) t = revdeps_of q t \<and>
      depends_of (foldl ?step q ts) t =
        (if t \<in> set ts then filter (\<lambda>d. d \<notin> set selfs) (depends_of q t) else depends_of q t)" for ts q
    by (induction ts arbitrary: q) (auto simp: one)
  then show "dkeys (drop_selfref selfs rq) = dkeys rq"
    "revdeps_of (drop_selfref selfs rq) t = revdeps_of rq t"
    "depends_of (drop_selfref selfs rq) t =
       (if t \<in> set selfs then filter (\<lambda>d. d \<notin> set selfs) (depends_of rq t) else depends_of rq t)"
    by (simp_all add: drop_selfref_def)
qed

lemma deps_set_drop_selfref:
  "deps_set (drop_selfref selfs rq) t = (if t \<in> set selfs then deps_set rq t - set selfs else deps_set rq t)"
  by (auto simp: deps_set_def drop_selfref_simps)

lemma depends_total: "d \<in> deps_set rq tid \<Longrightarrow> d \<in> set (total_deps itasks rq tid)"
proof -
  have "d \<in> set xs \<Longrightarrow> d \<in> set (foldl (\<lambda>ds t. union_new ds (depends_of rq t)) xs ts)" for xs ts
    by (induction ts arbitrary: xs) auto
  then show "d \<in> deps_set rq tid \<Longrightarrow> ?thesis"
    by (auto simp: total_deps_def deps_set_def split: option.splits)
qed


text \<open>
  An example: \<open>i:r\<close> wants task \<open>p\<close> of all recipes below it; \<open>b\<close> is reached through \<open>a\<close>.
\<close>

definition st_rec :: prep where
  "st_rec = (init_prep [])
     \<lparr>p_rq := [(''i:r'', entry_on [''a:p'']), (''a:p'', entry_on [''b:x'']), (''b:x'', entry_on []),
        (''b:p'', entry_on [])], recursivetasks := [(''i:r'', [''p''])]\<rparr>"


end
