(* ===== verification/RunPrune.thy ===== *)
theory RunPrune
  imports RunRecur
begin

text \<open>
  Steps B and C of \<open>RunQueueData.prepare\<close> (\<open>poky/bitbake/lib/bb/runqueue.py\<close>): the tasks that the
  targets need are marked, \<open>--runall\<close> and \<open>--runonly\<close> change what is wanted, and the rest is
  deleted from the queue.  \<open>invalidated\<close> lists the calls of \<open>siggen.invalidate_task\<close>; the calls of
  the recursive function are bounded by fuel that no run uses up.
\<close>

section \<open>State\<close>

record prune =
  pr_rq :: runq
  runq_build :: "string list"
  target_tids :: "string list"
  invalidated :: "(string \<times> string) list"

record run_opts =
  runall :: "string list"
  runonly :: "string list"
  force :: bool
  nosetscene :: bool
  invalidate_stamp :: "string option"

section \<open>Marking\<close>

fun mark_active :: "nat \<Rightarrow> runq \<Rightarrow> string \<Rightarrow> string list \<Rightarrow> unit result \<times> string list" where
  "mark_active 0 rq tid b = (Inl OutOfFuel, b)"
| "mark_active (Suc n) rq tid b =
     (if tid \<in> set b then (Inr (), b)
      else (case dget rq tid of
              None \<Rightarrow> (Inl KeyError, b @ [tid])
            | Some e \<Rightarrow> foreach (mark_active n rq) (depends e) (b @ [tid])))"

definition mark :: "string \<Rightarrow> prune \<Rightarrow> unit result \<times> prune" where
  "mark tid st =
     (case mark_active (Suc (length (pr_rq st))) (pr_rq st) tid (runq_build st) of
        (r, b) \<Rightarrow> (r, st\<lparr>runq_build := b\<rparr>))"

definition invalidate_task :: "(string \<Rightarrow> tables) \<Rightarrow> bool \<Rightarrow> string \<Rightarrow> prune \<Rightarrow> unit result \<times> prune" where
  "invalidate_task T error_nostamp tid st =
     (case split_tid_mcfn tid of
        None \<Rightarrow> (Inl ValueError, st)
      | Some (mc, fn, taskname, taskfn) \<Rightarrow>
          (case task_flag (t_deps (T mc) taskfn) ''nostamp'' taskname of
             Some _ \<Rightarrow> (if error_nostamp then Inl Fatal else Inr (), st)
           | None \<Rightarrow> (Inr (), st\<lparr>invalidated := invalidated st @ [(taskname, taskfn)]\<rparr>)))"

text \<open>One target \<open>(mc, target, task, fn)\<close>: a task written \<open>xxx-\<close> only runs its dependencies.\<close>

definition mark_target ::
  "(string \<times> td_state) list \<Rightarrow> string \<times> string \<times> string \<times> string \<Rightarrow> prune \<Rightarrow> unit result \<times> prune"
where
  "mark_target tds t st =
     (case t of (mc, target, task, fn) \<Rightarrow>
        (case dget tds mc of
           None \<Rightarrow> (Inl KeyError, st)
         | Some td \<Rightarrow>
             if first_provider (build_targets td) target = None then (Inr (), st)
             else if target \<in> set (failed_deps td) then (Inr (), st)
             else if fn \<in> set (failed_fns td) then (Inr (), st)
             else (let is_parents = endswith task ''-'';
                       tid = fn @ '':'' @ (if is_parents then butlast task else task);
                       st1 = st\<lparr>target_tids := target_tids st @ [tid]\<rparr>
                   in if tid \<notin> set (dkeys (taskentries td)) then (Inl Fatal, st1)
                      else if is_parents
                           then (case dget (pr_rq st1) tid of
                                   None \<Rightarrow> (Inl KeyError, st1)
                                 | Some e \<Rightarrow> foreach mark (depends e) st1)
                           else mark tid st1)))"

definition mark_targets ::
  "(string \<times> td_state) list \<Rightarrow> (string \<times> string \<times> string \<times> string) list \<Rightarrow> prune \<Rightarrow> unit result \<times> prune"
where
  "mark_targets tds targets = foreach (mark_target tds) targets"

section \<open>The options runall and runonly\<close>

definition do_name :: "string \<Rightarrow> string" where
  "do_name task = (if startswith task ''do_'' then task else ''do_'' @ task)"

definition runall_mark ::
  "(string \<Rightarrow> tables) \<Rightarrow> run_opts \<Rightarrow> string \<Rightarrow> prune \<Rightarrow> unit result \<times> prune"
where
  "runall_mark T opts tid st =
     seq_st (mark tid st) (\<lambda>st1.
       let st2 = st1\<lparr>target_tids := target_tids st1 @ [tid]\<rparr>
       in if force opts then invalidate_task T False tid st2 else (Inr (), st2))"

definition wanted :: "runq \<Rightarrow> string \<Rightarrow> string list \<Rightarrow> string list \<Rightarrow> string list" where
  "wanted rq task reduced tids =
     foldl (\<lambda>ts tid. let w = fn_from_tid tid @ '':'' @ task
                     in if w \<in> set (dkeys rq) then append_new w ts else ts) tids reduced"

definition runall_task ::
  "(string \<Rightarrow> tables) \<Rightarrow> run_opts \<Rightarrow> string list \<Rightarrow> string \<Rightarrow> prune \<times> string list \<Rightarrow>
     unit result \<times> prune \<times> string list"
where
  "runall_task T opts reduced task s =
     (case s of (st, tids) \<Rightarrow>
        (let tids1 = wanted (pr_rq st) (do_name task) reduced tids
         in case foreach (runall_mark T opts) tids1 st of (r, st1) \<Rightarrow> (r, st1, tids1)))"

definition runall_round ::
  "(string \<Rightarrow> tables) \<Rightarrow> run_opts \<Rightarrow> prune \<Rightarrow> unit result \<times> prune \<times> string list"
where
  "runall_round T opts st =
     (let reduced = filter (\<lambda>t. t \<in> set (runq_build st)) (dkeys (pr_rq st))
      in foreach (runall_task T opts reduced) (runall opts) (st\<lparr>runq_build := []\<rparr>, []))"

fun runall_loop ::
  "nat \<Rightarrow> (string \<Rightarrow> tables) \<Rightarrow> run_opts \<Rightarrow> string list \<Rightarrow> prune \<Rightarrow> unit result \<times> prune"
where
  "runall_loop 0 T opts orig st = (Inl OutOfFuel, st)"
| "runall_loop (Suc n) T opts orig st =
     (case runall_round T opts st of
        (Inl e, (st1, _)) \<Rightarrow> (Inl e, st1)
      | (Inr _, (st1, tids)) \<Rightarrow>
          if set tids \<subseteq> set orig then (Inr (), st1) else runall_loop n T opts tids st1)"

definition delete_unmarked :: "prune \<Rightarrow> prune" where
  "delete_unmarked st = st\<lparr>pr_rq := filter (\<lambda>(t, e). t \<in> set (runq_build st)) (pr_rq st)\<rparr>"

definition apply_runall :: "(string \<Rightarrow> tables) \<Rightarrow> run_opts \<Rightarrow> prune \<Rightarrow> unit result \<times> prune" where
  "apply_runall T opts st =
     seq_st (if runall opts = [] then (Inr (), st)
             else runall_loop (length (pr_rq st) + 2) T opts [] st) (\<lambda>st1.
       let st2 = delete_unmarked st1
       in if runall opts \<noteq> [] \<and> pr_rq st2 = [] then (Inl Fatal, st2) else (Inr (), st2))"

fun tids_of_task :: "string \<Rightarrow> string list \<Rightarrow> string list result" where
  "tids_of_task task [] = Inr []"
| "tids_of_task task (k # ks) =
     (case taskname_from_tid k of
        None \<Rightarrow> Inl IndexError
      | Some t \<Rightarrow> bind_res (tids_of_task task ks) (\<lambda>rest. Inr (if t = task then k # rest else rest)))"

definition runonly_mark ::
  "(string \<Rightarrow> tables) \<Rightarrow> run_opts \<Rightarrow> string \<Rightarrow> prune \<Rightarrow> unit result \<times> prune"
where
  "runonly_mark T opts tid st =
     seq_st (mark tid st) (\<lambda>st1. if force opts then invalidate_task T False tid st1 else (Inr (), st1))"

definition runonly_task ::
  "(string \<Rightarrow> tables) \<Rightarrow> run_opts \<Rightarrow> string \<Rightarrow> prune \<Rightarrow> unit result \<times> prune"
where
  "runonly_task T opts task st =
     (case tids_of_task (do_name task) (dkeys (pr_rq st)) of
        Inl e \<Rightarrow> (Inl e, st) | Inr tids \<Rightarrow> foreach (runonly_mark T opts) tids st)"

definition apply_runonly :: "(string \<Rightarrow> tables) \<Rightarrow> run_opts \<Rightarrow> prune \<Rightarrow> unit result \<times> prune" where
  "apply_runonly T opts st =
     (if runonly opts = [] then (Inr (), st)
      else seq_st (foreach (runonly_task T opts) (runonly opts) (st\<lparr>runq_build := []\<rparr>)) (\<lambda>st1.
             let st2 = delete_unmarked st1
             in if pr_rq st2 = [] then (Inl Fatal, st2) else (Inr (), st2)))"

text \<open>Steps B and C together, with the check that something is left to run.\<close>

definition prune_queue ::
  "(string \<Rightarrow> tables) \<Rightarrow> run_opts \<Rightarrow> (string \<times> td_state) list \<Rightarrow>
     (string \<times> string \<times> string \<times> string) list \<Rightarrow> prune \<Rightarrow> unit result \<times> prune"
where
  "prune_queue T opts tds targets st =
     seq_st (mark_targets tds targets st) (\<lambda>st1.
     seq_st (apply_runall T opts st1) (\<lambda>st2.
     seq_st (apply_runonly T opts st2) (\<lambda>st3.
       if pr_rq st3 = [] then (Inl Fatal, st3) else (Inr (), st3))))"

definition init_prune :: "runq \<Rightarrow> prune" where
  "init_prune rq = \<lparr>pr_rq = rq, runq_build = [], target_tids = [], invalidated = []\<rparr>"

section \<open>Marking marks what is reachable\<close>

abbreviation reach :: "runq \<Rightarrow> string set \<Rightarrow> string set" where
  "reach rq W \<equiv> (dep_rel rq)\<^sup>* `` W"

text \<open>
  What a call leaves behind although the list it got may hold tasks whose calls are still under
  way: the tasks it added itself have all their dependencies on the list.
\<close>

definition marks :: "runq \<Rightarrow> string set \<Rightarrow> string list \<Rightarrow> string list \<Rightarrow> bool" where
  "marks rq W b b' \<longleftrightarrow> set b \<subseteq> set b' \<and> W \<subseteq> set b' \<and> set b' \<subseteq> set b \<union> reach rq W \<and>
     (\<forall>x \<in> set b' - set b. deps_set rq x \<subseteq> set b')"

lemma reach_mono: "V \<subseteq> W \<Longrightarrow> reach rq V \<subseteq> reach rq W"
  by (rule Image_mono) simp_all

lemma marksD:
  assumes "marks rq W b b'"
  shows "set b \<subseteq> set b'" "W \<subseteq> set b'" "set b' \<subseteq> set b \<union> reach rq W"
    "\<forall>x \<in> set b' - set b. deps_set rq x \<subseteq> set b'"
  by (insert assms, unfold marks_def, (elim conjE, assumption)+)

lemma marks_trans:
  assumes "marks rq V b c" "marks rq W c d"
  shows "marks rq (V \<union> W) b d"
proof -
  note A = marksD [OF assms(1)] and B = marksD [OF assms(2)]
  have new: "deps_set rq x \<subseteq> set d" if "x \<in> set d" "x \<notin> set b" for x
  proof (cases "x \<in> set c")
    case True
    with that A(4) B(1) show ?thesis by blast
  next
    case False
    with that B(4) show ?thesis by blast
  qed
  have "set d \<subseteq> set b \<union> reach rq (V \<union> W)"
    unfolding Image_Un by (rule subset_trans [OF B(3)]) (use A(3) in blast)
  moreover have "set b \<subseteq> set d" "V \<union> W \<subseteq> set d" using A(1,2) B(1,2) by blast+
  ultimately show ?thesis using new unfolding marks_def by simp
qed

lemma mark_active_ok:
  assumes closed: "\<And>t. deps_set rq t \<subseteq> set (dkeys rq)"
  shows "tid \<in> set (dkeys rq) \<Longrightarrow> card (set (dkeys rq) - set b) < n \<Longrightarrow>
    \<exists>b'. mark_active n rq tid b = (Inr (), b') \<and> marks rq {tid} b b'"
proof (induction n arbitrary: tid b)
  case (Suc n)
  show ?case
  proof (cases "tid \<in> set b")
    case True
    then show ?thesis by (auto simp: marks_def)
  next
    case False
    obtain e where e: "dget rq tid = Some e" using Suc.prems(1) dget_in_dkeys [of tid rq] by auto
    then have ds: "set (depends e) = deps_set rq tid" by (simp add: deps_set_def depends_of_def)
    have all: "\<exists>b'. foreach (mark_active n rq) ds c = (Inr (), b') \<and> marks rq (set ds) c b'"
      if "set ds \<subseteq> set (dkeys rq)" "card (set (dkeys rq) - set c) < n" for ds c
      using that
    proof (induction ds arbitrary: c)
      case (Cons d ds)
      have "d \<in> set (dkeys rq)" using Cons.prems(1) by simp
      from Suc.IH [OF this Cons.prems(2)] obtain c1 where
        c1: "mark_active n rq d c = (Inr (), c1)" "marks rq {d} c c1" by blast
      have "card (set (dkeys rq) - set c1) \<le> card (set (dkeys rq) - set c)"
        by (rule card_mono) (use c1(2) in \<open>auto simp: marks_def\<close>)
      with Cons.prems have "set ds \<subseteq> set (dkeys rq)" "card (set (dkeys rq) - set c1) < n" by auto
      from Cons.IH [OF this] obtain c2 where
        c2: "foreach (mark_active n rq) ds c1 = (Inr (), c2)" "marks rq (set ds) c1 c2" by blast
      from marks_trans [OF c1(2) c2(2)] c1(1) c2(1) show ?case by simp
    qed (simp add: marks_def)
    have "card (set (dkeys rq) - set (b @ [tid])) < card (set (dkeys rq) - set b)"
      by (rule psubset_card_mono) (use Suc.prems(1) False in auto)
    with Suc.prems(2) have "card (set (dkeys rq) - set (b @ [tid])) < n" by simp
    from all [OF _ this, of "depends e"] closed [of tid] ds obtain b' where
      b': "foreach (mark_active n rq) (depends e) (b @ [tid]) = (Inr (), b')"
      "marks rq (deps_set rq tid) (b @ [tid]) b'" by auto
    have "reach rq (deps_set rq tid) \<subseteq> reach rq {tid}"
      by (auto simp: deps_set_def dep_rel_def intro: converse_rtrancl_into_rtrancl)
    moreover have "tid \<in> reach rq {tid}" by simp
    ultimately have "marks rq {tid} b b'"
      using b'(2) unfolding marks_def set_append list.set by blast
    with b'(1) e False show ?thesis by simp
  qed
qed simp

text \<open>Between the calls the marked tasks are closed under dependencies.\<close>

definition marked_ok :: "runq \<Rightarrow> string set \<Rightarrow> bool" where
  "marked_ok rq B \<longleftrightarrow> B \<subseteq> set (dkeys rq) \<and> (\<forall>x \<in> B. deps_set rq x \<subseteq> B)"

lemma marked_ok_reach:
  assumes "\<And>t. deps_set rq t \<subseteq> set (dkeys rq)" "W \<subseteq> set (dkeys rq)"
  shows "marked_ok rq (reach rq W)"
proof -
  have "d \<in> set (dkeys rq)" if "(w, d) \<in> (dep_rel rq)\<^sup>*" "w \<in> W" for w d
    using that by induction (use assms in \<open>auto simp: dep_rel_def deps_set_def\<close>)
  then show ?thesis
    by (auto simp: marked_ok_def dep_rel_def deps_set_def Image_iff intro: rtrancl_into_rtrancl)
qed

lemma reach_closed: "marked_ok rq B \<Longrightarrow> W \<subseteq> B \<Longrightarrow> reach rq W \<subseteq> B"
proof
  fix d assume ok: "marked_ok rq B" "W \<subseteq> B" and "d \<in> reach rq W"
  then obtain w where "(w, d) \<in> (dep_rel rq)\<^sup>*" "w \<in> W" by blast
  then show "d \<in> B" by induction (use ok in \<open>auto simp: marked_ok_def dep_rel_def deps_set_def\<close>)
qed

lemma mark_ok:
  assumes closed: "\<And>t. deps_set (pr_rq st) t \<subseteq> set (dkeys (pr_rq st))"
    and "marked_ok (pr_rq st) (set (runq_build st))" "tid \<in> set (dkeys (pr_rq st))"
  obtains b where "mark tid st = (Inr (), st\<lparr>runq_build := b\<rparr>)" "marked_ok (pr_rq st) (set b)"
    "set b = set (runq_build st) \<union> reach (pr_rq st) {tid}"
proof -
  have "card (set (dkeys (pr_rq st)) - set (runq_build st)) \<le> card (set (dkeys (pr_rq st)))"
    by (rule card_mono) auto
  also have "\<dots> \<le> length (pr_rq st)" using card_length [of "dkeys (pr_rq st)"] by simp
  finally have "card (set (dkeys (pr_rq st)) - set (runq_build st)) < Suc (length (pr_rq st))" by simp
  from mark_active_ok [OF closed assms(3) this] obtain b where
    b: "mark_active (Suc (length (pr_rq st))) (pr_rq st) tid (runq_build st) = (Inr (), b)"
    "marks (pr_rq st) {tid} (runq_build st) b" by blast
  have 1: "\<forall>x \<in> set b. deps_set (pr_rq st) x \<subseteq> set b"
    using b(2) assms(2) unfolding marks_def marked_ok_def by blast
  have "reach (pr_rq st) {tid} \<subseteq> set (dkeys (pr_rq st))"
    using marked_ok_reach [OF closed, of "{tid}"] assms(3) by (simp add: marked_ok_def)
  with b(2) assms(2) have "set b \<subseteq> set (dkeys (pr_rq st))" unfolding marks_def marked_ok_def by blast
  with 1 have ok: "marked_ok (pr_rq st) (set b)" by (simp add: marked_ok_def)
  moreover have "reach (pr_rq st) {tid} \<subseteq> set b"
    by (rule reach_closed [OF ok]) (use b(2) in \<open>auto simp: marks_def\<close>)
  with b(2) have "set b = set (runq_build st) \<union> reach (pr_rq st) {tid}" unfolding marks_def by blast
  moreover have "mark tid st = (Inr (), st\<lparr>runq_build := b\<rparr>)" using b(1) by (simp add: mark_def)
  ultimately show ?thesis by (intro that)
qed

section \<open>Loops that mark\<close>

definition prune_ok :: "runq \<Rightarrow> prune \<Rightarrow> bool" where
  "prune_ok rq st \<longleftrightarrow> pr_rq st = rq \<and> marked_ok rq (set (runq_build st))"

definition marked_by :: "runq \<Rightarrow> string set \<Rightarrow> prune \<Rightarrow> prune \<Rightarrow> bool" where
  "marked_by rq W st st' \<longleftrightarrow> prune_ok rq st' \<and> set (runq_build st') = set (runq_build st) \<union> reach rq W"

definition closed_queue :: "runq \<Rightarrow> bool" where
  "closed_queue rq \<longleftrightarrow> (\<forall>t. deps_set rq t \<subseteq> set (dkeys rq))"

lemma foreach_marked:
  assumes "prune_ok rq st"
    and "\<And>x s. x \<in> set xs \<Longrightarrow> prune_ok rq s \<Longrightarrow> \<exists>s'. f x s = (Inr (), s') \<and> marked_by rq (g x) s s'"
  shows "\<exists>st'. foreach f xs st = (Inr (), st') \<and> marked_by rq (\<Union>x \<in> set xs. g x) st st'"
  using assms
proof (induction xs arbitrary: st)
  case (Cons x xs)
  from Cons.prems(2) [of x st] Cons.prems(1) obtain s1 where
    1: "f x st = (Inr (), s1)" "marked_by rq (g x) st s1" by auto
  then have "prune_ok rq s1" by (simp add: marked_by_def)
  from Cons.IH [OF this] Cons.prems(2) obtain s2 where
    2: "foreach f xs s1 = (Inr (), s2)" "marked_by rq (\<Union>x \<in> set xs. g x) s1 s2" by auto
  have "marked_by rq (\<Union>x \<in> set (x # xs). g x) st s2"
    using 1(2) 2(2) unfolding marked_by_def list.set UN_insert Image_Un by blast
  with 1(1) 2(1) show ?case by simp
qed (simp add: marked_by_def)

lemma mark_marked:
  assumes "closed_queue rq" "prune_ok rq st" "tid \<in> set (dkeys rq)"
  shows "\<exists>st'. mark tid st = (Inr (), st') \<and> marked_by rq {tid} st st'"
proof -
  have rq: "pr_rq st = rq" using assms(2) by (simp add: prune_ok_def)
  have "\<And>t. deps_set (pr_rq st) t \<subseteq> set (dkeys (pr_rq st))" "marked_ok (pr_rq st) (set (runq_build st))"
    "tid \<in> set (dkeys (pr_rq st))"
    using assms unfolding rq by (simp_all add: closed_queue_def prune_ok_def)
  from mark_ok [OF this] obtain b where "mark tid st = (Inr (), st\<lparr>runq_build := b\<rparr>)"
    "marked_ok rq (set b)" "set b = set (runq_build st) \<union> reach rq {tid}"
    unfolding rq by blast
  then show ?thesis by (simp add: marked_by_def prune_ok_def rq)
qed

lemma foreach_mark:
  assumes "closed_queue rq" "prune_ok rq st" "set ds \<subseteq> set (dkeys rq)"
  shows "\<exists>st'. foreach mark ds st = (Inr (), st') \<and> marked_by rq (set ds) st st'"
proof -
  have "\<exists>st'. foreach mark ds st = (Inr (), st') \<and> marked_by rq (\<Union>x \<in> set ds. {x}) st st'"
    by (rule foreach_marked [OF assms(2)]) (use assms(3) mark_marked [OF assms(1)] in blast)
  then show ?thesis by simp
qed

lemma invalidate_marked:
  assumes "CHR '':'' \<in> set tid" "prune_ok rq st"
  shows "\<exists>st'. invalidate_task T False tid st = (Inr (), st') \<and> prune_ok rq st' \<and>
    runq_build st' = runq_build st"
proof -
  have "split_tid_mcfn tid \<noteq> None" using assms(1)
    by (auto simp: split_tid_mcfn_def Let_def split: option.splits)
  then show ?thesis using assms(2)
    by (auto simp: invalidate_task_def prune_ok_def split: option.splits prod.splits)
qed

lemma marked_by_upd:
  "marked_by rq W st s1 \<Longrightarrow> prune_ok rq s2 \<Longrightarrow> runq_build s2 = runq_build s1 \<Longrightarrow> marked_by rq W st s2"
  by (simp add: marked_by_def)

lemma runall_mark_marked:
  assumes "closed_queue rq" "prune_ok rq st" "tid \<in> set (dkeys rq)" "CHR '':'' \<in> set tid"
  shows "\<exists>st'. runall_mark T opts tid st = (Inr (), st') \<and> marked_by rq {tid} st st'"
proof -
  obtain s1 where 1: "mark tid st = (Inr (), s1)" "marked_by rq {tid} st s1"
    using mark_marked [OF assms(1-3)] by blast
  let ?s2 = "s1\<lparr>target_tids := target_tids s1 @ [tid]\<rparr>"
  have "prune_ok rq s1" using 1(2) by (simp add: marked_by_def)
  then have "prune_ok rq ?s2" by (simp add: prune_ok_def)
  from marked_by_upd [OF 1(2) this] invalidate_marked [OF assms(4) this, of T] 1
  show ?thesis by (auto simp: runall_mark_def Let_def intro: marked_by_upd)
qed

lemma runonly_mark_marked:
  assumes "closed_queue rq" "prune_ok rq st" "tid \<in> set (dkeys rq)" "CHR '':'' \<in> set tid"
  shows "\<exists>st'. runonly_mark T opts tid st = (Inr (), st') \<and> marked_by rq {tid} st st'"
proof -
  obtain s1 where 1: "mark tid st = (Inr (), s1)" "marked_by rq {tid} st s1"
    using mark_marked [OF assms(1-3)] by blast
  then have "prune_ok rq s1" by (simp add: marked_by_def)
  from invalidate_marked [OF assms(4) this, of T] 1
  show ?thesis by (auto simp: runonly_mark_def intro: marked_by_upd)
qed

section \<open>Targets\<close>

text \<open>The tasks a target stands for.\<close>

definition target_roots ::
  "(string \<times> td_state) list \<Rightarrow> runq \<Rightarrow> string \<times> string \<times> string \<times> string \<Rightarrow> string set"
where
  "target_roots tds rq t =
     (case t of (mc, target, task, fn) \<Rightarrow>
        (case dget tds mc of
           None \<Rightarrow> {}
         | Some td \<Rightarrow>
             if first_provider (build_targets td) target = None \<or> target \<in> set (failed_deps td) \<or>
                fn \<in> set (failed_fns td) then {}
             else if endswith task ''-'' then deps_set rq (fn @ '':'' @ butlast task)
             else {fn @ '':'' @ task}))"

definition entries_in :: "(string \<times> td_state) list \<Rightarrow> runq \<Rightarrow> bool" where
  "entries_in tds rq \<longleftrightarrow> (\<forall>mc td. dget tds mc = Some td \<longrightarrow> set (dkeys (taskentries td)) \<subseteq> set (dkeys rq))"

lemma mark_target_ok:
  assumes cl: "closed_queue rq" and ent: "entries_in tds rq" and ok: "prune_ok rq st"
    and mc: "fst t \<in> set (dkeys tds)"
  shows "(\<exists>st'. mark_target tds t st = (Inr (), st') \<and> marked_by rq (target_roots tds rq t) st st') \<or>
    fst (mark_target tds t st) = Inl Fatal"
proof -
  obtain mc target task fn where t: "t = (mc, target, task, fn)" by (metis prod_cases4)
  obtain td where td: "dget tds mc = Some td" using mc dget_in_dkeys [of mc tds] t by auto
  define tid where "tid = fn @ '':'' @ (if endswith task ''-'' then butlast task else task)"
  let ?s1 = "st\<lparr>target_tids := target_tids st @ [tid]\<rparr>"
  have ok1: "prune_ok rq ?s1" and rq1: "pr_rq ?s1 = rq" using ok by (simp_all add: prune_ok_def)
  have upd: "marked_by rq W ?s1 s \<Longrightarrow> marked_by rq W st s" for W s by (simp add: marked_by_def)
  consider (skip) "first_provider (build_targets td) target = None \<or> target \<in> set (failed_deps td) \<or>
      fn \<in> set (failed_fns td)"
    | (fatal) "first_provider (build_targets td) target \<noteq> None" "target \<notin> set (failed_deps td)"
      "fn \<notin> set (failed_fns td)" "tid \<notin> set (dkeys (taskentries td))"
    | (run) "first_provider (build_targets td) target \<noteq> None" "target \<notin> set (failed_deps td)"
      "fn \<notin> set (failed_fns td)" "tid \<in> set (dkeys (taskentries td))" by blast
  then show ?thesis
  proof cases
    case skip
    then have "mark_target tds t st = (Inr (), st)" "target_roots tds rq t = {}"
      by (auto simp: mark_target_def target_roots_def t td)
    with ok show ?thesis by (simp add: marked_by_def)
  next
    case fatal
    then have "fst (mark_target tds t st) = Inl Fatal"
      by (simp add: mark_target_def t td Let_def tid_def del: append_Cons append_Nil set_map not_None_eq)
    then show ?thesis ..
  next
    case run
    have key: "tid \<in> set (dkeys rq)" using run(4) ent td unfolding entries_in_def by blast
    show ?thesis
    proof (cases "endswith task ''-''")
      case True
      obtain e where e: "dget rq tid = Some e" using key dget_in_dkeys [of tid rq] by auto
      have ds: "set (depends e) = deps_set rq tid" using e by (simp add: deps_set_def depends_of_def)
      have "set (depends e) \<subseteq> set (dkeys rq)" using cl unfolding ds closed_queue_def by blast
      from foreach_mark [OF cl ok1 this] obtain s' where
        "foreach mark (depends e) ?s1 = (Inr (), s')" "marked_by rq (deps_set rq tid) ?s1 s'"
        unfolding ds by blast
      moreover have "mark_target tds t st = foreach mark (depends e) ?s1"
        using run True e rq1 by (simp add: mark_target_def t td Let_def tid_def del: append_Cons append_Nil set_map not_None_eq)
      moreover have "target_roots tds rq t = deps_set rq tid"
        using run True by (simp add: target_roots_def t td tid_def del: not_None_eq)
      ultimately show ?thesis using upd by auto
    next
      case False
      from mark_marked [OF cl ok1 key] obtain s' where
        "mark tid ?s1 = (Inr (), s')" "marked_by rq {tid} ?s1 s'" by blast
      moreover have "mark_target tds t st = mark tid ?s1"
        using run False by (simp add: mark_target_def t td Let_def tid_def del: append_Cons append_Nil set_map not_None_eq)
      moreover have "target_roots tds rq t = {tid}"
        using run False by (simp add: target_roots_def t td tid_def del: not_None_eq)
      ultimately show ?thesis using upd by auto
    qed
  qed
qed

lemma mark_targets_ok:
  assumes "closed_queue rq" "entries_in tds rq" "prune_ok rq st" "fst ` set targets \<subseteq> set (dkeys tds)"
  shows "(\<exists>st'. mark_targets tds targets st = (Inr (), st') \<and>
      marked_by rq (\<Union>t \<in> set targets. target_roots tds rq t) st st') \<or>
    fst (mark_targets tds targets st) = Inl Fatal"
  unfolding mark_targets_def using assms(3,4)
proof (induction targets arbitrary: st)
  case (Cons t ts)
  have "fst t \<in> set (dkeys tds)" using Cons.prems(2) by auto
  from mark_target_ok [OF assms(1,2) Cons.prems(1) this]
  show ?case
  proof
    assume "\<exists>st'. mark_target tds t st = (Inr (), st') \<and> marked_by rq (target_roots tds rq t) st st'"
    then obtain s1 where 1: "mark_target tds t st = (Inr (), s1)" "marked_by rq (target_roots tds rq t) st s1"
      by blast
    have step: "marked_by rq (\<Union>t \<in> set ts. target_roots tds rq t) s1 s2 \<Longrightarrow>
        marked_by rq (\<Union>t \<in> set (t # ts). target_roots tds rq t) st s2" for s2
      using 1(2) unfolding marked_by_def list.set UN_insert Image_Un by blast
    have "prune_ok rq s1" using 1(2) by (simp add: marked_by_def)
    from Cons.IH [OF this] Cons.prems(2) 1(1) step show ?thesis by auto
  next
    assume "fst (mark_target tds t st) = Inl Fatal"
    then show ?thesis by (cases "mark_target tds t st") simp
  qed
qed (simp add: marked_by_def)

section \<open>The runall loop reaches a fixed point\<close>

text \<open>The tasks that \<open>--runall\<close> wants when the tasks \<open>B\<close> are marked.\<close>

definition wants :: "runq \<Rightarrow> string list \<Rightarrow> string set \<Rightarrow> string set" where
  "wants rq names B =
     {w \<in> set (dkeys rq). \<exists>t \<in> B. \<exists>n \<in> set names. w = fn_from_tid t @ '':'' @ do_name n}"

lemma wants_keys: "wants rq names B \<subseteq> set (dkeys rq)"
  by (auto simp: wants_def)

lemma wants_mono: "A \<subseteq> B \<Longrightarrow> wants rq names A \<subseteq> wants rq names B"
  by (auto simp: wants_def)

lemma do_name_colon: "CHR '':'' \<notin> set n \<Longrightarrow> CHR '':'' \<notin> set (do_name n)"
  by (simp add: do_name_def)

text \<open>A wanted task wants itself again: the loop only ever gains tasks.\<close>

lemma wants_again:
  assumes "\<forall>n \<in> set names. CHR '':'' \<notin> set n" "wants rq names B \<subseteq> C"
  shows "wants rq names B \<subseteq> wants rq names C"
proof
  fix w assume w: "w \<in> wants rq names B"
  then obtain t n where n: "t \<in> B" "n \<in> set names" "w = fn_from_tid t @ '':'' @ do_name n"
    "w \<in> set (dkeys rq)" unfolding wants_def by blast
  have "CHR '':'' \<notin> set (do_name n)" using assms(1) n(2) do_name_colon by blast
  then have "fn_from_tid w = fn_from_tid t" unfolding n(3) by simp
  with n have "w = fn_from_tid w @ '':'' @ do_name n" by simp
  with w assms(2) n show "w \<in> wants rq names C" unfolding wants_def by blast
qed

lemma set_wanted:
  "set (wanted rq task reduced tids) =
     set tids \<union> {w \<in> set (dkeys rq). \<exists>t \<in> set reduced. w = fn_from_tid t @ '':'' @ task}"
proof -
  have "set (foldl (\<lambda>ts tid. let w = fn_from_tid tid @ '':'' @ task
        in if w \<in> set (dkeys rq) then append_new w ts else ts) ts reduced) =
      set ts \<union> {w \<in> set (dkeys rq). \<exists>t \<in> set reduced. w = fn_from_tid t @ '':'' @ task}" for ts
    by (induction reduced arbitrary: ts)
      (simp_all add: Let_def del: append_Cons append_Nil set_map, blast)
  then show ?thesis by (simp add: wanted_def)
qed

lemma runall_tasks_ok:
  assumes cl: "closed_queue rq" and colon: "\<forall>t \<in> set (dkeys rq). CHR '':'' \<in> set t"
  shows "prune_ok rq st \<Longrightarrow> set tids \<subseteq> set (dkeys rq) \<Longrightarrow> set (runq_build st) = reach rq (set tids) \<Longrightarrow>
    \<exists>st' tids'. foreach (runall_task T opts reduced) names (st, tids) = (Inr (), (st', tids')) \<and>
      prune_ok rq st' \<and> set tids' = set tids \<union> wants rq names (set reduced) \<and>
      set (runq_build st') = reach rq (set tids')"
proof (induction names arbitrary: st tids)
  case Nil
  then show ?case by (simp add: wants_def)
next
  case (Cons task names)
  have rq: "pr_rq st = rq" using Cons.prems(1) by (simp add: prune_ok_def)
  let ?tids = "wanted rq (do_name task) reduced tids"
  have keys: "set ?tids \<subseteq> set (dkeys rq)" using Cons.prems(2) unfolding set_wanted by blast
  have "\<exists>st'. foreach (runall_mark T opts) ?tids st = (Inr (), st') \<and>
      marked_by rq (\<Union>x \<in> set ?tids. {x}) st st'"
    by (rule foreach_marked [OF Cons.prems(1)])
      (rule runall_mark_marked [OF cl], assumption, use keys colon in blast, use keys colon in blast)
  then obtain s1 where 1: "foreach (runall_mark T opts) ?tids st = (Inr (), s1)"
    "marked_by rq (set ?tids) st s1" by auto
  have run: "runall_task T opts reduced task (st, tids) = (Inr (), (s1, ?tids))"
    using 1(1) rq by (simp add: runall_task_def)
  have ok1: "prune_ok rq s1" using 1(2) by (simp add: marked_by_def)
  have "set tids \<subseteq> set ?tids" unfolding set_wanted by blast
  then have b1: "set (runq_build s1) = reach rq (set ?tids)"
    using 1(2) Cons.prems(3) reach_mono [of "set tids" "set ?tids" rq] unfolding marked_by_def by blast
  from Cons.IH [OF ok1 keys b1] obtain st' tids' where
    2: "foreach (runall_task T opts reduced) names (s1, ?tids) = (Inr (), (st', tids'))" "prune_ok rq st'"
    "set tids' = set ?tids \<union> wants rq names (set reduced)" "set (runq_build st') = reach rq (set tids')"
    by blast
  have "set tids' = set tids \<union> wants rq (task # names) (set reduced)"
    unfolding 2(3) set_wanted wants_def by auto
  with run 2 show ?case by simp
qed

lemma runall_round_ok:
  assumes cl: "closed_queue rq" and colon: "\<forall>t \<in> set (dkeys rq). CHR '':'' \<in> set t" and ok: "prune_ok rq st"
  obtains st' tids where "runall_round T opts st = (Inr (), (st', tids))" "prune_ok rq st'"
    "set tids = wants rq (runall opts) (set (runq_build st))"
    "set (runq_build st') = reach rq (wants rq (runall opts) (set (runq_build st)))"
proof -
  let ?s = "st\<lparr>runq_build := []\<rparr>" and ?red = "filter (\<lambda>t. t \<in> set (runq_build st)) (dkeys (pr_rq st))"
  have "set (runq_build st) \<subseteq> set (dkeys rq)" using ok by (simp add: prune_ok_def marked_ok_def)
  then have red: "set ?red = set (runq_build st)" using ok by (auto simp: prune_ok_def)
  have "prune_ok rq ?s" "set [] \<subseteq> set (dkeys rq)" "set (runq_build ?s) = reach rq (set [])"
    using ok by (simp_all add: prune_ok_def marked_ok_def)
  from runall_tasks_ok [OF cl colon this, of T opts ?red "runall opts"] that
  show ?thesis unfolding runall_round_def Let_def red by auto
qed

text \<open>
  The loop ends: as long as it goes on it finds new wanted tasks.  In the end the marked tasks are
  exactly what the wanted tasks need, and no marked recipe has an unmarked wanted task.
\<close>

lemma runall_loop_ok:
  assumes cl: "closed_queue rq" and colon: "\<forall>t \<in> set (dkeys rq). CHR '':'' \<in> set t"
    and names: "\<forall>n \<in> set (runall opts). CHR '':'' \<notin> set n"
  shows "prune_ok rq st \<Longrightarrow> card (set (dkeys rq) - set orig) < n \<Longrightarrow> set orig \<subseteq> set (dkeys rq) \<Longrightarrow>
    set orig = {} \<or> set (runq_build st) = reach rq (set orig) \<Longrightarrow>
    set orig \<subseteq> wants rq (runall opts) (set (runq_build st)) \<Longrightarrow>
    \<exists>st'. runall_loop n T opts orig st = (Inr (), st') \<and> prune_ok rq st' \<and>
      wants rq (runall opts) (set (runq_build st)) \<subseteq> set (runq_build st') \<and>
      set (runq_build st') = reach rq (wants rq (runall opts) (set (runq_build st')))"
proof (induction n arbitrary: orig st)
  case (Suc n)
  let ?W = "wants rq (runall opts)"
  obtain s1 tids where 1: "runall_round T opts st = (Inr (), (s1, tids))" "prune_ok rq s1"
    "set tids = ?W (set (runq_build st))" "set (runq_build s1) = reach rq (set tids)"
    using runall_round_ok [OF cl colon Suc.prems(1)] by metis
  have sub: "set tids \<subseteq> set (runq_build s1)" unfolding 1(4) by blast
  have again: "set tids \<subseteq> ?W (set (runq_build s1))"
    unfolding 1(3) by (rule wants_again [OF names]) (use sub in \<open>simp add: 1(3)\<close>)
  show ?case
  proof (cases "set tids \<subseteq> set orig")
    case True
    then have eq: "set tids = set orig" using Suc.prems(5) 1(3) by blast
    have "?W (set (runq_build s1)) = set tids"
    proof (cases "set orig = {}")
      case True
      then show ?thesis using eq 1(4) by (simp add: wants_def)
    next
      case False
      then have "set (runq_build st) = set (runq_build s1)" using Suc.prems(4) 1(4) eq by simp
      then show ?thesis using 1(3) by simp
    qed
    then show ?thesis using True 1 sub by simp
  next
    case False
    have keys: "set tids \<subseteq> set (dkeys rq)" unfolding 1(3) by (rule wants_keys)
    have "set orig \<subseteq> set tids" using Suc.prems(5) 1(3) by blast
    then have "card (set (dkeys rq) - set tids) < card (set (dkeys rq) - set orig)"
      by (intro psubset_card_mono) (use False keys in auto)
    with Suc.prems(2) have "card (set (dkeys rq) - set tids) < n" by simp
    from Suc.IH [OF 1(2) this keys _ again] 1(4) obtain st' where
      2: "runall_loop n T opts tids s1 = (Inr (), st')" "prune_ok rq st'"
      "?W (set (runq_build s1)) \<subseteq> set (runq_build st')"
      "set (runq_build st') = reach rq (?W (set (runq_build st')))" by blast
    have "?W (set (runq_build st)) \<subseteq> set (runq_build st')" using again 2(3) unfolding 1(3) by blast
    with 1(1) 2 False show ?thesis by simp
  qed
qed simp

section \<open>Deleting what is not marked\<close>

lemma dget_filter_keys: "dget (filter (\<lambda>(t, e). P t) d) k = (if P k then dget d k else None)"
  by (induction d) auto

lemma dkeys_filter_keys: "dkeys (filter (\<lambda>(t, e). P t) d) = filter P (dkeys d)"
  by (induction d) auto

lemma restrict_queue:
  assumes ok: "queue_ok rq" and B: "marked_ok rq B"
  defines "rq' \<equiv> filter (\<lambda>(t, e). t \<in> B) rq"
  shows "queue_ok rq'" "set (dkeys rq') = B" "dep_rel rq' \<subseteq> dep_rel rq"
    "W \<subseteq> B \<Longrightarrow> reach rq' W = reach rq W"
proof -
  have deps: "depends_of rq' t = (if t \<in> B then depends_of rq t else [])" for t
    by (simp add: rq'_def depends_of_def dget_filter_keys)
  have "B \<subseteq> set (dkeys rq)" using B by (simp add: marked_ok_def)
  then show keys: "set (dkeys rq') = B" unfolding rq'_def dkeys_filter_keys by auto
  have "revdeps_of rq' t = []" for t
    using ok by (auto simp: rq'_def revdeps_of_def dget_filter_keys queue_ok_def split: option.splits)
  moreover have "wf_dict rq'"
    using ok unfolding wf_dict_def rq'_def dkeys_filter_keys by (simp add: queue_ok_def wf_dict_def)
  moreover have "set (depends_of rq' t) \<subseteq> set (dkeys rq')" for t
    unfolding keys using B by (auto simp: deps marked_ok_def deps_set_def)
  ultimately show "queue_ok rq'" using ok by (simp add: queue_ok_def deps)
  have rel: "dep_rel rq' = {(s, t) \<in> dep_rel rq. s \<in> B}"
    by (auto simp: dep_rel_def deps)
  show sub: "dep_rel rq' \<subseteq> dep_rel rq" unfolding rel by auto
  show "reach rq' W = reach rq W" if W: "W \<subseteq> B"
  proof
    show "reach rq' W \<subseteq> reach rq W" using rtrancl_mono [OF sub] by blast
    have "(w, d) \<in> (dep_rel rq')\<^sup>* \<and> d \<in> B" if "(w, d) \<in> (dep_rel rq)\<^sup>*" "w \<in> B" for w d
      using that
    proof induction
      case (step y z)
      then have "z \<in> deps_set rq y" "y \<in> B" by (simp_all add: dep_rel_def deps_set_def)
      then have "(y, z) \<in> dep_rel rq'" "z \<in> B"
        using B step(2) unfolding rel marked_ok_def by blast+
      with step show ?case by (auto intro: rtrancl_into_rtrancl)
    qed simp
    with W show "reach rq W \<subseteq> reach rq' W" by blast
  qed
qed

lemma queue_ok_closed: "queue_ok rq \<Longrightarrow> closed_queue rq"
  by (simp add: queue_ok_def closed_queue_def deps_set_def)

lemma tids_of_task_ok:
  "\<forall>t \<in> set ks. CHR '':'' \<in> set t \<Longrightarrow>
     tids_of_task task ks = Inr (filter (\<lambda>k. taskname_from_tid k = Some task) ks)"
  by (induction ks) (auto simp: taskname_from_tid_def split: option.splits)

definition only_tasks :: "string list \<Rightarrow> string set \<Rightarrow> string set" where
  "only_tasks names K = {k \<in> K. \<exists>n \<in> set names. taskname_from_tid k = Some (do_name n)}"

lemma apply_runonly_ok:
  assumes ok: "queue_ok (pr_rq st)" and colon: "\<forall>t \<in> set (dkeys (pr_rq st)). CHR '':'' \<in> set t"
    and some: "runonly opts \<noteq> []"
  shows "fst (apply_runonly T opts st) = Inl Fatal \<or>
    (\<exists>st'. apply_runonly T opts st = (Inr (), st') \<and> queue_ok (pr_rq st') \<and>
       dep_rel (pr_rq st') \<subseteq> dep_rel (pr_rq st) \<and>
       set (dkeys (pr_rq st')) =
         reach (pr_rq st) (only_tasks (runonly opts) (set (dkeys (pr_rq st)))))"
proof -
  let ?rq = "pr_rq st" and ?s = "st\<lparr>runq_build := []\<rparr>"
  let ?tids = "\<lambda>n. filter (\<lambda>k. taskname_from_tid k = Some (do_name n)) (dkeys ?rq)"
  have ok0: "prune_ok ?rq ?s" by (simp add: prune_ok_def marked_ok_def)
  have one: "\<exists>s'. runonly_task T opts n s = (Inr (), s') \<and> marked_by ?rq (set (?tids n)) s s'"
    if "prune_ok ?rq s" for n s
  proof -
    have rq: "pr_rq s = ?rq" using that by (simp add: prune_ok_def)
    have "\<exists>s'. foreach (runonly_mark T opts) (?tids n) s = (Inr (), s') \<and>
        marked_by ?rq (\<Union>x \<in> set (?tids n). {x}) s s'"
    proof (rule foreach_marked [OF that])
      fix x s assume x: "x \<in> set (?tids n)" and s: "prune_ok ?rq s"
      then have "x \<in> set (dkeys ?rq)" by auto
      from runonly_mark_marked [OF queue_ok_closed [OF ok] s this] colon this
      show "\<exists>s'. runonly_mark T opts x s = (Inr (), s') \<and> marked_by ?rq {x} s s'" by blast
    qed
    then show ?thesis unfolding runonly_task_def rq tids_of_task_ok [OF colon] by simp
  qed
  have "\<exists>s'. foreach (runonly_task T opts) (runonly opts) ?s = (Inr (), s') \<and>
      marked_by ?rq (\<Union>n \<in> set (runonly opts). set (?tids n)) ?s s'"
    by (rule foreach_marked [OF ok0 one])
  then obtain s1 where 1: "foreach (runonly_task T opts) (runonly opts) ?s = (Inr (), s1)"
    "marked_by ?rq (\<Union>n \<in> set (runonly opts). set (?tids n)) ?s s1" by blast
  have W: "(\<Union>n \<in> set (runonly opts). set (?tids n)) = only_tasks (runonly opts) (set (dkeys ?rq))"
    unfolding only_tasks_def set_filter by blast
  have B: "marked_ok ?rq (set (runq_build s1))" "pr_rq s1 = ?rq"
    "set (runq_build s1) = reach ?rq (only_tasks (runonly opts) (set (dkeys ?rq)))"
    using 1(2) unfolding marked_by_def prune_ok_def W by (elim conjE, assumption | simp)+
  note R = restrict_queue [OF ok B(1)]
  show ?thesis
    using 1(1) some R(1-3) B(2) unfolding B(3) [symmetric]
    by (simp add: apply_runonly_def Let_def delete_unmarked_def)
qed

lemma prune_queue_cases:
  assumes ok: "queue_ok rq" and ent: "entries_in tds rq" and mcs: "fst ` set targets \<subseteq> set (dkeys tds)"
    and colon: "\<forall>t \<in> set (dkeys rq). CHR '':'' \<in> set t"
    and names: "\<forall>n \<in> set (runall opts). CHR '':'' \<notin> set n"
  shows "fst (prune_queue T opts tds targets (init_prune rq)) = Inl Fatal \<or>
    (\<exists>st' M K. prune_queue T opts tds targets (init_prune rq) = (Inr (), st') \<and>
       queue_ok (pr_rq st') \<and> pr_rq st' \<noteq> [] \<and> dep_rel (pr_rq st') \<subseteq> dep_rel rq \<and>
       M = reach rq (\<Union>t \<in> set targets. target_roots tds rq t) \<and>
       (if runall opts = [] then K = M
        else wants rq (runall opts) M \<subseteq> K \<and> K = reach rq (wants rq (runall opts) K)) \<and>
       set (dkeys (pr_rq st')) =
         (if runonly opts = [] then K else reach rq (only_tasks (runonly opts) K)))"
    (is "_ \<or> ?goal")
proof -
  let ?R = "\<Union>t \<in> set targets. target_roots tds rq t"
  note cl = queue_ok_closed [OF ok]
  have ok0: "prune_ok rq (init_prune rq)" by (simp add: prune_ok_def init_prune_def marked_ok_def)
  from mark_targets_ok [OF cl ent ok0 mcs] show ?thesis
  proof
    assume "fst (mark_targets tds targets (init_prune rq)) = Inl Fatal"
    then show ?thesis
      by (cases "mark_targets tds targets (init_prune rq)") (simp add: prune_queue_def)
  next
    assume "\<exists>st'. mark_targets tds targets (init_prune rq) = (Inr (), st') \<and>
        marked_by rq ?R (init_prune rq) st'"
    then obtain s1 where 1: "mark_targets tds targets (init_prune rq) = (Inr (), s1)" "prune_ok rq s1"
      "set (runq_build s1) = reach rq ?R" by (auto simp: marked_by_def init_prune_def)
    have rq1: "pr_rq s1 = rq" using 1(2) by (simp add: prune_ok_def)
    have "\<exists>s2. (if runall opts = [] then (Inr (), s1)
        else runall_loop (length (pr_rq s1) + 2) T opts [] s1) = (Inr (), s2) \<and> prune_ok rq s2 \<and>
        (if runall opts = [] then set (runq_build s2) = reach rq ?R
         else wants rq (runall opts) (reach rq ?R) \<subseteq> set (runq_build s2) \<and>
           set (runq_build s2) = reach rq (wants rq (runall opts) (set (runq_build s2))))"
    proof (cases "runall opts = []")
      case False
      have "card (set (dkeys rq) - set []) < length (pr_rq s1) + 2"
        using card_length [of "dkeys rq"] by (simp add: rq1)
      from runall_loop_ok [OF cl colon names 1(2) this, of T] 1(3) False show ?thesis by simp
    qed (use 1 in simp)
    then obtain s2 where 2: "(if runall opts = [] then (Inr (), s1)
        else runall_loop (length (pr_rq s1) + 2) T opts [] s1) = (Inr (), s2)" "prune_ok rq s2"
      "if runall opts = [] then set (runq_build s2) = reach rq ?R
       else wants rq (runall opts) (reach rq ?R) \<subseteq> set (runq_build s2) \<and>
         set (runq_build s2) = reach rq (wants rq (runall opts) (set (runq_build s2)))" by blast
    define K where "K = set (runq_build s2)"
    have s2: "pr_rq s2 = rq" "marked_ok rq K" using 2(2) by (simp_all add: prune_ok_def K_def)
    let ?s3 = "delete_unmarked s2"
    have rq3: "pr_rq ?s3 = filter (\<lambda>(t, e). t \<in> K) rq" by (simp add: delete_unmarked_def s2(1) K_def)
    note R = restrict_queue [OF ok s2(2), folded rq3]
    have run: "prune_queue T opts tds targets (init_prune rq) =
        (if runall opts \<noteq> [] \<and> pr_rq ?s3 = [] then (Inl Fatal, ?s3)
         else seq_st (apply_runonly T opts ?s3) (\<lambda>st3.
                if pr_rq st3 = [] then (Inl Fatal, st3) else (Inr (), st3)))"
      using 1(1) 2(1) by (simp add: prune_queue_def apply_runall_def Let_def)
    have KM: "if runall opts = [] then K = reach rq ?R
        else wants rq (runall opts) (reach rq ?R) \<subseteq> K \<and> K = reach rq (wants rq (runall opts) K)"
      using 2(3) unfolding K_def .
    show ?thesis
    proof (cases "runonly opts = []")
      case True
      then have "apply_runonly T opts ?s3 = (Inr (), ?s3)" by (simp add: apply_runonly_def)
      with run have res: "prune_queue T opts tds targets (init_prune rq) =
          (if pr_rq ?s3 = [] then (Inl Fatal, ?s3) else (Inr (), ?s3))" by simp
      show ?thesis
      proof (cases "pr_rq ?s3 = []")
        case False
        with res have "prune_queue T opts tds targets (init_prune rq) = (Inr (), ?s3)" by simp
        with False True R(1-3) KM have ?goal
          by (intro exI [of _ ?s3] exI [of _ "reach rq ?R"] exI [of _ K]) simp
        then show ?thesis ..
      qed (simp add: res)
    next
      case False
      have "\<forall>t \<in> set (dkeys (pr_rq ?s3)). CHR '':'' \<in> set t"
        using colon s2(2) unfolding R(2) marked_ok_def by blast
      from apply_runonly_ok [OF R(1) this False, of T]
      show ?thesis
      proof
        assume "fst (apply_runonly T opts ?s3) = Inl Fatal"
        then show ?thesis unfolding run by (cases "apply_runonly T opts ?s3") simp
      next
        assume "\<exists>st'. apply_runonly T opts ?s3 = (Inr (), st') \<and> queue_ok (pr_rq st') \<and>
          dep_rel (pr_rq st') \<subseteq> dep_rel (pr_rq ?s3) \<and>
          set (dkeys (pr_rq st')) = reach (pr_rq ?s3) (only_tasks (runonly opts) (set (dkeys (pr_rq ?s3))))"
        then obtain s4 where 4: "apply_runonly T opts ?s3 = (Inr (), s4)" "queue_ok (pr_rq s4)"
          "dep_rel (pr_rq s4) \<subseteq> dep_rel (pr_rq ?s3)"
          "set (dkeys (pr_rq s4)) = reach (pr_rq ?s3) (only_tasks (runonly opts) K)" unfolding R(2) by blast
        have "only_tasks (runonly opts) K \<subseteq> K" by (auto simp: only_tasks_def)
        from 4(4) R(4) [OF this] have keys: "set (dkeys (pr_rq s4)) = reach rq (only_tasks (runonly opts) K)"
          by simp
        show ?thesis
        proof (cases "pr_rq s4 = [] \<or> runall opts \<noteq> [] \<and> pr_rq ?s3 = []")
          case True
          then show ?thesis unfolding run by (auto simp: 4(1))
        next
          case no: False
          then have "prune_queue T opts tds targets (init_prune rq) = (Inr (), s4)" unfolding run by (simp add: 4(1))
          with no False 4(2) keys KM subset_trans [OF 4(3) R(3)] have ?goal
            by (intro exI [of _ s4] exI [of _ "reach rq ?R"] exI [of _ K]) simp
          then show ?thesis ..
        qed
      qed
    qed
  qed
qed

text \<open>
  C13: Steps B and C either end the program with a message or leave a non-empty queue whose
  dependencies are all in it, so that nothing after them can fail on a missing task: without
  \<open>--runall\<close> and \<open>--runonly\<close> exactly the tasks that the targets need; with \<open>--runall\<close> a set that is
  closed under wanting the named tasks of its recipes and contains what those need, and nothing
  else; with \<open>--runonly\<close> only the named tasks among them and what they need.
\<close>

theorem prune_queue_result:
  assumes ok: "queue_ok rq" and ent: "entries_in tds rq" and mcs: "fst ` set targets \<subseteq> set (dkeys tds)"
    and colon: "\<forall>t \<in> set (dkeys rq). CHR '':'' \<in> set t"
    and names: "\<forall>n \<in> set (runall opts). CHR '':'' \<notin> set n"
  shows "fst (prune_queue T opts tds targets (init_prune rq)) = Inl Fatal \<or>
    (\<exists>st' M K. prune_queue T opts tds targets (init_prune rq) = (Inr (), st') \<and>
       queue_ok (pr_rq st') \<and> pr_rq st' \<noteq> [] \<and> dep_rel (pr_rq st') \<subseteq> dep_rel rq \<and>
       M = reach rq (\<Union>t \<in> set targets. target_roots tds rq t) \<and>
       (if runall opts = [] then K = M
        else wants rq (runall opts) M \<subseteq> K \<and> K = reach rq (wants rq (runall opts) K)) \<and>
       set (dkeys (pr_rq st')) =
         (if runonly opts = [] then K else reach rq (only_tasks (runonly opts) K)))"
  using assms by (rule prune_queue_cases)

text \<open>The queue of the example above, the target \<open>i\<close> with task \<open>r\<close>, no options.\<close>

definition td_pr :: td_state where
  "td_pr = (init_td False False cache_rd (\<lambda>_. []))
     \<lparr>build_targets := [(''i'', [''i''])],
      taskentries := map (\<lambda>(t, e). (t, \<lparr>tdepends = [], idepends = [], irdepends = []\<rparr>)) (p_rq st_rec)\<rparr>"

definition opts_pr :: run_opts where
  "opts_pr = \<lparr>runall = [], runonly = [], force = False, nosetscene = False, invalidate_stamp = None\<rparr>"

lemma st_rec_ok: "queue_ok (p_rq st_rec)"
  by (auto simp: queue_ok_def st_rec_def entry_on_def new_entry_def wf_dict_def depends_of_def
      revdeps_of_def init_prep_def)

theorem prune_queue_result_witness:
  "\<exists>st'. prune_queue (\<lambda>_. tab_rd) opts_pr [([], td_pr)] [([], ''i'', ''r'', ''i'')]
       (init_prune (p_rq st_rec)) = (Inr (), st') \<and>
     set (dkeys (pr_rq st')) = reach (p_rq st_rec) {''i:r''}"
proof -
  have ent: "entries_in [([], td_pr)] (p_rq st_rec)"
  proof -
    have "dkeys (taskentries td_pr) = dkeys (p_rq st_rec)" by (simp add: td_pr_def case_prod_beta)
    then show ?thesis by (simp add: entries_in_def del: set_map)
  qed
  have colon: "\<forall>t \<in> set (dkeys (p_rq st_rec)). CHR '':'' \<in> set t" by (simp add: st_rec_def)
  have roots: "(\<Union>t \<in> set [([], ''i'', ''r'', ''i'')]. target_roots [([], td_pr)] (p_rq st_rec) t) = {''i:r''}"
    by (simp add: target_roots_def td_pr_def init_td_def first_provider_def suffix_def)
  have "fst (prune_queue (\<lambda>_. tab_rd) opts_pr [([], td_pr)] [([], ''i'', ''r'', ''i'')]
       (init_prune (p_rq st_rec))) = Inr ()"
    by (simp add: prune_queue_def mark_targets_def mark_target_def init_prune_def td_pr_def init_td_def
        first_provider_def suffix_def Let_def mark_def st_rec_def init_prep_def entry_on_def new_entry_def
        opts_pr_def apply_runall_def apply_runonly_def delete_unmarked_def)
  with prune_queue_result [OF st_rec_ok ent _ colon, of "[([], ''i'', ''r'', ''i'')]" opts_pr "\<lambda>_. tab_rd"]
  show ?thesis unfolding roots by (auto simp: opts_pr_def)
qed

end
