(* ===== verification/Prepare.thy ===== *)
theory Prepare
  imports RunPrune
begin

text \<open>
  Step D and the whole of \<open>RunQueueData.prepare\<close> (\<open>poky/bitbake/lib/bb/runqueue.py\<close>): the check for
  recipes that provide the same thing, the tasks with a setscene variant, forced tasks, and the
  order in which the hashes of the tasks are computed.  The signature generator is a parameter
  with a state of its own.
\<close>

section \<open>Recipes that provide the same thing\<close>

text \<open>\<open>fn_provides\<close> gives what a recipe file provides, per configuration.\<close>

definition note_provider ::
  "(string \<Rightarrow> string \<Rightarrow> string list) \<Rightarrow> string \<Rightarrow> string \<Rightarrow> string list \<times> (string \<times> string list) list \<Rightarrow>
     unit result \<times> string list \<times> (string \<times> string list) list"
where
  "note_provider fn_provides mc tid s =
     (case (s, split_tid_mcfn tid) of
        (_, None) \<Rightarrow> (Inl ValueError, s)
      | ((seen, table), Some (tidmc, _, _, taskfn)) \<Rightarrow>
          if taskfn \<in> set seen \<or> mc \<noteq> tidmc then (Inr (), s)
          else (Inr (), seen @ [taskfn],
                foldl (\<lambda>tb prov. dset prov (append_new taskfn (dget_or tb prov [])) tb) table
                  (fn_provides mc taskfn)))"

definition provider_table ::
  "(string \<Rightarrow> string \<Rightarrow> string list) \<Rightarrow> runq \<Rightarrow> string \<Rightarrow> (string \<times> string list) list result"
where
  "provider_table fn_provides rq mc =
     (case foreach (note_provider fn_provides mc) (dkeys rq) ([], []) of
        (Inl e, _) \<Rightarrow> Inl e | (Inr _, (_, table)) \<Rightarrow> Inr table)"

text \<open>Two files of one package name end the program.\<close>

fun twice :: "'a list \<Rightarrow> bool" where
  "twice [] = False"
| "twice (x # xs) = (x \<in> set xs \<or> twice xs)"

text \<open>
  What all lists have in common, computed as the code does: \<open>None\<close> and the empty set are both false
  in Python, so an empty intermediate result starts over.
\<close>

definition common_of :: "'a list list \<Rightarrow> 'a list" where
  "common_of dss = foldl (\<lambda>c ds. if c = [] then ds else filter (\<lambda>d. d \<in> set ds) c) [] dss"

definition unique_of :: "'b list \<Rightarrow> ('b \<Rightarrow> 'a list) \<Rightarrow> ('b \<times> 'a list) list" where
  "unique_of fns f = map (\<lambda>fn. (fn, filter (\<lambda>d. d \<notin> set (common_of (map f fns))) (f fn))) fns"

definition dependees :: "runq \<Rightarrow> string \<Rightarrow> string list" where
  "dependees rq provfn =
     union_all (map (\<lambda>(tid, e). if fn_from_tid tid \<noteq> provfn then []
                                else filter (\<lambda>dep. fn_from_tid dep \<noteq> provfn) (revdeps e)) rq)"

definition runtime_names :: "data_cache \<Rightarrow> string \<Rightarrow> string list" where
  "runtime_names dc provfn =
     union_all (map (\<lambda>tb. map fst (filter (\<lambda>(n, fns). provfn \<in> set fns) tb))
       [rproviders dc, packages dc, packages_dynamic dc])"

text \<open>The parts of the message: dependees, provides and runtime provides of one file only.\<close>

datatype provider_report =
  ProviderReport string "(string \<times> string list) list" "(string \<times> string list) list"
    "(string \<times> string list) list"

definition check_provider ::
  "(string \<Rightarrow> string \<Rightarrow> string list) \<Rightarrow> string list \<Rightarrow> runq \<Rightarrow> string \<Rightarrow> data_cache \<Rightarrow>
     string \<times> string list \<Rightarrow> provider_report list \<Rightarrow> unit result \<times> provider_report list"
where
  "check_provider fn_provides allowed rq mc dc entry rs =
     (case entry of (prov, fns) \<Rightarrow>
        if length fns < 2 \<or> prov \<in> set allowed then (Inr (), rs)
        else if twice (map (pkg_fn dc) fns) then (Inl Fatal, rs)
        else (Inr (), rs @ [ProviderReport prov (unique_of fns (dependees rq))
                              (unique_of fns (fn_provides mc)) (unique_of fns (runtime_names dc))]))"

definition check_providers ::
  "(string \<Rightarrow> string \<Rightarrow> string list) \<Rightarrow> string list \<Rightarrow> (string \<times> data_cache) list \<Rightarrow> runq \<Rightarrow>
     unit result \<times> provider_report list"
where
  "check_providers fn_provides allowed dcs rq =
     foreach (\<lambda>(mc, dc) rs. case provider_table fn_provides rq mc of
                Inl e \<Rightarrow> (Inl e, rs)
              | Inr table \<Rightarrow> foreach (check_provider fn_provides allowed rq mc dc) table rs) dcs []"

section \<open>Setscene tasks and forced tasks\<close>

fun setscene_tids :: "(string \<times> td_state) list \<Rightarrow> string list \<Rightarrow> string list result" where
  "setscene_tids tds [] = Inr []"
| "setscene_tids tds (tid # tids) =
     (case split_tid_mcfn tid of
        None \<Rightarrow> Inl ValueError
      | Some (mc, _) \<Rightarrow>
          (case dget tds mc of
             None \<Rightarrow> Inl KeyError
           | Some td \<Rightarrow> bind_res (setscene_tids tds tids) (\<lambda>rest.
               Inr (if tid @ ''_setscene'' \<in> set (dkeys (taskentries td)) then tid # rest else rest))))"

definition runq_setscene_tids ::
  "run_opts \<Rightarrow> (string \<times> td_state) list \<Rightarrow> runq \<Rightarrow> string list result"
where
  "runq_setscene_tids opts tds rq = (if nosetscene opts then Inr [] else setscene_tids tds (dkeys rq))"

definition invalidate_stamps ::
  "(string \<Rightarrow> tables) \<Rightarrow> string list \<Rightarrow> string \<Rightarrow> prune \<Rightarrow> unit result \<times> prune"
where
  "invalidate_stamps T names tid =
     foreach (\<lambda>n. invalidate_task T True (fn_from_tid tid @ '':'' @ do_name n)) names"

definition invalidate_targets ::
  "(string \<Rightarrow> tables) \<Rightarrow> run_opts \<Rightarrow> prune \<Rightarrow> unit result \<times> prune"
where
  "invalidate_targets T opts st =
     seq_st (if force opts then foreach (invalidate_task T False) (target_tids st) st else (Inr (), st))
       (\<lambda>st1. case invalidate_stamp opts of
          None \<Rightarrow> (Inr (), st1)
        | Some s \<Rightarrow> if s = [] then (Inr (), st1)
                    else foreach (invalidate_stamps T (split_on (CHR '','') s)) (target_tids st1) st1)"

text \<open>The table of virtual providers: the file and the package name of every \<open>virtual/\<close> target.\<close>

definition virtual_table :: "data_cache \<Rightarrow> td_state \<Rightarrow> (string \<times> string \<times> string) list" where
  "virtual_table dc td =
     map (\<lambda>(v, fn). (v, fn, pkg_fn dc fn)) (get_providermap td (Some ''virtual/''))"

section \<open>The order of the hashes\<close>

record 'g siggen =
  prep_taskhash :: "string \<Rightarrow> string list \<Rightarrow> 'g \<Rightarrow> 'g"
  get_taskhash :: "string \<Rightarrow> string list \<Rightarrow> 'g \<Rightarrow> string \<times> 'g"
  get_unihashes :: "string list \<Rightarrow> 'g \<Rightarrow> (string \<times> string) list \<times> 'g"

record 'g hashing =
  h_rq :: runq
  dealtwith :: "string list"
  todeal :: "string list"
  sig_state :: 'g

definition hash_tid ::
  "'g siggen \<Rightarrow> 'g hashing \<times> string list \<Rightarrow> string \<Rightarrow> 'g hashing \<times> string list"
where
  "hash_tid S s tid =
     (case s of (st, ready) \<Rightarrow>
        (case dget (h_rq st) tid of
           None \<Rightarrow> (st, ready)
         | Some e \<Rightarrow>
             if set (depends e) \<subseteq> set (dealtwith st)
             then (case get_taskhash S tid (depends e) (prep_taskhash S tid (depends e) (sig_state st)) of
                     (h, g) \<Rightarrow> (st\<lparr>h_rq := dset tid (e\<lparr>hash := Some h\<rparr>) (h_rq st), sig_state := g\<rparr>,
                                ready @ [tid]))
             else (st, ready)))"

definition deal_with :: "(string \<times> string) list \<Rightarrow> string \<Rightarrow> 'g hashing \<Rightarrow> unit result \<times> 'g hashing" where
  "deal_with unihashes tid st =
     (let st1 = st\<lparr>dealtwith := append_new tid (dealtwith st), todeal := removeAll tid (todeal st)\<rparr>
      in case (dget (h_rq st1) tid, dget unihashes tid) of
           (Some e, Some u) \<Rightarrow> (Inr (), st1\<lparr>h_rq := dset tid (e\<lparr>unihash := Some u\<rparr>) (h_rq st1)\<rparr>)
         | _ \<Rightarrow> (Inl KeyError, st1))"

definition hash_round :: "'g siggen \<Rightarrow> 'g hashing \<Rightarrow> unit result \<times> 'g hashing" where
  "hash_round S st =
     (case foldl (hash_tid S) (st, []) (todeal st) of
        (st1, ready) \<Rightarrow>
          (case get_unihashes S ready (sig_state st1) of
             (unihashes, g) \<Rightarrow> foreach (deal_with unihashes) ready (st1\<lparr>sig_state := g\<rparr>)))"

fun hash_loop :: "nat \<Rightarrow> 'g siggen \<Rightarrow> 'g hashing \<Rightarrow> unit result \<times> 'g hashing" where
  "hash_loop n S st =
     (if todeal st = [] then (Inr (), st)
      else (case n of
              0 \<Rightarrow> (Inl OutOfFuel, st)
            | Suc m \<Rightarrow> seq_st (hash_round S st) (hash_loop m S)))"

declare hash_loop.simps [simp del]

definition init_hashing :: "runq \<Rightarrow> 'g \<Rightarrow> 'g hashing" where
  "init_hashing rq g = \<lparr>h_rq = rq, dealtwith = [], todeal = dkeys rq, sig_state = g\<rparr>"

definition compute_hashes :: "'g siggen \<Rightarrow> runq \<Rightarrow> 'g \<Rightarrow> unit result \<times> 'g hashing" where
  "compute_hashes S rq g = hash_loop (length rq) S (init_hashing rq g)"

section \<open>The whole preparation\<close>

record 'g prepared =
  pd_rq :: runq
  pd_weights :: "(string \<times> int) list"
  pd_targets :: "string list"
  pd_setscene :: "string list"
  pd_invalidated :: "(string \<times> string) list"
  pd_reports :: "provider_report list"
  pd_sig :: 'g

record 'g prepare_in =
  in_tables :: "string \<Rightarrow> tables"
  in_opts :: run_opts
  in_tds :: "(string \<times> td_state) list"
  in_targets :: "(string \<times> string \<times> string \<times> string) list"
  in_caches :: "(string \<times> data_cache) list"
  in_provides :: "string \<Rightarrow> string \<Rightarrow> string list"
  in_allowed :: "string list"
  in_siggen :: "'g siggen"

text \<open>Step A, then B and C, then D up to the weights.\<close>

definition prepare_tasks :: "'g prepare_in \<Rightarrow> unit result \<times> prep" where
  "prepare_tasks i = seq_st (prep_tasks (in_tables i) (init_prep (in_tds i))) add_recursive"

definition prepare_queue :: "'g prepare_in \<Rightarrow> prep \<Rightarrow> unit result \<times> prune" where
  "prepare_queue i p =
     prune_queue (in_tables i) (in_opts i) (p_td p) (in_targets i) (init_prune (p_rq p))"

definition prepare_hashes ::
  "'g prepare_in \<Rightarrow> (string \<times> td_state) list \<Rightarrow> prune \<Rightarrow> (string \<times> int) list \<Rightarrow> runq \<Rightarrow> 'g \<Rightarrow> 'g prepared result"
where
  "prepare_hashes i tds st w rq g =
     (case check_providers (in_provides i) (in_allowed i) (in_caches i) rq of
        (Inl e, _) \<Rightarrow> Inl e
      | (Inr _, reports) \<Rightarrow>
          bind_res (runq_setscene_tids (in_opts i) tds rq) (\<lambda>ss.
            case invalidate_targets (in_tables i) (in_opts i) st of
              (Inl e, _) \<Rightarrow> Inl e
            | (Inr _, st1) \<Rightarrow>
                (case compute_hashes (in_siggen i) rq g of
                   (Inl e, _) \<Rightarrow> Inl e
                 | (Inr _, h) \<Rightarrow>
                     Inr \<lparr>pd_rq = h_rq h, pd_weights = w, pd_targets = target_tids st1, pd_setscene = ss,
                          pd_invalidated = invalidated st1, pd_reports = reports, pd_sig = sig_state h\<rparr>)))"

text \<open>\<open>Inr None\<close> is the early return when no configuration has a task.\<close>

definition prepare :: "'g prepare_in \<Rightarrow> 'g \<Rightarrow> 'g prepared option result" where
  "prepare i g =
     (if list_all (\<lambda>(mc, td). taskentries td = []) (in_tds i) then Inr None
      else (case prepare_tasks i of
              (Inl e, _) \<Rightarrow> Inl e
            | (Inr _, p) \<Rightarrow>
                (case prepare_queue i p of
                   (Inl e, _) \<Rightarrow> Inl e
                 | (Inr _, st) \<Rightarrow>
                     (case weigh_queue (pr_rq st) of
                        (Inl e, _) \<Rightarrow> Inl e
                      | (Inr w, rq) \<Rightarrow> bind_res (prepare_hashes i (p_td p) st w rq g) (\<lambda>d. Inr (Some d))))))"

section \<open>Every task gets its hashes, after the tasks it needs\<close>

text \<open>The hash fields aside, two queues are the same.\<close>

definition same_graph :: "runq \<Rightarrow> runq \<Rightarrow> bool" where
  "same_graph rq rq' \<longleftrightarrow> dkeys rq' = dkeys rq \<and> depends_of rq' = depends_of rq \<and> revdeps_of rq' = revdeps_of rq"

definition has_hash :: "runq \<Rightarrow> string \<Rightarrow> bool" where
  "has_hash rq t \<longleftrightarrow> (\<exists>e h. dget rq t = Some e \<and> hash e = Some h)"

definition has_unihash :: "runq \<Rightarrow> string \<Rightarrow> bool" where
  "has_unihash rq t \<longleftrightarrow> (\<exists>e h. dget rq t = Some e \<and> unihash e = Some h)"

definition hash_state :: "'g siggen \<Rightarrow> runq \<Rightarrow> string list \<Rightarrow> 'g \<Rightarrow> 'g" where
  "hash_state S rq ts g =
     foldl (\<lambda>g t. snd (get_taskhash S t (depends_of rq t) (prep_taskhash S t (depends_of rq t) g))) g ts"

lemma same_graph_refl [simp]: "same_graph rq rq"
  by (simp add: same_graph_def)

lemma same_graph_trans: "same_graph a b \<Longrightarrow> same_graph b c \<Longrightarrow> same_graph a c"
  by (simp add: same_graph_def)

lemma same_graph_dset:
  assumes "dget rq t = Some e" "depends e' = depends e" "revdeps e' = revdeps e"
  shows "same_graph rq (dset t e' rq)"
proof -
  have "t \<in> set (dkeys rq)" using assms(1) dget_in_dkeys [of t rq] by auto
  then show ?thesis using assms
    by (auto simp: same_graph_def dkeys_dset_same depends_of_def revdeps_of_def fun_eq_iff)
qed

lemma hash_tids:
  fixes S :: "'g siggen"
  assumes "foldl (hash_tid S) (st, ready) ts = (st', ready')" "set ts \<subseteq> set (dkeys (h_rq st))"
  shows "ready' = ready @ filter (\<lambda>t. deps_set (h_rq st) t \<subseteq> set (dealtwith st)) ts \<and>
    dealtwith st' = dealtwith st \<and> todeal st' = todeal st \<and> same_graph (h_rq st) (h_rq st') \<and>
    (\<forall>t. has_hash (h_rq st) t \<or> t \<in> set (filter (\<lambda>t. deps_set (h_rq st) t \<subseteq> set (dealtwith st)) ts) \<longrightarrow>
      has_hash (h_rq st') t) \<and>
    (\<forall>t. has_unihash (h_rq st) t \<longrightarrow> has_unihash (h_rq st') t) \<and>
    sig_state st' = hash_state S (h_rq st)
      (filter (\<lambda>t. deps_set (h_rq st) t \<subseteq> set (dealtwith st)) ts) (sig_state st)"
  using assms
proof (induction ts arbitrary: st ready)
  case (Cons t ts)
  obtain e where e: "dget (h_rq st) t = Some e" using Cons.prems(2) dget_in_dkeys [of t "h_rq st"] by auto
  then have d: "depends e = depends_of (h_rq st) t" by (simp add: depends_of_def)
  show ?case
  proof (cases "deps_set (h_rq st) t \<subseteq> set (dealtwith st)")
    case True
    obtain h g where hg: "get_taskhash S t (depends e) (prep_taskhash S t (depends e) (sig_state st)) = (h, g)"
      by fastforce
    let ?st = "st\<lparr>h_rq := dset t (e\<lparr>hash := Some h\<rparr>) (h_rq st), sig_state := g\<rparr>"
    have step: "hash_tid S (st, ready) t = (?st, ready @ [t])"
      using True e hg by (simp add: hash_tid_def deps_set_def d)
    have sg: "same_graph (h_rq st) (h_rq ?st)" using same_graph_dset [OF e] by simp
    then have eqs: "deps_set (h_rq ?st) = deps_set (h_rq st)" "dkeys (h_rq ?st) = dkeys (h_rq st)"
      "depends_of (h_rq ?st) = depends_of (h_rq st)"
      by (auto simp: same_graph_def deps_set_def fun_eq_iff)
    have hs: "hash_state S (h_rq ?st) = hash_state S (h_rq st)"
      unfolding hash_state_def eqs(3) ..
    have "foldl (hash_tid S) (?st, ready @ [t]) ts = (st', ready')" using Cons.prems(1) step by simp
    note IH = Cons.IH [OF this]
    have "set ts \<subseteq> set (dkeys (h_rq ?st))" using Cons.prems(2) unfolding eqs by simp
    note IH = IH [OF this, unfolded eqs hs]
    have "has_hash (h_rq st) x \<or> x = t \<Longrightarrow> has_hash (h_rq ?st) x"
      "has_unihash (h_rq st) x \<Longrightarrow> has_unihash (h_rq ?st) x" for x
      using e by (auto simp: has_hash_def has_unihash_def)
    with IH True same_graph_trans [OF sg] hg show ?thesis
      by (auto simp: hash_state_def d)
  next
    case False
    then have "hash_tid S (st, ready) t = (st, ready)"
      using e by (simp add: hash_tid_def deps_set_def d)
    with Cons False show ?thesis by simp
  qed
qed (simp add: hash_state_def)

lemma deal_with_all:
  assumes "set ts \<subseteq> set (dkeys (h_rq st))" "set ts \<subseteq> set (dkeys us)"
  shows "\<exists>st'. foreach (deal_with us) ts st = (Inr (), st') \<and>
    set (dealtwith st') = set (dealtwith st) \<union> set ts \<and>
    todeal st' = filter (\<lambda>t. t \<notin> set ts) (todeal st) \<and> sig_state st' = sig_state st \<and>
    same_graph (h_rq st) (h_rq st') \<and> (\<forall>t. has_hash (h_rq st) t \<longrightarrow> has_hash (h_rq st') t) \<and>
    (\<forall>t. has_unihash (h_rq st) t \<or> t \<in> set ts \<longrightarrow> has_unihash (h_rq st') t)"
  using assms
proof (induction ts arbitrary: st)
  case (Cons t ts)
  obtain e u where e: "dget (h_rq st) t = Some e" and u: "dget us t = Some u"
    using Cons.prems dget_in_dkeys [of t "h_rq st"] dget_in_dkeys [of t us] by auto
  let ?st = "st\<lparr>dealtwith := append_new t (dealtwith st), todeal := removeAll t (todeal st),
    h_rq := dset t (e\<lparr>unihash := Some u\<rparr>) (h_rq st)\<rparr>"
  have step: "deal_with us t st = (Inr (), ?st)" using e u by (simp add: deal_with_def Let_def)
  have sg: "same_graph (h_rq st) (h_rq ?st)" using same_graph_dset [OF e] by simp
  have keys: "set ts \<subseteq> set (dkeys (h_rq ?st))" "set ts \<subseteq> set (dkeys us)"
    using Cons.prems sg by (auto simp: same_graph_def)
  from Cons.IH [OF this] obtain st' where st': "foreach (deal_with us) ts ?st = (Inr (), st')"
    "set (dealtwith st') = set (dealtwith ?st) \<union> set ts"
    "todeal st' = filter (\<lambda>t. t \<notin> set ts) (todeal ?st)" "sig_state st' = sig_state ?st"
    "same_graph (h_rq ?st) (h_rq st')" "\<forall>t. has_hash (h_rq ?st) t \<longrightarrow> has_hash (h_rq st') t"
    "\<forall>t. has_unihash (h_rq ?st) t \<or> t \<in> set ts \<longrightarrow> has_unihash (h_rq st') t" by blast
  have "has_hash (h_rq st) x \<Longrightarrow> has_hash (h_rq ?st) x"
    "has_unihash (h_rq st) x \<or> x = t \<Longrightarrow> has_unihash (h_rq ?st) x" for x
    using e by (auto simp: has_hash_def has_unihash_def)
  moreover have "filter (\<lambda>x. x \<notin> set ts) (removeAll t (todeal st)) = filter (\<lambda>x. x \<notin> set (t # ts)) (todeal st)"
    by (auto simp: removeAll_filter_not_eq intro!: filter_cong)
  ultimately show ?case using step st' same_graph_trans [OF sg st'(5)] by auto
qed simp

definition unis_ok :: "'g siggen \<Rightarrow> bool" where
  "unis_ok S \<longleftrightarrow> (\<forall>ts g. set ts \<subseteq> set (dkeys (fst (get_unihashes S ts g))))"

definition ready_of :: "'g hashing \<Rightarrow> string list" where
  "ready_of st = filter (\<lambda>t. deps_set (h_rq st) t \<subseteq> set (dealtwith st)) (todeal st)"

lemma hash_round_result:
  assumes "unis_ok S" "set (todeal st) \<subseteq> set (dkeys (h_rq st))"
  obtains st' where "hash_round S st = (Inr (), st')" "same_graph (h_rq st) (h_rq st')"
    "set (dealtwith st') = set (dealtwith st) \<union> set (ready_of st)"
    "todeal st' = filter (\<lambda>t. t \<notin> set (ready_of st)) (todeal st)"
    "\<forall>t. has_hash (h_rq st) t \<or> t \<in> set (ready_of st) \<longrightarrow> has_hash (h_rq st') t"
    "\<forall>t. has_unihash (h_rq st) t \<or> t \<in> set (ready_of st) \<longrightarrow> has_unihash (h_rq st') t"
    "sig_state st' = snd (get_unihashes S (ready_of st) (hash_state S (h_rq st) (ready_of st) (sig_state st)))"
proof -
  obtain s1 r where f: "foldl (hash_tid S) (st, []) (todeal st) = (s1, r)" by fastforce
  from hash_tids [OF f assms(2)] have r: "r = ready_of st" and s1: "dealtwith s1 = dealtwith st"
    "todeal s1 = todeal st" "same_graph (h_rq st) (h_rq s1)"
    "\<forall>t. has_hash (h_rq st) t \<or> t \<in> set (ready_of st) \<longrightarrow> has_hash (h_rq s1) t"
    "\<forall>t. has_unihash (h_rq st) t \<longrightarrow> has_unihash (h_rq s1) t"
    "sig_state s1 = hash_state S (h_rq st) (ready_of st) (sig_state st)"
    by (simp_all add: ready_of_def)
  obtain us g where u: "get_unihashes S r (sig_state s1) = (us, g)" by fastforce
  let ?s2 = "s1\<lparr>sig_state := g\<rparr>"
  have "set r \<subseteq> set (dkeys us)" using assms(1) u unfolding unis_ok_def by (metis fst_conv)
  moreover have "set r \<subseteq> set (dkeys (h_rq ?s2))"
    using assms(2) s1(3) by (auto simp: r ready_of_def same_graph_def)
  ultimately obtain st' where st': "foreach (deal_with us) r ?s2 = (Inr (), st')"
    "set (dealtwith st') = set (dealtwith ?s2) \<union> set r"
    "todeal st' = filter (\<lambda>t. t \<notin> set r) (todeal ?s2)" "sig_state st' = sig_state ?s2"
    "same_graph (h_rq ?s2) (h_rq st')" "\<forall>t. has_hash (h_rq ?s2) t \<longrightarrow> has_hash (h_rq st') t"
    "\<forall>t. has_unihash (h_rq ?s2) t \<or> t \<in> set r \<longrightarrow> has_unihash (h_rq st') t"
    using deal_with_all [of r ?s2 us] by blast
  show ?thesis
  proof (rule that [of st'])
    show "hash_round S st = (Inr (), st')" using f u st'(1) by (simp add: hash_round_def)
    show "same_graph (h_rq st) (h_rq st')" using same_graph_trans [OF s1(3)] st'(5) by simp
    show "sig_state st' = snd (get_unihashes S (ready_of st) (hash_state S (h_rq st) (ready_of st) (sig_state st)))"
      using st'(4) u by (simp add: r s1(6))
  qed (use st' s1 r in auto)
qed

text \<open>What the loop keeps; \<open>rq\<close> is the queue it started with.\<close>

definition hash_inv :: "runq \<Rightarrow> 'g hashing \<Rightarrow> bool" where
  "hash_inv rq st \<longleftrightarrow> same_graph rq (h_rq st) \<and> distinct (todeal st) \<and>
     set (todeal st) = set (dkeys rq) - set (dealtwith st) \<and> set (dealtwith st) \<subseteq> set (dkeys rq) \<and>
     (\<forall>t \<in> set (dealtwith st). has_hash (h_rq st) t \<and> has_unihash (h_rq st) t)"

lemma hash_inv_ready:
  assumes inv: "hash_inv rq st" and ac: "acyclic (dep_rel rq)" and cl: "closed_queue rq"
    and "todeal st \<noteq> []"
  shows "ready_of st \<noteq> []"
proof
  assume none: "ready_of st = []"
  have deps: "deps_set (h_rq st) = deps_set rq"
    using inv by (auto simp: hash_inv_def same_graph_def deps_set_def)
  have todo: "set (todeal st) = set (dkeys rq) - set (dealtwith st)" using inv by (simp add: hash_inv_def)
  have "t \<in> set (dkeys rq) \<longrightarrow> t \<in> set (dealtwith st)" for t
    using ac
  proof (induction t rule: dep_rel_induct)
    case (less t)
    show ?case
    proof
      assume t: "t \<in> set (dkeys rq)"
      have "deps_set rq t \<subseteq> set (dealtwith st)" using less cl unfolding closed_queue_def by blast
      then have "t \<notin> set (todeal st)" using none by (auto simp: ready_of_def deps filter_empty_conv)
      with t todo show "t \<in> set (dealtwith st)" by blast
    qed
  qed
  then have "set (dkeys rq) - set (dealtwith st) = {}" by blast
  then have "set (todeal st) = {}" unfolding todo .
  with assms(4) show False by simp
qed

text \<open>One round, for an additional invariant \<open>J\<close> of the generator's state.\<close>

lemma hash_loop_result:
  fixes S :: "'g siggen"
  assumes S: "unis_ok S" and ac: "acyclic (dep_rel rq)" and cl: "closed_queue rq"
    and step: "\<And>st st'. hash_inv rq st \<Longrightarrow> J (set (dealtwith st)) (sig_state st) \<Longrightarrow>
      J (set (dealtwith st) \<union> set (ready_of st))
        (snd (get_unihashes S (ready_of st) (hash_state S rq (ready_of st) (sig_state st))))"
  shows "hash_inv rq st \<Longrightarrow> J (set (dealtwith st)) (sig_state st) \<Longrightarrow> length (todeal st) \<le> n \<Longrightarrow>
    \<exists>st'. hash_loop n S st = (Inr (), st') \<and> hash_inv rq st' \<and> todeal st' = [] \<and>
      J (set (dealtwith st')) (sig_state st')"
proof (induction n arbitrary: st)
  case 0
  then show ?case by (auto simp: hash_loop.simps)
next
  case (Suc n)
  show ?case
  proof (cases "todeal st = []")
    case True
    with Suc.prems show ?thesis by (auto simp: hash_loop.simps)
  next
    case False
    note inv = Suc.prems(1)
    have sg: "same_graph rq (h_rq st)" using inv by (simp add: hash_inv_def)
    have hs: "hash_state S (h_rq st) = hash_state S rq"
      using sg by (simp add: hash_state_def same_graph_def fun_eq_iff)
    have "set (todeal st) \<subseteq> set (dkeys (h_rq st))" using inv unfolding hash_inv_def same_graph_def by auto
    obtain s1 where s1: "hash_round S st = (Inr (), s1)" "same_graph (h_rq st) (h_rq s1)"
      "set (dealtwith s1) = set (dealtwith st) \<union> set (ready_of st)"
      "todeal s1 = filter (\<lambda>t. t \<notin> set (ready_of st)) (todeal st)"
      "\<forall>t. has_hash (h_rq st) t \<or> t \<in> set (ready_of st) \<longrightarrow> has_hash (h_rq s1) t"
      "\<forall>t. has_unihash (h_rq st) t \<or> t \<in> set (ready_of st) \<longrightarrow> has_unihash (h_rq s1) t"
      "sig_state s1 = snd (get_unihashes S (ready_of st) (hash_state S rq (ready_of st) (sig_state st)))"
      by (rule hash_round_result [OF S \<open>set (todeal st) \<subseteq> set (dkeys (h_rq st))\<close>, unfolded hs])
    have sub: "set (ready_of st) \<subseteq> set (todeal st)" by (auto simp: ready_of_def)
    have inv1: "hash_inv rq s1"
      using inv s1(3-6) same_graph_trans [OF sg s1(2)] sub by (auto simp: hash_inv_def)
    have J1: "J (set (dealtwith s1)) (sig_state s1)"
      unfolding s1(3,7) by (rule step [OF inv Suc.prems(2)])
    obtain t where "t \<in> set (ready_of st)"
      using hash_inv_ready [OF inv ac cl False] by (cases "ready_of st") auto
    with sub have "length (todeal s1) < length (todeal st)"
      unfolding s1(4) by (intro length_filter_less) auto
    with Suc.prems(3) have "length (todeal s1) \<le> n" by simp
    from Suc.IH [OF inv1 J1 this] s1(1) False show ?thesis by (simp add: hash_loop.simps [of "Suc n"])
  qed
qed

lemma hash_inv_init: "wf_dict rq \<Longrightarrow> hash_inv rq (init_hashing rq g)"
  by (simp add: hash_inv_def init_hashing_def wf_dict_def)

lemma compute_hashes_result:
  assumes "queue_ok rq \<or> graph_ok rq" "acyclic (dep_rel rq)" "unis_ok S"
  shows "\<exists>h. compute_hashes S rq g = (Inr (), h) \<and> same_graph rq (h_rq h) \<and>
    (\<forall>t \<in> set (dkeys rq). has_hash (h_rq h) t \<and> has_unihash (h_rq h) t)"
proof -
  have wf: "wf_dict rq" and cl: "closed_queue rq"
    using assms(1) by (auto simp: queue_ok_def graph_ok_def closed_queue_def deps_set_def)
  have "\<exists>h. hash_loop (length rq) S (init_hashing rq g) = (Inr (), h) \<and> hash_inv rq h \<and> todeal h = [] \<and> True"
    by (rule hash_loop_result [where J = "\<lambda>_ _. True", OF assms(3,2) cl _ hash_inv_init [OF wf]])
      (simp_all add: init_hashing_def)
  then obtain h where h: "compute_hashes S rq g = (Inr (), h)" "hash_inv rq h" "todeal h = []"
    unfolding compute_hashes_def by blast
  have "set (dkeys rq) \<subseteq> set (dealtwith h)"
    using h(2,3) by (auto simp: hash_inv_def)
  with h show ?thesis unfolding hash_inv_def by blast
qed

text \<open>A generator that only records its calls.\<close>

datatype hash_event = Hashed string | Unihashed "string list"

definition recorder :: "hash_event list siggen" where
  "recorder = \<lparr>prep_taskhash = (\<lambda>t ds g. g), get_taskhash = (\<lambda>t ds g. ([], g @ [Hashed t])),
     get_unihashes = (\<lambda>ts g. (map (\<lambda>t. (t, [])) ts, g @ [Unihashed ts]))\<rparr>"

fun hashed :: "hash_event list \<Rightarrow> string list" where
  "hashed [] = []"
| "hashed (Hashed t # es) = t # hashed es"
| "hashed (Unihashed ts # es) = hashed es"

text \<open>No task is hashed before the unihashes of all its dependencies are known.\<close>

fun hashed_after :: "runq \<Rightarrow> string set \<Rightarrow> hash_event list \<Rightarrow> bool" where
  "hashed_after rq known [] \<longleftrightarrow> True"
| "hashed_after rq known (Hashed t # es) \<longleftrightarrow> deps_set rq t \<subseteq> known \<and> hashed_after rq known es"
| "hashed_after rq known (Unihashed ts # es) \<longleftrightarrow> hashed_after rq (known \<union> set ts) es"

fun unihashed :: "hash_event list \<Rightarrow> string set" where
  "unihashed [] = {}"
| "unihashed (Hashed t # es) = unihashed es"
| "unihashed (Unihashed ts # es) = set ts \<union> unihashed es"

lemma hashed_append [simp]: "hashed (es @ fs) = hashed es @ hashed fs"
  by (induction es rule: hashed.induct) simp_all

lemma unihashed_append [simp]: "unihashed (es @ fs) = unihashed es \<union> unihashed fs"
  by (induction es rule: unihashed.induct) auto

lemma hashed_after_append:
  "hashed_after rq known (es @ fs) \<longleftrightarrow>
     hashed_after rq known es \<and> hashed_after rq (known \<union> unihashed es) fs"
  by (induction rq known es rule: hashed_after.induct) (auto simp: Un_assoc)

lemma recorder_round:
  "snd (get_unihashes recorder ts (hash_state recorder rq ts g)) = g @ map Hashed ts @ [Unihashed ts]"
proof -
  have "hash_state recorder rq ts g = g @ map Hashed ts" for ts
    by (induction ts arbitrary: g rule: rev_induct) (simp_all add: hash_state_def recorder_def)
  then show ?thesis by (simp add: recorder_def)
qed

lemma hashed_map [simp]: "hashed (map Hashed ts) = ts" "unihashed (map Hashed ts) = {}"
  by (induction ts) simp_all

lemma hashed_after_map [simp]:
  "hashed_after rq known (map Hashed ts) \<longleftrightarrow> (\<forall>t \<in> set ts. deps_set rq t \<subseteq> known)"
  by (induction ts) auto

text \<open>
  C18: The hashes are computed in an order that respects the dependencies: on a queue without
  cycles the signature generator is asked for every task exactly once, and for no task before the
  unihashes of all tasks it depends on have been fetched.
\<close>

theorem hashes_in_order:
  assumes "queue_ok rq" "acyclic (dep_rel rq)"
  shows "\<exists>h. compute_hashes recorder rq [] = (Inr (), h) \<and> hashed_after rq {} (sig_state h) \<and>
    distinct (hashed (sig_state h)) \<and> set (hashed (sig_state h)) = set (dkeys rq)"
proof -
  have wf: "wf_dict rq" and cl: "closed_queue rq"
    using assms(1) by (auto simp: queue_ok_def closed_queue_def deps_set_def)
  let ?J = "\<lambda>D es. hashed_after rq {} es \<and> unihashed es = D \<and> distinct (hashed es) \<and> set (hashed es) = D"
  have S: "unis_ok recorder" by (force simp: unis_ok_def recorder_def)
  have "\<exists>h. hash_loop (length rq) recorder (init_hashing rq []) = (Inr (), h) \<and> hash_inv rq h \<and>
      todeal h = [] \<and> ?J (set (dealtwith h)) (sig_state h)"
  proof (rule hash_loop_result [where J = ?J, OF S assms(2) cl _ hash_inv_init [OF wf]])
    fix st assume inv: "hash_inv rq st" and J: "?J (set (dealtwith st)) (sig_state st)"
    have deps: "deps_set (h_rq st) = deps_set rq"
      using inv by (auto simp: hash_inv_def same_graph_def deps_set_def)
    have "distinct (ready_of st)" "set (ready_of st) \<inter> set (dealtwith st) = {}"
      "\<forall>t \<in> set (ready_of st). deps_set rq t \<subseteq> set (dealtwith st)"
      using inv by (auto simp: hash_inv_def ready_of_def deps)
    with J show "?J (set (dealtwith st) \<union> set (ready_of st))
        (snd (get_unihashes recorder (ready_of st) (hash_state recorder rq (ready_of st) (sig_state st))))"
      unfolding recorder_round by (auto simp: hashed_after_append)
  qed (simp_all add: init_hashing_def)
  then obtain h where h: "compute_hashes recorder rq [] = (Inr (), h)" "hash_inv rq h" "todeal h = []"
    "?J (set (dealtwith h)) (sig_state h)" unfolding compute_hashes_def by blast
  have "set (dealtwith h) = set (dkeys rq)" using h(2,3) by (auto simp: hash_inv_def)
  with h show ?thesis by auto
qed

section \<open>Step A keeps the shape of its state\<close>

lemma foreach_err:
  assumes "fst (foreach f xs s) = Inl e" "\<And>e x s. fst (f x s) = Inl e \<Longrightarrow> E e"
  shows "E e"
  using assms(1)
proof (induction xs arbitrary: s)
  case (Cons x xs)
  then show ?case
    by (cases "f x s"; cases "fst (f x s)") (use assms(2) [where x = x and s = s] in auto)
qed simp

lemma seq_st_err:
  assumes "fst (seq_st r f) = Inl e" "\<And>e. fst r = Inl e \<Longrightarrow> E e" "\<And>s e. fst (f s) = Inl e \<Longrightarrow> E e"
  shows "E e"
  using assms by (cases r; cases "fst r") (auto simp: seq_st_def)

text \<open>The errors that are messages of the program or missing keys, not fuel.\<close>

definition raised :: "py_exc \<Rightarrow> bool" where
  "raised e \<longleftrightarrow> e \<in> {Fatal, KeyError, IndexError, ValueError}"

lemma raised_simps [simp]: "raised Fatal" "raised KeyError" "raised IndexError" "raised ValueError"
  by (simp_all add: raised_def)

lemma bind_res_raised:
  "bind_res r f = Inl e \<Longrightarrow> (\<And>e. r = Inl e \<Longrightarrow> raised e) \<Longrightarrow> (\<And>a e. f a = Inl e \<Longrightarrow> raised e) \<Longrightarrow> raised e"
  by (cases r) auto

lemma add_deps_raised:
  "add_tdepends ts ds = Inl e \<Longrightarrow> raised e"
  "add_deptask td tdeps taskfn taskname ds = Inl e \<Longrightarrow> raised e"
  "add_rdeptask td tdeps taskfn taskname ds = Inl e \<Longrightarrow> raised e"
  "add_idepends td ids ds = Inl e \<Longrightarrow> raised e"
  "add_irdepends td ids ds = Inl e \<Longrightarrow> raised e"
  subgoal by (induction ts ds rule: add_tdepends.induct) (auto split: option.splits)
  subgoal by (auto simp: add_deptask_def split: option.splits)
  subgoal by (auto simp: add_rdeptask_def split: option.splits)
  subgoal by (induction td ids ds rule: add_idepends.induct) (auto split: option.splits if_splits)
  subgoal by (induction td ids ds rule: add_irdepends.induct) (auto split: option.splits if_splits)
  done

lemma direct_depends_raised: "direct_depends td tdeps e taskfn taskname = Inl x \<Longrightarrow> raised x"
  unfolding direct_depends_def by (elim bind_res_raised) (auto dest: add_deps_raised)

lemma prep_task_raised: "fst (prep_task T tid st) = Inl e \<Longrightarrow> raised e"
proof -
  have mc: "fst (add_mc_part T tid parts s) = Inl e \<Longrightarrow> raised e" for parts s e
    by (auto simp: add_mc_part_def add_mc_dependencies_def split: prod.splits option.splits
        elim!: foreach_err [where E = raised])
      (auto simp: add_mc_dependency_def split: list.splits option.splits if_splits)
  have res: "fst (resolve_task T tid parts s) = Inl e \<Longrightarrow> raised e" for parts s e
    by (auto simp: resolve_task_def note_recursive_def Let_def dest: direct_depends_raised
        split: prod.splits option.splits sum.splits if_splits)
  show "fst (prep_task T tid st) = Inl e \<Longrightarrow> raised e"
    by (auto simp: prep_task_def Let_def split: option.splits prod.splits if_splits
        elim!: seq_st_err [where E = raised] dest: mc res)
qed

lemma prep_tasks_raised: "fst (prep_tasks T st) = Inl e \<Longrightarrow> raised e"
  unfolding prep_tasks_def
  by (erule foreach_err) (auto split: option.splits elim!: foreach_err [where E = raised] dest: prep_task_raised)

text \<open>The entries of the configurations stay, the queue only gains tasks, and all ids have a colon.\<close>

definition entry_keys :: "prep \<Rightarrow> string \<Rightarrow> string list option" where
  "entry_keys st mc = map_option (\<lambda>td. dkeys (taskentries td)) (dget (p_td st) mc)"

definition prep_shape :: "prep \<Rightarrow> prep \<Rightarrow> bool" where
  "prep_shape st st' \<longleftrightarrow> set (dkeys (p_td st')) = set (dkeys (p_td st)) \<and> entry_keys st' = entry_keys st \<and>
     set (dkeys (p_rq st)) \<subseteq> set (dkeys (p_rq st'))"

definition prep_ok :: "prep \<Rightarrow> bool" where
  "prep_ok st \<longleftrightarrow> wf_dict (p_rq st) \<and> (\<forall>t. distinct (depends_of (p_rq st) t) \<and> revdeps_of (p_rq st) t = []) \<and>
     (\<forall>t \<in> set (dkeys (p_rq st)). CHR '':'' \<in> set t) \<and>
     set (dkeys (recursivetasks st)) \<subseteq> set (dkeys (p_rq st))"

lemma prep_shape_refl [simp]: "prep_shape st st"
  by (simp add: prep_shape_def)

lemma prep_shape_trans: "prep_shape a b \<Longrightarrow> prep_shape b c \<Longrightarrow> prep_shape a c"
  unfolding prep_shape_def by (simp del: set_map) blast

lemma add_mc_dependency_shape:
  "prep_shape st (snd (add_mc_dependency mc tid dep st)) \<and>
   (prep_ok st \<longrightarrow> prep_ok (snd (add_mc_dependency mc tid dep st)))"
proof -
  have "prep_shape st (st\<lparr>p_td := dset mc (upd_entry tid f td) (p_td st)\<rparr>)" if "dget (p_td st) mc = Some td" for td f
  proof -
    have "mc \<in> set (dkeys (p_td st))" using that dget_in_dkeys [of mc "p_td st"] by auto
    moreover have "dkeys (taskentries (upd_entry tid f td)) = dkeys (taskentries td)"
      using dget_in_dkeys [of tid "taskentries td"]
      by (auto simp: upd_entry_def dkeys_dset_same split: option.splits)
    ultimately show ?thesis
      using that by (auto simp: prep_shape_def entry_keys_def fun_eq_iff)
  qed
  then show ?thesis
    by (auto simp: add_mc_dependency_def prep_ok_def split: list.splits option.splits if_splits)
qed

lemma add_mc_part_shape:
  "prep_shape st (snd (add_mc_part T tid parts st)) \<and>
   (prep_ok st \<longrightarrow> prep_ok (snd (add_mc_part T tid parts st)))"
proof -
  have "prep_shape st (snd (foreach (add_mc_dependency mc tid) ds st)) \<and>
      (prep_ok st \<longrightarrow> prep_ok (snd (foreach (add_mc_dependency mc tid) ds st)))" for mc ds
    by (rule foreach_rel [where R = "\<lambda>a b. prep_shape a b \<and> (prep_ok a \<longrightarrow> prep_ok b)"])
      (auto intro: prep_shape_trans add_mc_dependency_shape [THEN conjunct1]
        add_mc_dependency_shape [THEN conjunct2, THEN mp])
  then show ?thesis
    by (simp add: add_mc_part_def add_mc_dependencies_def split: prod.split option.split)
qed

lemma distinct_add_dependencies:
  "distinct ds \<Longrightarrow> distinct (add_dependencies targets entries ids names ds)"
proof -
  have named: "distinct ds \<Longrightarrow> distinct (add_named entries names fn ds)" for ds fn
  proof -
    have "distinct ds \<Longrightarrow> distinct (foldl (\<lambda>ds n. if fn @ '':'' @ n \<in> set entries
        then append_new (fn @ '':'' @ n) ds else ds) ds ns)" for ns
      by (induction ns arbitrary: ds) auto
    then show "distinct ds \<Longrightarrow> ?thesis" by (simp add: add_named_def)
  qed
  have "distinct ds \<Longrightarrow> distinct (foldl (\<lambda>ds name. case first_provider targets name of
      None \<Rightarrow> ds | Some fn \<Rightarrow> add_named entries names fn ds) ds is)" for "is"
    by (induction "is" arbitrary: ds) (auto intro: named split: option.splits)
  then show "distinct ds \<Longrightarrow> ?thesis" by (simp add: add_dependencies_def)
qed

lemma distinct_adds:
  "add_tdepends ts ds = Inr ds' \<Longrightarrow> distinct ds \<Longrightarrow> distinct ds'"
  "add_deptask td tdeps taskfn taskname ds = Inr ds' \<Longrightarrow> distinct ds \<Longrightarrow> distinct ds'"
  "add_rdeptask td tdeps taskfn taskname ds = Inr ds' \<Longrightarrow> distinct ds \<Longrightarrow> distinct ds'"
  "add_idepends td ids ds = Inr ds' \<Longrightarrow> distinct ds \<Longrightarrow> distinct ds'"
  "add_irdepends td ids ds = Inr ds' \<Longrightarrow> distinct ds \<Longrightarrow> distinct ds'"
  subgoal by (induction ts ds rule: add_tdepends.induct) (auto split: option.splits)
  subgoal by (auto simp: add_deptask_def add_build_dependencies_def distinct_add_dependencies split: option.splits)
  subgoal by (auto simp: add_rdeptask_def add_runtime_dependencies_def distinct_add_dependencies split: option.splits)
  subgoal by (induction td ids ds rule: add_idepends.induct) (auto split: option.splits if_splits)
  subgoal by (induction td ids ds rule: add_irdepends.induct) (auto split: option.splits if_splits)
  done

lemma direct_depends_distinct:
  "direct_depends td tdeps e taskfn taskname = Inr ds \<Longrightarrow> distinct ds"
  unfolding direct_depends_def bind_res_Inr_iff by (auto dest!: distinct_adds)

lemma note_recursive_shape:
  assumes "note_recursive td tdeps tid parts ds st = (r, st')"
  shows "p_td st' = p_td st \<and> p_rq st' = p_rq st \<and>
    set (dkeys (recursivetasks st')) \<subseteq> insert tid (set (dkeys (recursivetasks st))) \<and>
    (\<forall>ds'. r = Inr ds' \<longrightarrow> distinct ds \<longrightarrow> distinct ds')"
  using assms
  by (auto simp: note_recursive_def Let_def add_build_dependencies_def add_runtime_dependencies_def
      distinct_add_dependencies simp del: set_map split: prod.splits option.splits if_splits)

lemma set_depends_shape:
  assumes "tid \<in> set (dkeys (p_rq st))" "distinct ds"
  shows "prep_shape st (set_depends tid ds st) \<and> (prep_ok st \<longrightarrow> prep_ok (set_depends tid ds st))"
proof -
  obtain e where e: "dget (p_rq st) tid = Some e" using assms(1) dget_in_dkeys [of tid "p_rq st"] by auto
  have "wf_dict d \<Longrightarrow> wf_dict (dset tid v d)" for v and d :: runq by simp
  then show ?thesis using assms e
    by (auto simp: set_depends_def prep_shape_def entry_keys_def prep_ok_def depends_of_def revdeps_of_def
        distinct_removeAll fun_eq_iff split: option.splits)
qed

lemma resolve_task_shape:
  assumes "tid \<in> set (dkeys (p_rq st))"
  shows "prep_shape st (snd (resolve_task T tid parts st)) \<and>
    (prep_ok st \<longrightarrow> prep_ok (snd (resolve_task T tid parts st)))"
proof -
  obtain mc fn taskname taskfn where p: "parts = (mc, fn, taskname, taskfn)" by (metis prod_cases4)
  have note_shape: "prep_shape st s1 \<and> (prep_ok st \<longrightarrow> prep_ok s1)"
    if "note_recursive td tdeps tid parts ds st = (r, s1)" for td tdeps ds r s1
    using note_recursive_shape [OF that] assms
    unfolding prep_shape_def prep_ok_def entry_keys_def by (auto simp del: set_map)
  have "prep_shape st (set_depends tid ds' s1) \<and> (prep_ok st \<longrightarrow> prep_ok (set_depends tid ds' s1))"
    if "direct_depends td tdeps e taskfn taskname = Inr ds"
      "note_recursive td tdeps tid parts ds st = (Inr ds', s1)" for td tdeps e ds ds' s1
  proof -
    have d: "distinct ds'" using note_recursive_shape [OF that(2)] direct_depends_distinct [OF that(1)] by simp
    have "tid \<in> set (dkeys (p_rq s1))" using note_recursive_shape [OF that(2)] assms by simp
    from set_depends_shape [OF this d] note_shape [OF that(2)] show ?thesis
      by (auto intro: prep_shape_trans)
  qed
  then show ?thesis using note_shape
    by (auto simp: resolve_task_def p split: option.splits sum.splits prod.splits)
qed

lemma split_tid_colon: "split_tid_mcfn tid \<noteq> None \<Longrightarrow> CHR '':'' \<in> set tid"
  by (auto simp: split_tid_mcfn_def is_mc_def prefix_def split: if_splits option.splits dest!: rsplit1_Some)

lemma prep_task_shape:
  "prep_shape st (snd (prep_task T tid st)) \<and> (prep_ok st \<longrightarrow> prep_ok (snd (prep_task T tid st)))"
proof (cases "split_tid_mcfn tid")
  case (Some parts)
  obtain mc fn taskname taskfn where p: "parts = (mc, fn, taskname, taskfn)" by (metis prod_cases4)
  let ?s1 = "st\<lparr>p_rq := dset tid new_entry (p_rq st)\<rparr>"
  have colon: "CHR '':'' \<in> set tid" using Some by (intro split_tid_colon) simp
  then have 1: "prep_shape st ?s1 \<and> (prep_ok st \<longrightarrow> prep_ok ?s1)"
    by (auto simp: prep_shape_def entry_keys_def prep_ok_def depends_of_def revdeps_of_def new_entry_def fun_eq_iff)
  have key: "tid \<in> set (dkeys (p_rq (snd (add_mc_part T tid parts ?s1))))"
    unfolding add_mc_part_rq by simp
  let ?s2 = "snd (add_mc_part T tid parts ?s1)"
  have 2: "prep_shape st ?s2 \<and> (prep_ok st \<longrightarrow> prep_ok ?s2)"
    using 1 add_mc_part_shape [of ?s1 T tid parts] prep_shape_trans by blast
  have 3: "prep_shape st (snd (resolve_task T tid parts ?s2)) \<and>
      (prep_ok st \<longrightarrow> prep_ok (snd (resolve_task T tid parts ?s2)))"
    using 2 resolve_task_shape [OF key, of T parts] prep_shape_trans by blast
  have "snd (seq_st (add_mc_part T tid parts ?s1) (resolve_task T tid parts)) \<in>
      {?s2, snd (resolve_task T tid parts ?s2)}"
    by (cases "add_mc_part T tid parts ?s1"; cases "fst (add_mc_part T tid parts ?s1)") (auto simp: seq_st_def)
  then have "snd (prep_task T tid st) \<in> {?s1, ?s2, snd (resolve_task T tid parts ?s2)}"
    by (auto simp: prep_task_def Some p Let_def split: option.splits)
  with 1 2 3 show ?thesis by auto
qed (simp add: prep_task_def)

lemma prep_task_key:
  assumes "prep_task T tid st = (Inr (), st')"
  shows "tid \<in> set (dkeys (p_rq st'))"
proof -
  obtain mc fn taskname taskfn where p: "split_tid_mcfn tid = Some (mc, fn, taskname, taskfn)"
    using assms by (auto simp: prep_task_def split: option.splits)
  let ?s1 = "st\<lparr>p_rq := dset tid new_entry (p_rq st)\<rparr>" and ?p = "(mc, fn, taskname, taskfn)"
  let ?s2 = "snd (add_mc_part T tid ?p ?s1)"
  have "tid \<in> set (dkeys (p_rq ?s1))" by simp
  moreover have key: "tid \<in> set (dkeys (p_rq ?s2))"
    unfolding add_mc_part_rq by simp
  moreover have "tid \<in> set (dkeys (p_rq (snd (resolve_task T tid ?p ?s2))))"
    using resolve_task_shape [OF key, of T ?p] key unfolding prep_shape_def by blast
  moreover have "snd (prep_task T tid st) \<in> {?s1, ?s2, snd (resolve_task T tid ?p ?s2)}"
    by (cases "add_mc_part T tid ?p ?s1"; cases "fst (add_mc_part T tid ?p ?s1)")
      (auto simp: prep_task_def p seq_st_def Let_def split: option.splits)
  ultimately show ?thesis using assms by auto
qed

definition prep_steps :: "prep \<Rightarrow> prep \<Rightarrow> bool" where
  "prep_steps a b \<longleftrightarrow> prep_shape a b \<and> (prep_ok a \<longrightarrow> prep_ok b)"

lemma prep_steps_refl: "prep_steps a a"
  by (simp add: prep_steps_def)

lemma prep_steps_trans: "prep_steps a b \<Longrightarrow> prep_steps b c \<Longrightarrow> prep_steps a c"
  unfolding prep_steps_def using prep_shape_trans by blast

lemma prep_task_steps: "prep_steps s (snd (prep_task T t s))"
  unfolding prep_steps_def by (rule prep_task_shape)

lemma prep_config_steps: "prep_steps s (snd (foreach (prep_task T) ts s))"
  by (rule foreach_rel [where R = prep_steps])
    (rule prep_steps_refl, erule (1) prep_steps_trans, rule prep_task_steps)

definition prep_config :: "(string \<Rightarrow> tables) \<Rightarrow> string \<Rightarrow> prep \<Rightarrow> unit result \<times> prep" where
  "prep_config T mc s = (case dget (p_td s) mc of None \<Rightarrow> (Inl KeyError, s)
      | Some td \<Rightarrow> foreach (prep_task T) (dkeys (taskentries td)) s)"

lemma prep_tasks_config: "prep_tasks T st = foreach (prep_config T) (dkeys (p_td st)) st"
  by (simp add: prep_tasks_def prep_config_def [abs_def])

lemma prep_body_steps: "prep_steps s (snd (prep_config T mc s))"
  by (simp add: prep_config_def prep_config_steps prep_steps_refl split: option.split)

lemma prep_config_keys:
  assumes "prep_config T mc s = (Inr (), t)"
  shows "\<exists>ks. entry_keys t mc = Some ks \<and> set ks \<subseteq> set (dkeys (p_rq t))"
proof -
  obtain td where td: "dget (p_td s) mc = Some td"
    and run: "foreach (prep_task T) (dkeys (taskentries td)) s = (Inr (), t)"
    using assms by (auto simp: prep_config_def split: option.splits)
  have "x \<in> set (dkeys (p_rq t))" if x: "x \<in> set (dkeys (taskentries td))" for x
  proof (rule foreach_post [OF run x, of "\<lambda>t. x \<in> set (dkeys (p_rq t))"])
    show "x \<in> set (dkeys (p_rq b))" if "prep_task T x a = (Inr (), b)" for a b
      using that by (rule prep_task_key)
    show "x \<in> set (dkeys (p_rq (snd (prep_task T y a))))" if "x \<in> set (dkeys (p_rq a))" for y a
      using that prep_task_steps [of a T y] unfolding prep_steps_def prep_shape_def by blast
  qed
  moreover have "entry_keys t mc = Some (dkeys (taskentries td))"
    using prep_config_steps [of s T "dkeys (taskentries td)"] td
    unfolding run snd_conv prep_steps_def prep_shape_def by (simp add: entry_keys_def)
  ultimately show ?thesis by blast
qed

lemma prep_tasks_result:
  assumes run: "prep_tasks T st = (Inr (), p)" and ok: "prep_ok st"
  shows "prep_ok p \<and> prep_shape st p \<and> entries_in (p_td p) (p_rq p)"
proof -
  note run' = run [unfolded prep_tasks_config]
  have "prep_steps st (snd (foreach (prep_config T) (dkeys (p_td st)) st))"
    by (rule foreach_rel [where R = prep_steps])
      (rule prep_steps_refl, erule (1) prep_steps_trans, rule prep_body_steps)
  with run' ok have p: "prep_ok p" "prep_shape st p" unfolding prep_steps_def by simp_all
  have "set (dkeys (taskentries td)) \<subseteq> set (dkeys (p_rq p))" if td: "dget (p_td p) mc = Some td" for mc td
  proof -
    have ek: "entry_keys p mc = Some (dkeys (taskentries td))" using td by (simp add: entry_keys_def)
    have "mc \<in> set (dkeys (p_td p))" using td dget_in_dkeys [of mc "p_td p"] by blast
    then have mc: "mc \<in> set (dkeys (p_td st))" using p(2) unfolding prep_shape_def by blast
    have "\<exists>ks. entry_keys p mc = Some ks \<and> set ks \<subseteq> set (dkeys (p_rq p))"
    proof (rule foreach_post [OF run' mc, of "\<lambda>t. \<exists>ks. entry_keys t mc = Some ks \<and> set ks \<subseteq> set (dkeys (p_rq t))"])
      show "\<exists>ks. entry_keys b mc = Some ks \<and> set ks \<subseteq> set (dkeys (p_rq b))"
        if "prep_config T mc a = (Inr (), b)" for a b
        using that by (rule prep_config_keys)
      show "\<exists>ks. entry_keys (snd (prep_config T y a)) mc = Some ks \<and>
          set ks \<subseteq> set (dkeys (p_rq (snd (prep_config T y a))))"
        if "\<exists>ks. entry_keys a mc = Some ks \<and> set ks \<subseteq> set (dkeys (p_rq a))" for y a
        using that prep_body_steps [of a T y] unfolding prep_steps_def prep_shape_def by auto
    qed
    with ek show ?thesis by simp
  qed
  with p show ?thesis by (simp add: entries_in_def)
qed

section \<open>The recursive part on any queue\<close>

lemma foreach_keys:
  assumes "foreach f xs d = (r, d')"
    and "\<And>x e r e'. f x e = (r, e') \<Longrightarrow> set (dkeys e') = set (dkeys e) \<and> (r = Inr () \<longrightarrow> Q x (set (dkeys e)))"
  shows "set (dkeys d') = set (dkeys d) \<and> (r = Inr () \<longrightarrow> (\<forall>x \<in> set xs. Q x (set (dkeys d))))"
  using assms(1)
proof (induction xs arbitrary: d)
  case (Cons x xs)
  obtain r1 d1 where 1: "f x d = (r1, d1)" by fastforce
  show ?case
  proof (cases r1)
    case (Inl e)
    then have "r = Inl e" "d' = d1" using Cons.prems 1 by auto
    with assms(2) [OF 1] show ?thesis by simp
  next
    case (Inr u)
    with Cons.prems 1 have "foreach f xs d1 = (r, d')" by simp
    from Cons.IH [OF this] assms(2) [OF 1] Inr show ?thesis by simp
  qed
qed simp

lemma plain_revdeps_closed:
  assumes "plain_revdeps rq = (r, rv)"
  shows "r = Inl KeyError \<or> (r = Inr () \<and> closed_queue rq)"
proof -
  have step: "set (dkeys e') = set (dkeys e) \<and> (r = Inr () \<longrightarrow> d \<in> set (dkeys e))"
    if "add_plain_revdep tid d e = (r, e')" for tid d e r e'
    using that dget_in_dkeys [of d e] by (auto simp: add_plain_revdep_def simp del: set_map split: option.splits)
  have task: "set (dkeys e') = set (dkeys e) \<and> (r = Inr () \<longrightarrow> deps_set rq tid \<subseteq> set (dkeys e))"
    if "foreach (add_plain_revdep tid) (depends_of rq tid) e = (r, e')" for tid e r e'
    using foreach_keys [OF that, of "\<lambda>x K. x \<in> K"] step unfolding deps_set_def by blast
  define rv0 :: names where "rv0 = map (\<lambda>(t, e). (t, [])) rq"
  have keys0: "set (dkeys rv0) = set (dkeys rq)" by (force simp: rv0_def)
  have run: "foreach (\<lambda>tid. foreach (add_plain_revdep tid) (depends_of rq tid)) (dkeys rq) rv0 = (r, rv)"
    using assms by (simp add: plain_revdeps_def rv0_def)
  have "deps_set rq t = {}" if "t \<notin> set (dkeys rq)" for t
    using that dget_None_dkeys [of rq t] by (simp add: deps_set_def depends_of_def)
  then have "r = Inr () \<Longrightarrow> closed_queue rq"
    using foreach_keys [OF run, of "\<lambda>t K. deps_set rq t \<subseteq> K"] task
    unfolding keys0 closed_queue_def by blast
  moreover have "e = KeyError" if "fst (foreach (\<lambda>tid. foreach (add_plain_revdep tid) (depends_of rq tid))
      (dkeys rq) rv0) = Inl e" for e
    by (rule foreach_err [OF that], erule foreach_err) (auto simp: add_plain_revdep_def split: option.splits)
  ultimately show ?thesis using run by (cases r) auto
qed

lemma cumulativedeps_total:
  assumes "wf_dict rq"
  shows "cumulativedeps rq = Inl KeyError \<or> (closed_queue rq \<and> (\<exists>cum. cumulativedeps rq = Inr cum))"
proof -
  obtain r rv where p: "plain_revdeps rq = (r, rv)" by fastforce
  show ?thesis
  proof (cases r)
    case (Inl e)
    with plain_revdeps_closed [OF p] p show ?thesis by (simp add: cumulativedeps_def)
  next
    case (Inr u)
    with plain_revdeps_closed [OF p] have cl: "closed_queue rq" by simp
    then obtain rv' where rv': "plain_revdeps rq = (Inr (), rv')" "rev_ok rq rv'"
      using plain_revdeps_ok [of rq] unfolding closed_queue_def by blast
    have "card (set (dkeys rq)) \<le> length rq" using card_length [of "dkeys rq"] by simp
    then have "card (set (dkeys rq) - {}) < Suc (length rq)" by simp
    from cum_loop_enough [OF rv'(2) cum_inv_init [OF assms] this]
    obtain s' where "cum_loop (Suc (length rq)) rv' (filter (\<lambda>t. depends_of rq t = []) (dkeys rq))
        (cum_init rq) = Some s'" by blast
    with rv'(1) cl show ?thesis by (simp add: cumulativedeps_def)
  qed
qed

lemma add_recursive_total:
  assumes ok: "prep_ok st"
  shows "fst (add_recursive st) = Inl KeyError \<or>
    (\<exists>st'. add_recursive st = (Inr (), st') \<and> queue_ok (p_rq st') \<and>
       dkeys (p_rq st') = dkeys (p_rq st) \<and> p_td st' = p_td st)"
proof -
  let ?rq = "p_rq st" and ?recs = "recursivetasks st"
  have wf: "wf_dict ?rq" and dist: "\<And>t. distinct (depends_of ?rq t)"
    and rev: "\<And>t. revdeps_of ?rq t = []" and keys: "set (dkeys ?recs) \<subseteq> set (dkeys ?rq)"
    using ok unfolding prep_ok_def by blast+
  from cumulativedeps_total [OF wf] show ?thesis
  proof
    assume "cumulativedeps ?rq = Inl KeyError"
    then show ?thesis by (simp add: add_recursive_def)
  next
    assume "closed_queue ?rq \<and> (\<exists>cum. cumulativedeps ?rq = Inr cum)"
    then obtain cum where cl: "closed_queue ?rq" and cum: "cumulativedeps ?rq = Inr cum" by blast
    obtain rq1 k where run: "rec_loop cum ?recs (recursiveitasks st) ?rq = (Inr (), rq1)"
      and g: "grows ?recs (?rq, 0) (rq1, k)"
      using rec_loop_result [OF keys] by blast
    let ?rq' = "drop_selfref (recursivetasksselfref st) rq1"
    have gk: "dkeys rq1 = dkeys ?rq" "revdeps_of rq1 = revdeps_of ?rq" "\<And>t. distinct (depends_of rq1 t)"
      and ga: "\<And>t d. d \<in> deps_set rq1 t \<Longrightarrow> d \<in> deps_set ?rq t \<or> addable ?recs ?rq t d"
      using g dist unfolding grows_def prod.case by blast+
    have "d \<in> set (dkeys ?rq)" if "d \<in> deps_set ?rq' t" for t d
      using that ga [of d t] cl unfolding closed_queue_def addable_def
      by (auto simp: deps_set_drop_selfref simp del: set_map split: if_splits)
    then have "set (depends_of ?rq' t) \<subseteq> set (dkeys ?rq)" for t unfolding deps_set_def by blast
    then have "queue_ok ?rq'"
      unfolding queue_ok_def wf_dict_def drop_selfref_simps(1,2) gk(1,2)
      using wf rev gk(3) by (simp add: wf_dict_def drop_selfref_simps(3))
    moreover have "add_recursive st = (Inr (), st\<lparr>p_rq := ?rq'\<rparr>)"
      using cum run by (simp add: add_recursive_def)
    ultimately show ?thesis by (simp add: drop_selfref_simps(1) gk(1) del: set_map)
  qed
qed

section \<open>The preparation as a whole\<close>

lemma weigh_queue_Inr:
  assumes "queue_ok rq" "weigh_queue rq = (r, rq')"
  shows "r = Inl Fatal \<or> (\<exists>w. r = Inr w \<and> acyclic (dep_rel rq') \<and> graph_ok rq' \<and> dkeys rq' = dkeys rq)"
proof (cases "acyclic (dep_rel rq)")
  case True
  with weigh_queue_result [OF assms(1)] assms(2) obtain w rq1 where
    w: "r = Inr w" "rq' = map (\<lambda>(t, e). (t, e\<lparr>weight := dget_or w t 0\<rparr>)) rq1"
    "graph_ok rq1" "dkeys rq1 = dkeys rq" "depends_of rq1 = depends_of rq" by auto
  have upd: "dget (map (\<lambda>(t, e). (t, e\<lparr>weight := W t\<rparr>)) d) t = map_option (\<lambda>e. e\<lparr>weight := W t\<rparr>) (dget d t)"
    for W :: "string \<Rightarrow> int" and d :: runq and t by (induction d) auto
  have "depends_of rq' = depends_of rq1" "revdeps_of rq' = revdeps_of rq1"
    by (auto simp: fun_eq_iff depends_of_def revdeps_of_def w(2) upd split: option.split)
  moreover have "dkeys rq' = dkeys rq1" by (simp add: w(2) case_prod_beta)
  ultimately have "graph_ok rq'" "acyclic (dep_rel rq')" "dkeys rq' = dkeys rq"
    using w True by (simp_all add: graph_ok_def wf_dict_def dep_rel_def del: set_map)
  with w(1) show ?thesis by blast
next
  case False
  with weigh_queue_result [OF assms(1)] assms(2) show ?thesis by auto
qed

lemma provider_table_raised: "provider_table fp rq mc = Inl e \<Longrightarrow> raised e"
proof -
  have "fst (foreach (note_provider fp mc) ts s) = Inl e \<Longrightarrow> raised e" for ts s
    by (erule foreach_err) (auto simp: note_provider_def split: prod.splits option.splits if_splits)
  then show "provider_table fp rq mc = Inl e \<Longrightarrow> raised e"
    unfolding provider_table_def by (auto split: prod.splits sum.splits) (metis fst_conv)
qed

lemma check_providers_raised: "fst (check_providers fp allowed dcs rq) = Inl e \<Longrightarrow> raised e"
proof -
  have "fst (foreach (check_provider fp allowed rq mc dc) tb rs) = Inl e \<Longrightarrow> raised e" for mc dc tb rs e
    by (erule foreach_err) (auto simp: check_provider_def split: prod.splits if_splits)
  then show "fst (check_providers fp allowed dcs rq) = Inl e \<Longrightarrow> raised e"
    unfolding check_providers_def
    by (elim foreach_err) (auto split: prod.splits sum.splits dest: provider_table_raised)
qed

lemma setscene_tids_result:
  "case setscene_tids tds ts of Inl e \<Rightarrow> raised e | Inr ss \<Rightarrow> set ss \<subseteq> set ts"
proof (induction ts)
  case (Cons t ts)
  then show ?case
    by (cases "setscene_tids tds ts") (auto simp del: set_map split: option.splits)
qed simp

lemma invalidate_targets_raised: "fst (invalidate_targets T opts st) = Inl e \<Longrightarrow> raised e"
proof -
  have inv: "fst (invalidate_task T b t s) = Inl e \<Longrightarrow> raised e" for b t s e
    by (auto simp: invalidate_task_def split: option.splits prod.splits if_splits)
  have all: "fst (foreach (invalidate_task T b) ts s) = Inl e \<Longrightarrow> raised e" for b ts s e
    by (erule foreach_err) (rule inv)
  have names: "fst (invalidate_stamps T ns t s) = Inl e \<Longrightarrow> raised e" for ns t s e
    unfolding invalidate_stamps_def by (erule foreach_err) (rule inv)
  have stamps: "fst (foreach (invalidate_stamps T ns) ts s) = Inl e \<Longrightarrow> raised e" for ns ts s e
    by (erule foreach_err) (rule names)
  show "fst (invalidate_targets T opts st) = Inl e \<Longrightarrow> raised e"
    unfolding invalidate_targets_def
    by (erule seq_st_err) (auto split: if_splits option.splits dest: all stamps)
qed

lemma prepare_hashes_result:
  assumes S: "unis_ok (in_siggen i)" and g: "graph_ok rq" "acyclic (dep_rel rq)"
  shows "case prepare_hashes i tds st w rq s of
      Inl e \<Rightarrow> raised e
    | Inr d \<Rightarrow> same_graph rq (pd_rq d) \<and> set (pd_setscene d) \<subseteq> set (dkeys rq) \<and>
        (\<forall>t \<in> set (dkeys rq). has_hash (pd_rq d) t \<and> has_unihash (pd_rq d) t)"
proof -
  obtain h where h: "compute_hashes (in_siggen i) rq s = (Inr (), h)" "same_graph rq (h_rq h)"
    "\<forall>t \<in> set (dkeys rq). has_hash (h_rq h) t \<and> has_unihash (h_rq h) t"
    using compute_hashes_result [OF disjI2 [OF g(1)] g(2) S] by blast
  obtain c reports where c: "check_providers (in_provides i) (in_allowed i) (in_caches i) rq = (c, reports)"
    by fastforce
  obtain v st1 where v: "invalidate_targets (in_tables i) (in_opts i) st = (v, st1)" by fastforce
  have cr: "raised e" if "c = Inl e" for e
    using check_providers_raised [of "in_provides i" "in_allowed i" "in_caches i" rq e] c that by simp
  have vr: "raised e" if "v = Inl e" for e
    using invalidate_targets_raised [of "in_tables i" "in_opts i" st e] v that by simp
  have sr: "case runq_setscene_tids (in_opts i) tds rq of Inl e \<Rightarrow> raised e | Inr ss \<Rightarrow> set ss \<subseteq> set (dkeys rq)"
    using setscene_tids_result [where tds = tds and ts = "dkeys rq"] by (simp add: runq_setscene_tids_def)
  show ?thesis
    using h cr vr sr c v by (cases "runq_setscene_tids (in_opts i) tds rq"; cases c; cases v)
      (simp_all add: prepare_hashes_def del: set_map)
qed

lemma prep_ok_init: "prep_ok (init_prep tds)"
  by (simp add: prep_ok_def init_prep_def depends_of_def revdeps_of_def)

lemma prepare_tasks_result:
  "(\<exists>e. fst (prepare_tasks i) = Inl e \<and> raised e) \<or>
   (\<exists>p. prepare_tasks i = (Inr (), p) \<and> queue_ok (p_rq p) \<and> entries_in (p_td p) (p_rq p) \<and>
      set (dkeys (p_td p)) = set (dkeys (in_tds i)) \<and> (\<forall>t \<in> set (dkeys (p_rq p)). CHR '':'' \<in> set t))"
proof -
  obtain r p where run: "prep_tasks (in_tables i) (init_prep (in_tds i)) = (r, p)" by fastforce
  show ?thesis
  proof (cases r)
    case (Inl e)
    with run prep_tasks_raised [of "in_tables i" "init_prep (in_tds i)" e] show ?thesis
      by (simp add: prepare_tasks_def)
  next
    case (Inr u)
    with run have p: "prep_ok p" "prep_shape (init_prep (in_tds i)) p" "entries_in (p_td p) (p_rq p)"
      using prep_tasks_result [of "in_tables i" _ p] prep_ok_init by auto
    have run': "prepare_tasks i = add_recursive p" using run Inr by (simp add: prepare_tasks_def)
    have keys: "set (dkeys (p_td p)) = set (dkeys (in_tds i))" "\<forall>t \<in> set (dkeys (p_rq p)). CHR '':'' \<in> set t"
      using p(1,2) unfolding prep_shape_def prep_ok_def init_prep_def by simp_all
    from add_recursive_total [OF p(1)] show ?thesis
    proof
      assume "fst (add_recursive p) = Inl KeyError"
      then show ?thesis by (simp add: run')
    next
      assume "\<exists>st'. add_recursive p = (Inr (), st') \<and> queue_ok (p_rq st') \<and>
        dkeys (p_rq st') = dkeys (p_rq p) \<and> p_td st' = p_td p"
      then show ?thesis unfolding run' using p(3) keys by (auto simp: entries_in_def simp del: set_map)
    qed
  qed
qed

text \<open>
  C6: The preparation of a run queue always ends, and when it does not raise an error it hands on
  a queue that the execution can rely on: unless no configuration has a task at all, the queue is
  not empty, every dependency is in it, the dependencies have no cycle, every task has its hash
  and unihash, and the setscene tasks are tasks of the queue.  The errors are the messages that
  end the program and missing keys; the bounds on loops and recursion in the model are never met.
\<close>

theorem prepare_result:
  assumes "unis_ok (in_siggen i)" and "fst ` set (in_targets i) \<subseteq> set (dkeys (in_tds i))"
    and "\<forall>n \<in> set (runall (in_opts i)). CHR '':'' \<notin> set n"
  shows "case prepare i s of
      Inl e \<Rightarrow> raised e
    | Inr None \<Rightarrow> (\<forall>(mc, td) \<in> set (in_tds i). taskentries td = [])
    | Inr (Some d) \<Rightarrow> pd_rq d \<noteq> [] \<and> closed_queue (pd_rq d) \<and> acyclic (dep_rel (pd_rq d)) \<and>
        (\<forall>t \<in> set (dkeys (pd_rq d)). has_hash (pd_rq d) t \<and> has_unihash (pd_rq d) t) \<and>
        set (pd_setscene d) \<subseteq> set (dkeys (pd_rq d))"
proof (cases "list_all (\<lambda>(mc, td). taskentries td = []) (in_tds i)")
  case True
  then show ?thesis by (auto simp: prepare_def list_all_iff)
next
  case some: False
  from prepare_tasks_result [of i] show ?thesis
  proof
    assume "\<exists>e. fst (prepare_tasks i) = Inl e \<and> raised e"
    then show ?thesis using some by (cases "prepare_tasks i") (auto simp: prepare_def)
  next
    assume "\<exists>p. prepare_tasks i = (Inr (), p) \<and> queue_ok (p_rq p) \<and> entries_in (p_td p) (p_rq p) \<and>
      set (dkeys (p_td p)) = set (dkeys (in_tds i)) \<and> (\<forall>t \<in> set (dkeys (p_rq p)). CHR '':'' \<in> set t)"
    then obtain p where p: "prepare_tasks i = (Inr (), p)" "queue_ok (p_rq p)" "entries_in (p_td p) (p_rq p)"
      "set (dkeys (p_td p)) = set (dkeys (in_tds i))" "\<forall>t \<in> set (dkeys (p_rq p)). CHR '':'' \<in> set t" by blast
    have "fst ` set (in_targets i) \<subseteq> set (dkeys (p_td p))" using assms(2) p(4) by simp
    from prune_queue_cases [OF p(2,3) this p(5) assms(3), of "in_tables i"]
    show ?thesis unfolding prepare_queue_def [symmetric]
    proof
      assume "fst (prepare_queue i p) = Inl Fatal"
      then show ?thesis using some p(1) by (cases "prepare_queue i p") (simp add: prepare_def)
    next
      assume "\<exists>st' M K. prepare_queue i p = (Inr (), st') \<and> queue_ok (pr_rq st') \<and> pr_rq st' \<noteq> [] \<and>
        dep_rel (pr_rq st') \<subseteq> dep_rel (p_rq p) \<and>
        M = reach (p_rq p) (\<Union>t \<in> set (in_targets i). target_roots (p_td p) (p_rq p) t) \<and>
        (if runall (in_opts i) = [] then K = M
         else wants (p_rq p) (runall (in_opts i)) M \<subseteq> K \<and>
           K = reach (p_rq p) (wants (p_rq p) (runall (in_opts i)) K)) \<and>
        set (dkeys (pr_rq st')) = (if runonly (in_opts i) = [] then K
          else reach (p_rq p) (only_tasks (runonly (in_opts i)) K))"
      then obtain st where st: "prepare_queue i p = (Inr (), st)" "queue_ok (pr_rq st)" "pr_rq st \<noteq> []" by blast
      obtain r rq where w: "weigh_queue (pr_rq st) = (r, rq)" by fastforce
      from weigh_queue_Inr [OF st(2) w] show ?thesis
      proof
        assume "r = Inl Fatal"
        then show ?thesis using some p(1) st(1) w by (simp add: prepare_def)
      next
        assume "\<exists>ws. r = Inr ws \<and> acyclic (dep_rel rq) \<and> graph_ok rq \<and> dkeys rq = dkeys (pr_rq st)"
        then obtain ws where ws: "r = Inr ws" "acyclic (dep_rel rq)" "graph_ok rq" "dkeys rq = dkeys (pr_rq st)"
          by blast
        have run: "prepare i s = bind_res (prepare_hashes i (p_td p) st ws rq s) (\<lambda>d. Inr (Some d))"
          using some p(1) st(1) w ws(1) by (simp add: prepare_def)
        note res = prepare_hashes_result [OF assms(1) ws(3,2), of "p_td p" st ws s]
        have ne: "dkeys rq \<noteq> []" unfolding ws(4) using st(3) by simp
        have fin: "d \<noteq> [] \<and> closed_queue d \<and> acyclic (dep_rel d)" if "same_graph rq d" for d
          using that ne ws(2,3) by (auto simp: same_graph_def closed_queue_def deps_set_def dep_rel_def graph_ok_def
              simp del: set_map)
        show ?thesis unfolding run using res fin
          by (cases "prepare_hashes i (p_td p) st ws rq s") (auto simp: same_graph_def simp del: set_map)
      qed
    qed
  qed
qed

section \<open>The report on multiple providers\<close>

lemma common_of_snoc: "common_of (dss @ [ds]) = (if common_of dss = [] then ds else filter (\<lambda>d. d \<in> set ds) (common_of dss))"
  by (simp add: common_of_def)

lemma common_of_nonempty:
  "dss \<noteq> [] \<Longrightarrow> (\<Inter>ds \<in> set dss. set ds) \<noteq> {} \<Longrightarrow> set (common_of dss) = (\<Inter>ds \<in> set dss. set ds)"
proof (induction dss rule: rev_induct)
  case (snoc ds dss)
  show ?case
  proof (cases "dss = []")
    case False
    with snoc have "set (common_of dss) = (\<Inter>ds \<in> set dss. set ds)" by auto
    moreover from this snoc.prems have "common_of dss \<noteq> []" by auto
    ultimately show ?thesis by (auto simp: common_of_snoc)
  qed (simp add: common_of_def)
qed simp


section \<open>An example\<close>

text \<open>Task \<open>i:r\<close> comes after \<open>a:p\<close>.\<close>

definition td_in :: td_state where
  "td_in = (init_td False False cache_rd (\<lambda>_. []))
     \<lparr>build_targets := [(''i'', [''i''])],
      taskentries := [(''i:r'', \<lparr>tdepends = [''a:p''], idepends = [], irdepends = []\<rparr>),
        (''a:p'', \<lparr>tdepends = [], idepends = [], irdepends = []\<rparr>)]\<rparr>"

definition prep_in :: "hash_event list prepare_in" where
  "prep_in = \<lparr>in_tables = (\<lambda>_. tab_rd), in_opts = opts_pr, in_tds = [([], td_in)],
     in_targets = [([], ''i'', ''r'', ''i'')], in_caches = [], in_provides = (\<lambda>_ _. []), in_allowed = [],
     in_siggen = recorder\<rparr>"

lemma prep_in_run:
  "case prepare prep_in [] of
      Inr (Some d) \<Rightarrow> pd_sig d = [Hashed ''a:p'', Unihashed [''a:p''], Hashed ''i:r'', Unihashed [''i:r'']]
    | _ \<Rightarrow> False"
  by code_simp

theorem prepare_result_witness:
  "case prepare prep_in [] of
      Inr (Some d) \<Rightarrow> acyclic (dep_rel (pd_rq d)) \<and> closed_queue (pd_rq d) \<and>
        pd_sig d = [Hashed ''a:p'', Unihashed [''a:p''], Hashed ''i:r'', Unihashed [''i:r'']]
    | _ \<Rightarrow> False"
proof -
  have "unis_ok (in_siggen prep_in)" by (force simp: unis_ok_def recorder_def prep_in_def)
  moreover have "fst ` set (in_targets prep_in) \<subseteq> set (dkeys (in_tds prep_in))" by (simp add: prep_in_def)
  moreover have "\<forall>n \<in> set (runall (in_opts prep_in)). CHR '':'' \<notin> set n" by (simp add: prep_in_def opts_pr_def)
  ultimately have "case prepare prep_in [] of
      Inl e \<Rightarrow> raised e
    | Inr None \<Rightarrow> (\<forall>(mc, td) \<in> set (in_tds prep_in). taskentries td = [])
    | Inr (Some d) \<Rightarrow> pd_rq d \<noteq> [] \<and> closed_queue (pd_rq d) \<and> acyclic (dep_rel (pd_rq d)) \<and>
        (\<forall>t \<in> set (dkeys (pd_rq d)). has_hash (pd_rq d) t \<and> has_unihash (pd_rq d) t) \<and>
        set (pd_setscene d) \<subseteq> set (dkeys (pd_rq d))" by (rule prepare_result)
  with prep_in_run show ?thesis by (auto split: sum.splits option.splits)
qed

theorem hashes_in_order_witness:
  "\<exists>h. compute_hashes recorder chain2 [] = (Inr (), h) \<and> hashed_after chain2 {} (sig_state h)"
proof -
  have d2: "dep_rel chain2 = {(''a:do_compile'', ''a:do_fetch'')}"
    by (auto simp: dep_rel_def depends_of_def chain2_def entry_on_def new_entry_def split: if_splits)
  have "acyclic (dep_rel chain2)" unfolding d2 by (rule acyclicI_order [of _ length]) simp
  from hashes_in_order [OF chain2_ok this] show ?thesis by blast
qed


end
