(* ===== verification/Stamps.thy ===== *)
theory Stamps
  imports Prepare
begin

text \<open>
  Which tasks need not run (\<open>poky/bitbake/lib/bb/runqueue.py\<close>): the patterns of tasks that may run
  although only setscene tasks should (\<open>check_setscene_enforce_ignore_tasks\<close>), and
  \<open>RunQueue.check_stamp_task\<close>, which compares the times of stamp files along the dependencies and
  remembers its answers in a cache.  The stamp directory is a function from file names to
  modification times, \<open>None\<close> for a file that is not there; \<open>make_stamp_mcfn\<close> of \<open>build.py\<close> writes it.
  What the executor reads of the configuration is the record \<open>conf\<close>.
\<close>

section \<open>Shell patterns\<close>

text \<open>\<open>fnmatch.fnmatch\<close> of the standard library on a case-sensitive system.\<close>

datatype glob_item = AnyRun | AnyChar | Literal char | CharClass bool "(char \<times> char) list"

fun class_ranges :: "string \<Rightarrow> (char \<times> char) list" where
  "class_ranges [] = []"
| "class_ranges (a # m # b # cs) =
     (if m = CHR ''-'' then (a, b) # class_ranges cs else (a, a) # class_ranges (m # b # cs))"
| "class_ranges (a # cs) = (a, a) # class_ranges cs"

text \<open>
  The body of a bracket expression and what follows it; \<open>None\<close> when it is not closed.  A bracket
  right at the start of the body does not close it.
\<close>

definition class_skip :: "string \<Rightarrow> nat" where
  "class_skip cs =
     (let b = (if startswith cs ''!'' then 1 else 0)
      in if startswith (drop b cs) '']'' then Suc b else b)"

definition class_body :: "string \<Rightarrow> (string \<times> string) option" where
  "class_body cs =
     (let skip = class_skip cs;
          body = take skip cs @ takeWhile (\<lambda>c. c \<noteq> CHR '']'') (drop skip cs)
      in case drop (length body) cs of [] \<Rightarrow> None | _ # rest \<Rightarrow> Some (body, rest))"

lemma drop_Cons_length: "drop n cs = c # rest \<Longrightarrow> length rest < length cs"
  by (metis length_drop length_Cons diff_le_self less_le_trans lessI)

lemma class_body_length: "class_body cs = Some (b, rest) \<Longrightarrow> length rest < length cs"
  unfolding class_body_def Let_def by (auto split: list.splits dest: drop_Cons_length)

function glob_items :: "string \<Rightarrow> glob_item list" where
  "glob_items [] = []"
| "glob_items (c # cs) =
     (if c = CHR ''*'' then AnyRun # glob_items cs
      else if c = CHR ''?'' then AnyChar # glob_items cs
      else if c = CHR ''['' then
        (case class_body cs of
           None \<Rightarrow> Literal c # glob_items cs
         | Some (body, rest) \<Rightarrow>
             (if startswith body ''!'' then CharClass False (class_ranges (tl body))
              else CharClass True (class_ranges body)) # glob_items rest)
      else Literal c # glob_items cs)"
  by pat_completeness auto
termination
  by (relation "measure length") (auto dest: class_body_length)

fun item_matches :: "glob_item \<Rightarrow> char \<Rightarrow> bool" where
  "item_matches (Literal a) c = (a = c)"
| "item_matches (CharClass b rs) c = (list_ex (\<lambda>(lo, hi). lo \<le> c \<and> c \<le> hi) rs = b)"
| "item_matches _ c = True"

fun glob_match :: "glob_item list \<Rightarrow> string \<Rightarrow> bool" where
  "glob_match [] s = (s = [])"
| "glob_match (AnyRun # ps) [] = glob_match ps []"
| "glob_match (AnyRun # ps) (c # cs) = (glob_match ps (c # cs) \<or> glob_match (AnyRun # ps) cs)"
| "glob_match (p # ps) [] = False"
| "glob_match (p # ps) (c # cs) = (item_matches p c \<and> glob_match ps cs)"

definition fnmatch :: "string \<Rightarrow> string \<Rightarrow> bool" where
  "fnmatch s pat = glob_match (glob_items pat) s"

section \<open>Tasks that may run without their setscene variant\<close>

text \<open>A target is a configuration, a recipe, a task and a file.\<close>

definition expand_ignore :: "(string \<times> string \<times> string \<times> string) list \<Rightarrow> string \<Rightarrow> string list" where
  "expand_ignore tgts item =
     (if startswith item ''%:''
      then map (\<lambda>(mc, target, task, fn). target @ '':'' @ split_on (CHR '':'') item ! 1) tgts
      else [item])"

definition get_setscene_enforce_ignore_tasks ::
  "getvar \<Rightarrow> (string \<times> string \<times> string \<times> string) list \<Rightarrow> string list option"
where
  "get_setscene_enforce_ignore_tasks getv tgts =
     (if getv ''BB_SETSCENE_ENFORCE'' \<noteq> Some ''1'' then None
      else Some (concat (map (expand_ignore tgts)
             (split_ws (case getv ''BB_SETSCENE_ENFORCE_IGNORE_TASKS'' of None \<Rightarrow> [] | Some v \<Rightarrow> v)))))"

definition check_setscene_enforce_ignore_tasks :: "string \<Rightarrow> string \<Rightarrow> string list option \<Rightarrow> bool" where
  "check_setscene_enforce_ignore_tasks pn taskname ignore =
     (case ignore of None \<Rightarrow> True | Some pats \<Rightarrow> list_ex (fnmatch (pn @ '':'' @ taskname)) pats)"
section \<open>What the executor reads of the configuration\<close>

text \<open>
  \<open>scene_tids\<close>, \<open>targets\<close> and \<open>task_data\<close> are \<open>runq_setscene_tids\<close>, \<open>target_tids\<close> and \<open>taskData\<close> of
  \<open>RunQueueData\<close>; \<open>taskdep\<close>, \<open>recipe\<close>, \<open>provided_by\<close> and \<open>hashfn\<close> are fields of its data caches by configuration and
  file.  The signature generator names the stamp files: \<open>stampfile\<close> and \<open>short_stamp\<close> (without the
  task's extra information) by task name and file, \<open>clean_mask\<close> the files that the pattern of old
  stamps of a task matches.
\<close>

record conf =
  scene_tids :: "string list"
  targets :: "string list"
  task_data :: "(string \<times> td_state) list"
  taskdep :: "string \<Rightarrow> string \<Rightarrow> task_deps"
  recipe :: "string \<Rightarrow> string \<Rightarrow> string"
  provided_by :: "string \<Rightarrow> string \<Rightarrow> string list"
  hashfn :: "string \<Rightarrow> string \<Rightarrow> string"
  stampfile :: "string \<Rightarrow> string \<Rightarrow> string"
  short_stamp :: "string \<Rightarrow> string \<Rightarrow> string"
  clean_mask :: "string \<Rightarrow> string \<Rightarrow> string \<Rightarrow> bool"
  number_tasks :: int
  thread_limit :: "string \<Rightarrow> string option"
  opt_force :: bool
  opt_skipsetscene :: bool
  opt_setsceneonly :: bool
  opt_dry_run :: bool
  halt_first :: bool
  scene_enforce :: bool
  ignore_tasks :: "string list option"

type_synonym files = "string \<Rightarrow> nat option"
type_synonym stamp_cache = "(string \<times> bool) list"

definition flagged :: "conf \<Rightarrow> string \<Rightarrow> string \<Rightarrow> string \<Rightarrow> string \<Rightarrow> bool" where
  "flagged c flag mc taskfn taskname \<longleftrightarrow> task_flag (taskdep c mc taskfn) flag taskname \<noteq> None"

section \<open>Writing stamps\<close>

text \<open>
  Old stamps of the task go, except signature and taint files; then the stamp itself is made anew.
\<close>

fun contains_sub :: "string \<Rightarrow> string \<Rightarrow> bool" where
  "contains_sub p [] = (p = [])"
| "contains_sub p (c # cs) = (startswith (c # cs) p \<or> contains_sub p cs)"

definition clean_stamp_mcfn :: "conf \<Rightarrow> string \<Rightarrow> string \<Rightarrow> files \<Rightarrow> files" where
  "clean_stamp_mcfn c task mcfn fs =
     (\<lambda>f. if clean_mask c task mcfn f \<and> \<not> contains_sub ''sigdata'' f \<and>
             \<not> contains_sub ''sigbasedata'' f \<and> \<not> endswith f ''.taint'' then None else fs f)"

definition make_stamp_mcfn :: "conf \<Rightarrow> nat \<Rightarrow> string \<Rightarrow> string \<Rightarrow> files \<Rightarrow> files" where
  "make_stamp_mcfn c now task mcfn fs =
     (let basestamp = stampfile c task mcfn; cleaned = clean_stamp_mcfn c task mcfn fs
      in if basestamp = [] then cleaned else cleaned(basestamp := Some now))"

section \<open>Checking stamps\<close>

text \<open>
  A missing file and the time 0 are both false in Python.  A dependency is of no interest when its
  setscene stamp stands in for it or when it belongs to another recipe; otherwise it must not be
  newer than the task, and is followed.
\<close>

definition time_of :: "files \<Rightarrow> string \<Rightarrow> nat" where
  "time_of fs f = (case fs f of None \<Rightarrow> 0 | Some t \<Rightarrow> t)"

datatype dep_stamp = DepIgnored | DepNewer | DepFollow

definition dep_stamp_of :: "conf \<Rightarrow> files \<Rightarrow> nat \<Rightarrow> string \<Rightarrow> string \<Rightarrow> dep_stamp result" where
  "dep_stamp_of c fs t1 fn dep =
     (case split_tid_mcfn dep of
        None \<Rightarrow> Inl ValueError
      | Some (mc2, fn2, taskname2, taskfn2) \<Rightarrow>
          (let t2 = time_of fs (stampfile c taskname2 taskfn2);
               t3 = time_of fs (stampfile c (taskname2 @ ''_setscene'') taskfn2)
           in Inr (if t3 \<noteq> 0 \<and> (t2 = 0 \<or> t2 < t3) then DepIgnored
                   else if fn \<noteq> fn2 then DepIgnored
                   else if t2 = 0 \<or> t1 < t2 then DepNewer else DepFollow)))"

fun stamp_loop ::
  "(string \<Rightarrow> stamp_cache \<Rightarrow> (bool \<times> stamp_cache) result) \<Rightarrow> (string \<Rightarrow> dep_stamp result) \<Rightarrow> bool \<Rightarrow>
     string list \<Rightarrow> stamp_cache \<Rightarrow> (bool \<times> stamp_cache) result"
where
  "stamp_loop rec verdict recurse [] ch = Inr (True, ch)"
| "stamp_loop rec verdict recurse (dep # ds) ch =
     (case verdict dep of
        Inl e \<Rightarrow> Inl e
      | Inr DepIgnored \<Rightarrow> stamp_loop rec verdict recurse ds ch
      | Inr DepNewer \<Rightarrow> Inr (False, ch)
      | Inr DepFollow \<Rightarrow>
          if \<not> recurse then stamp_loop rec verdict recurse ds ch
          else (case dget ch dep of
                  Some b \<Rightarrow> if b then stamp_loop rec verdict recurse ds ch else Inr (False, ch)
                | None \<Rightarrow>
                    bind_res (rec dep ch) (\<lambda>(b, ch1).
                      if b then stamp_loop rec verdict recurse ds (dset dep b ch1)
                      else Inr (False, dset dep b ch1))))"

primrec check_stamp_fuel ::
  "nat \<Rightarrow> conf \<Rightarrow> files \<Rightarrow> runq \<Rightarrow> string \<Rightarrow> string option \<Rightarrow> bool \<Rightarrow> stamp_cache \<Rightarrow> (bool \<times> stamp_cache) result"
where
  "check_stamp_fuel 0 c fs rq tid taskname recurse ch = Inl OutOfFuel"
| "check_stamp_fuel (Suc k) c fs rq tid taskname recurse ch =
     (case split_tid_mcfn tid of
        None \<Rightarrow> Inl ValueError
      | Some (mc, fn, tn, taskfn) \<Rightarrow>
          (let name = (case taskname of None \<Rightarrow> tn | Some n \<Rightarrow> n)
           in case fs (stampfile c name taskfn) of
                None \<Rightarrow> Inr (False, ch)
              | Some t1 \<Rightarrow>
                  if flagged c ''nostamp'' mc taskfn name then Inr (False, ch)
                  else if endswith name ''_setscene'' then Inr (True, ch)
                  else (case dget rq tid of
                          None \<Rightarrow> Inl KeyError
                        | Some e \<Rightarrow>
                            bind_res (stamp_loop (\<lambda>d. check_stamp_fuel k c fs rq d None True)
                                        (dep_stamp_of c fs t1 fn) recurse (depends e) ch)
                              (\<lambda>(b, ch1). Inr (b, if recurse then dset tid b ch1 else ch1)))))"

definition check_stamp_task ::
  "conf \<Rightarrow> files \<Rightarrow> runq \<Rightarrow> string \<Rightarrow> string option \<Rightarrow> bool \<Rightarrow> stamp_cache \<Rightarrow> (bool \<times> stamp_cache) result"
where
  "check_stamp_task c fs rq = check_stamp_fuel (Suc (length rq)) c fs rq"

section \<open>What the check means\<close>

text \<open>
  Without caches and order: a task is current when its stamp is there, it does not refuse stamps,
  and every dependency of the same recipe that no setscene stamp stands in for is current and not newer.
\<close>

inductive stamp_current :: "conf \<Rightarrow> files \<Rightarrow> runq \<Rightarrow> string \<Rightarrow> bool" for c fs rq where
  stamp_currentI:
  "split_tid_mcfn tid = Some (mc, fn, tn, taskfn) \<Longrightarrow> fs (stampfile c tn taskfn) = Some t1 \<Longrightarrow>
     \<not> flagged c ''nostamp'' mc taskfn tn \<Longrightarrow>
     endswith tn ''_setscene'' \<or>
     (\<forall>d \<in> deps_set rq tid. dep_stamp_of c fs t1 fn d = Inr DepIgnored \<or>
        dep_stamp_of c fs t1 fn d = Inr DepFollow \<and> stamp_current c fs rq d) \<Longrightarrow>
     stamp_current c fs rq tid"

definition cache_sound :: "conf \<Rightarrow> files \<Rightarrow> runq \<Rightarrow> stamp_cache \<Rightarrow> bool" where
  "cache_sound c fs rq ch \<longleftrightarrow> (\<forall>t b. dget ch t = Some b \<longrightarrow> b = stamp_current c fs rq t)"

lemma cache_sound_dset:
  "cache_sound c fs rq ch \<Longrightarrow> b = stamp_current c fs rq t \<Longrightarrow> cache_sound c fs rq (dset t b ch)"
  by (simp add: cache_sound_def)

lemma stamp_current_iff:
  assumes "split_tid_mcfn t = Some (mc, fn, tn, taskfn)"
  shows "stamp_current c fs rq t \<longleftrightarrow>
    (\<exists>t1. fs (stampfile c tn taskfn) = Some t1 \<and> \<not> flagged c ''nostamp'' mc taskfn tn \<and>
      (endswith tn ''_setscene'' \<or>
       (\<forall>d \<in> deps_set rq t. dep_stamp_of c fs t1 fn d = Inr DepIgnored \<or>
          dep_stamp_of c fs t1 fn d = Inr DepFollow \<and> stamp_current c fs rq d)))"
  (is "_ \<longleftrightarrow> ?R")
proof
  show "stamp_current c fs rq t \<Longrightarrow> ?R" by (erule stamp_current.cases) (use assms in auto)
  show "?R \<Longrightarrow> stamp_current c fs rq t" using stamp_currentI [OF assms] by blast
qed

lemma stamp_loop_ok:
  assumes "\<And>d ch. d \<in> set ds \<Longrightarrow> cache_sound c fs rq ch \<Longrightarrow>
      \<exists>b ch'. rec d ch = Inr (b, ch') \<and> b = stamp_current c fs rq d \<and> cache_sound c fs rq ch'"
    and "\<And>d. d \<in> set ds \<Longrightarrow> \<exists>v. verdict d = Inr v" and "cache_sound c fs rq ch"
  shows "\<exists>b ch'. stamp_loop rec verdict True ds ch = Inr (b, ch') \<and> cache_sound c fs rq ch' \<and>
    b = (\<forall>d \<in> set ds. verdict d = Inr DepIgnored \<or> verdict d = Inr DepFollow \<and> stamp_current c fs rq d)"
  using assms
proof (induction ds arbitrary: ch)
  case (Cons d ds)
  have tail: "\<exists>b ch'. stamp_loop rec verdict True ds ch1 = Inr (b, ch') \<and> cache_sound c fs rq ch' \<and>
      b = (\<forall>d \<in> set ds. verdict d = Inr DepIgnored \<or> verdict d = Inr DepFollow \<and> stamp_current c fs rq d)"
    if "cache_sound c fs rq ch1" for ch1
    by (rule Cons.IH) (use Cons.prems(1,2) that in auto)
  obtain v where v: "verdict d = Inr v" using Cons.prems(2) [of d] by auto
  show ?case
  proof (cases v)
    case DepFollow
    show ?thesis
    proof (cases "dget ch d")
      case (Some b)
      then have "b = stamp_current c fs rq d" using Cons.prems(3) by (simp add: cache_sound_def)
      then show ?thesis using v DepFollow Some tail [OF Cons.prems(3)] Cons.prems(3) by auto
    next
      case None
      obtain b ch1 where rec: "rec d ch = Inr (b, ch1)" "b = stamp_current c fs rq d" "cache_sound c fs rq ch1"
        using Cons.prems(1) [of d ch] Cons.prems(3) by auto
      have s: "cache_sound c fs rq (dset d b ch1)" using rec by (intro cache_sound_dset)
      then show ?thesis using v DepFollow None rec tail [OF s] by auto
    qed
  qed (use v tail [OF Cons.prems(3)] Cons.prems(3) in auto)
qed auto

section \<open>The check is right, and ends\<close>

definition below :: "runq \<Rightarrow> string \<Rightarrow> string set" where
  "below rq t = {d. (t, d) \<in> (dep_rel rq)\<^sup>+}"

lemma below_psubset:
  assumes "acyclic (dep_rel rq)" "d \<in> deps_set rq t"
  shows "below rq d \<subset> below rq t"
proof
  have e: "(t, d) \<in> dep_rel rq" using assms(2) by (simp add: dep_rel_def deps_set_def)
  then show "below rq d \<subseteq> below rq t" by (auto simp: below_def)
  have "d \<in> below rq t" "d \<notin> below rq d"
    using e assms(1) by (auto simp: below_def acyclic_def)
  then show "below rq d \<noteq> below rq t" by blast
qed

lemma below_keys: "closed_queue rq \<Longrightarrow> below rq t \<subseteq> set (dkeys rq)"
proof
  fix d assume "closed_queue rq" "d \<in> below rq t"
  then obtain e where "(e, d) \<in> dep_rel rq" by (auto simp: below_def elim: tranclE)
  then show "d \<in> set (dkeys rq)"
    using \<open>closed_queue rq\<close> unfolding closed_queue_def deps_set_def dep_rel_def by blast
qed

definition tids_wf :: "runq \<Rightarrow> bool" where
  "tids_wf rq \<longleftrightarrow> (\<forall>t \<in> set (dkeys rq). split_tid_mcfn t \<noteq> None)"

lemma dep_stamp_of_Inr: "split_tid_mcfn d \<noteq> None \<Longrightarrow> \<exists>v. dep_stamp_of c fs t1 fn d = Inr v"
  by (auto simp: dep_stamp_of_def Let_def)

lemma depends_entry: "dget rq t = Some e \<Longrightarrow> set (depends e) = deps_set rq t"
  by (simp add: deps_set_def depends_of_def)

lemma check_stamp_fuel_ok:
  assumes ac: "acyclic (dep_rel rq)" and cl: "closed_queue rq" and wf: "tids_wf rq"
  shows "t \<in> set (dkeys rq) \<Longrightarrow> cache_sound c fs rq ch \<Longrightarrow> card (below rq t) < k \<Longrightarrow>
    \<exists>b ch'. check_stamp_fuel k c fs rq t None True ch = Inr (b, ch') \<and>
      b = stamp_current c fs rq t \<and> cache_sound c fs rq ch'"
proof (induction k arbitrary: t ch)
  case (Suc k)
  obtain mc fn tn taskfn where sp: "split_tid_mcfn t = Some (mc, fn, tn, taskfn)"
    using wf Suc.prems(1) unfolding tids_wf_def by auto
  note cur = stamp_current_iff [OF sp, of c fs rq]
  obtain e where e: "dget rq t = Some e" using Suc.prems(1) dget_in_dkeys [of t rq] by blast
  have rec: "\<exists>b ch'. check_stamp_fuel k c fs rq d None True ch1 = Inr (b, ch') \<and>
      b = stamp_current c fs rq d \<and> cache_sound c fs rq ch'"
    if "d \<in> set (depends e)" "cache_sound c fs rq ch1" for d ch1
  proof (rule Suc.IH [OF _ that(2)])
    have d: "d \<in> deps_set rq t" using that(1) depends_entry [OF e] by simp
    then show "d \<in> set (dkeys rq)" using cl unfolding closed_queue_def by blast
    have "finite (below rq t)" using below_keys [OF cl, of t] by (rule finite_subset) simp
    then have "card (below rq d) < card (below rq t)" using below_psubset [OF ac d] by (rule psubset_card_mono)
    then show "card (below rq d) < k" using Suc.prems(3) by simp
  qed
  show ?case
  proof (cases "fs (stampfile c tn taskfn)")
    case (Some t1)
    have ver: "\<exists>v. dep_stamp_of c fs t1 fn d = Inr v" if "d \<in> set (depends e)" for d
      by (rule dep_stamp_of_Inr)
        (use that depends_entry [OF e] cl wf in \<open>unfold closed_queue_def tids_wf_def, blast\<close>)
    obtain b ch' where "stamp_loop (\<lambda>d. check_stamp_fuel k c fs rq d None True) (dep_stamp_of c fs t1 fn) True
          (depends e) ch = Inr (b, ch')" "cache_sound c fs rq ch'"
      "b = (\<forall>d \<in> deps_set rq t. dep_stamp_of c fs t1 fn d = Inr DepIgnored \<or>
            dep_stamp_of c fs t1 fn d = Inr DepFollow \<and> stamp_current c fs rq d)"
      using stamp_loop_ok [where ds = "depends e" and rec = "\<lambda>d. check_stamp_fuel k c fs rq d None True" and
          verdict = "dep_stamp_of c fs t1 fn", OF rec ver Suc.prems(2)]
      unfolding depends_entry [OF e] by blast
    then show ?thesis using sp Some e cur Suc.prems(2) by (auto intro!: cache_sound_dset)
  qed (use sp cur Suc.prems(2) in auto)
qed simp

lemma check_stamp_task_current:
  assumes "acyclic (dep_rel rq)" "closed_queue rq" "tids_wf rq" "t \<in> set (dkeys rq)" "cache_sound c fs rq ch"
  shows "\<exists>b ch'. check_stamp_task c fs rq t None True ch = Inr (b, ch') \<and>
    b = stamp_current c fs rq t \<and> cache_sound c fs rq ch'"
proof -
  have "card (below rq t) \<le> card (set (dkeys rq))"
    using below_keys [OF assms(2), of t] by (intro card_mono) auto
  also have "\<dots> \<le> length rq" using card_length [of "dkeys rq"] by simp
  finally show ?thesis unfolding check_stamp_task_def
    using check_stamp_fuel_ok [OF assms(1-3) assms(4,5), of "Suc (length rq)"] by simp
qed

text \<open>Asked without following dependencies, it looks at the stamps of the direct ones only.\<close>

lemma stamp_loop_direct:
  assumes "\<And>d. d \<in> set ds \<Longrightarrow> \<exists>v. verdict d = Inr v"
  shows "stamp_loop rec verdict False ds ch = Inr (\<forall>d \<in> set ds. verdict d \<noteq> Inr DepNewer, ch)"
  using assms
proof (induction ds)
  case (Cons d ds)
  then obtain v where "verdict d = Inr v" by auto
  with Cons show ?case by (cases v) auto
qed simp


definition conf0 :: conf where
  "conf0 = \<lparr>scene_tids = [], targets = [], task_data = [],
     taskdep = (\<lambda>_ _. \<lparr>tasks = [], parents = [], flags = []\<rparr>), recipe = (\<lambda>_ f. f),
     provided_by = (\<lambda>_ _. []), hashfn = (\<lambda>_ f. f), stampfile = (\<lambda>t f. f @ ''.'' @ t), short_stamp = (\<lambda>t f. f @ ''.'' @ t),
     clean_mask = (\<lambda>_ _ _. False), number_tasks = 2, thread_limit = (\<lambda>_. None), opt_force = False,
     opt_skipsetscene = False, opt_setsceneonly = False, opt_dry_run = False, halt_first = True,
     scene_enforce = False, ignore_tasks = None\<rparr>"

definition files0 :: files where
  "files0 = (\<lambda>f. if f = ''a.do_compile'' then Some 5 else if f = ''a.do_fetch'' then Some 7 else None)"


end
