(* ===== verification/ExecState.thy ===== *)
theory ExecState
  imports Stamps Schedulers
begin

text \<open>
  The state of \<open>RunQueueExecute\<close> (\<open>poky/bitbake/lib/bb/runqueue.py\<close>) and the operations on it that
  record how tasks end: the setscene side (\<open>scenequeue_updatecounters\<close>, the \<open>sq_task_\<close> methods,
  \<open>check_setscene_stamps\<close>, \<open>update_scenequeue_data\<close>) and the side of the real tasks
  (\<open>setbuildable\<close>, \<open>task_completeoutright\<close>, the \<open>task_\<close> methods, \<open>runqueue_process_waitpid\<close>).
  An operation returns \<open>Inl\<close> for a Python exception, and the state at that point.  Events sent to
  the user interface and log messages are not modelled.
\<close>

section \<open>The state\<close>

datatype rq_phase = RqPrepare | RqSceneInit | RqRunning | RqFailed | RqCleanUp | RqComplete

text \<open>\<open>SQData\<close>: the graph of the setscene tasks and what is known of them.\<close>

record sq_data =
  sq_deps :: "(string \<times> string list) list"
  sq_revdeps :: "(string \<times> string list) list"
  sq_harddeps :: "(string \<times> string list) list"
  sq_harddeps_rev :: "(string \<times> string list) list"
  sq_stamps :: "(string \<times> string) list"
  unskippable :: "string list"
  outrightfail :: "string list"
  sq_covered_tasks :: "(string \<times> string list) list"
  cantskip :: "string list"
  multiconfigs :: "string list"
  sq_noexec :: "string list"
  stamppresent :: "string list"
  sq_valid :: "string list"
  sq_hashes :: "(string \<times> string) list"

text \<open>
  \<open>RunQueueExecute\<close>, with the phase of the \<open>RunQueue\<close> it belongs to, the entries of the run queue
  data, the stamp directory, and the position of its endless iterator over the setscene tasks.
\<close>

record exec =
  rq_state :: rq_phase
  x_rq :: runq
  runq_buildable :: "string list"
  runq_running :: "string list"
  runq_complete :: "string list"
  runq_tasksrun :: "string list"
  failed_tids :: "string list"
  build_stamps :: "(string \<times> string) list"
  build_stamps2 :: "string list"
  sched :: scheduler
  stats :: rq_stats
  sq_buildable :: "string list"
  sq_running :: "string list"
  sq_live :: "string list"
  sq_deferred :: "(string \<times> string) list"
  sq_needed_harddeps :: "string list"
  sq_harddep_deferred :: "string list"
  stampcache :: stamp_cache
  holdoff_tasks :: "string list"
  holdoff_need_update :: bool
  sqdone :: bool
  scenequeue_covered :: "string list"
  scenequeue_notcovered :: "string list"
  scenequeue_notneeded :: "string list"
  tasks_covered :: "string list"
  tasks_notcovered :: "string list"
  tasks_scenequeue_done :: "string list"
  updated_taskhash_queue :: "(string \<times> string) list"
  pending_migrations :: "string list"
  sqd :: sq_data
  scene_pos :: nat
  stamp_files :: files

text \<open>
  What the world answers during one call: the clock, the function named by
  \<open>BB_HASHCHECK_FUNCTION\<close> (given id, task hash, hash file name and unified hash of each task, it
  returns the available ones), the one named by \<open>BB_SETSCENE_DEPVALID\<close>, the pressure, whether a
  worker for fakeroot tasks can be started, and the hashes the signature generator computes.
\<close>

record world =
  now :: nat
  hashvalidate :: "((string \<times> string option \<times> string \<times> string option) list \<Rightarrow> string list) option"
  depvalidate :: "(string \<Rightarrow> (string \<times> string \<times> string \<times> string) list \<Rightarrow> string list \<Rightarrow> bool) option"
  pressure :: bool
  fakeworker_up :: "string \<Rightarrow> bool"
  fakeworker_starts :: bool
  new_taskhash :: "string \<Rightarrow> string"
  new_unihash :: "string \<Rightarrow> string"

abbreviation remove_from :: "'a \<Rightarrow> 'a list \<Rightarrow> 'a list" where
  "remove_from \<equiv> removeAll"

section \<open>Stamps of a task\<close>

definition stamp_check :: "conf \<Rightarrow> string \<Rightarrow> string \<Rightarrow> bool \<Rightarrow> exec \<Rightarrow> bool result \<times> exec" where
  "stamp_check c tid taskname recurse s =
     (case check_stamp_task c (stamp_files s) (x_rq s) tid (Some taskname) recurse (stampcache s) of
        Inl e \<Rightarrow> (Inl e, s)
      | Inr (b, ch) \<Rightarrow> (Inr b, s\<lparr>stampcache := ch\<rparr>))"

text \<open>The pair \<open>noexec\<close>, \<open>stamppresent\<close>.\<close>

definition check_setscene_stamps :: "conf \<Rightarrow> world \<Rightarrow> string \<Rightarrow> exec \<Rightarrow> (bool \<times> bool) result \<times> exec" where
  "check_setscene_stamps c w tid s =
     (case split_tid_mcfn tid of
        None \<Rightarrow> (Inl ValueError, s)
      | Some (mc, fn, taskname, taskfn) \<Rightarrow>
          if flagged c ''noexec'' mc taskfn taskname
          then (Inr (True, False),
                s\<lparr>stamp_files := make_stamp_mcfn c (now w) (taskname @ ''_setscene'') taskfn (stamp_files s)\<rparr>)
          else bind_st (stamp_check c tid (taskname @ ''_setscene'') False s) (\<lambda>b s1.
                 if b then (Inr (False, True), s1)
                 else bind_st (stamp_check c tid taskname True s1) (\<lambda>b s2. (Inr (False, b), s2))))"

section \<open>Tasks that the setscene tasks settle\<close>

text \<open>
  From a settled setscene task down the dependencies: a task that is not a setscene task is settled
  when all tasks that depend on it are.  The pair holds the settled tasks and the next round's.
\<close>

definition down_dep ::
  "conf \<Rightarrow> runq \<Rightarrow> string \<Rightarrow> string list \<times> string list \<Rightarrow> unit result \<times> string list \<times> string list"
where
  "down_dep c rq dep p =
     (case p of (dn, nw) \<Rightarrow>
        if dep \<in> set (scene_tids c) \<or> dep \<in> set dn then (Inr (), dn, nw)
        else with_key rq dep (dn, nw) (\<lambda>e.
               (Inr (), dn, if set (revdeps e) \<subseteq> set dn then append_new dep nw else nw)))"

definition down_task ::
  "conf \<Rightarrow> runq \<Rightarrow> string \<Rightarrow> string list \<times> string list \<Rightarrow> unit result \<times> string list \<times> string list"
where
  "down_task c rq t p =
     (case p of (dn, nw) \<Rightarrow>
        with_key rq t (append_new t dn, nw) (\<lambda>e.
          foreach (down_dep c rq) (depends e) (append_new t dn, nw)))"

definition down_round ::
  "conf \<Rightarrow> runq \<Rightarrow> string list \<Rightarrow> string list \<Rightarrow> unit result \<times> string list \<times> string list"
where
  "down_round c rq nxt dn = foreach (down_task c rq) (sort nxt) (dn, [])"

definition all_depends :: "runq \<Rightarrow> string set" where
  "all_depends rq = (\<Union>(t, e) \<in> set rq. set (depends e))"

lemma all_depends_entry: "dget rq t = Some e \<Longrightarrow> set (depends e) \<subseteq> all_depends rq"
  by (auto simp: all_depends_def dest!: map_of_SomeD)

lemma finite_all_depends [simp]: "finite (all_depends rq)"
  by (auto simp: all_depends_def)

definition down_inv :: "runq \<Rightarrow> string set \<Rightarrow> string set \<Rightarrow> string list \<times> string list \<Rightarrow> bool" where
  "down_inv rq D N p \<longleftrightarrow> D \<subseteq> set (fst p) \<and> set (fst p) \<subseteq> D \<union> N \<and> set (snd p) \<subseteq> all_depends rq - D"

lemma down_dep_inv:
  "dep \<in> all_depends rq \<Longrightarrow> down_inv rq D N p \<Longrightarrow> down_inv rq D N (snd (down_dep c rq dep p))"
  by (auto simp: down_dep_def down_inv_def with_key_def split: prod.splits option.splits)

lemma down_dep_fst: "fst (snd (down_dep c rq dep p)) = fst p"
  by (auto simp: down_dep_def with_key_def split: prod.splits option.splits)

lemma down_task_inv:
  assumes "t \<in> N" "down_inv rq D N p"
  shows "down_inv rq D N (snd (down_task c rq t p))"
proof -
  obtain dn nw where p: "p = (dn, nw)" by fastforce
  have t: "down_inv rq D N (append_new t dn, nw)" using assms p by (auto simp: down_inv_def)
  have "down_inv rq D N (snd (foreach (down_dep c rq) (depends e) (append_new t dn, nw)))"
    if "dget rq t = Some e" for e
    by (rule foreach_inv [where I = "down_inv rq D N", OF t])
      (use all_depends_entry [OF that] in \<open>auto intro: down_dep_inv\<close>)
  with t show ?thesis by (simp add: down_task_def p with_key_def split: option.split)
qed

lemma down_task_done:
  assumes "down_task c rq t p = (Inr (), q)"
  shows "t \<in> set (fst q)" "set (fst p) \<subseteq> set (fst q)"
proof -
  obtain dn nw where p: "p = (dn, nw)" by fastforce
  obtain e where "dget rq t = Some e"
    using assms by (auto simp: down_task_def p with_key_def split: option.splits)
  with assms have q: "q = snd (foreach (down_dep c rq) (depends e) (append_new t dn, nw))"
    by (simp add: down_task_def p)
  have "fst q = append_new t dn" unfolding q
    by (rule foreach_inv [where I = "\<lambda>q. fst q = append_new t dn"]) (simp_all add: down_dep_fst)
  then show "t \<in> set (fst q)" "set (fst p) \<subseteq> set (fst q)" by (auto simp: p)
qed

lemma down_task_grows: "set (fst p) \<subseteq> set (fst (snd (down_task c rq t p)))"
proof -
  obtain dn nw where p: "p = (dn, nw)" by fastforce
  have "fst (snd (foreach (down_dep c rq) ds (append_new t dn, nw))) = append_new t dn" for ds
    by (rule foreach_inv [where I = "\<lambda>q. fst q = append_new t dn"]) (simp_all add: down_dep_fst)
  then show ?thesis by (auto simp: p down_task_def with_key_def split: option.splits)
qed

lemma down_round_result:
  assumes "down_round c rq nxt dn = (r, dn', nw)"
  shows "set dn \<subseteq> set dn'" "set dn' \<subseteq> set dn \<union> set nxt" "set nw \<subseteq> all_depends rq - set dn"
    and "r = Inr () \<Longrightarrow> set dn' = set dn \<union> set nxt"
proof -
  have inv: "down_inv rq (set dn) (set nxt) (snd (down_round c rq nxt dn))" unfolding down_round_def
  proof (rule foreach_inv)
    show "down_inv rq (set dn) (set nxt) (dn, [])" by (simp add: down_inv_def)
  qed (auto intro: down_task_inv)
  then show sub: "set dn \<subseteq> set dn'" "set dn' \<subseteq> set dn \<union> set nxt" "set nw \<subseteq> all_depends rq - set dn"
    using assms by (auto simp: down_inv_def)
  show "set dn' = set dn \<union> set nxt" if "r = Inr ()"
  proof -
    have "t \<in> set (fst (dn', nw))" if t: "t \<in> set nxt" for t
    proof (rule foreach_post [where P = "\<lambda>q. t \<in> set (fst q)"])
      show "foreach (down_task c rq) (sort nxt) (dn, []) = (Inr (), dn', nw)"
        using assms \<open>r = Inr ()\<close> by (simp add: down_round_def)
    qed (use t down_task_done(1) down_task_grows in \<open>auto simp: subset_iff\<close>)
    then show ?thesis using sub by auto
  qed
qed

text \<open>
  The loops that walk the graph in waves: a round puts the wave \<open>nxt\<close> into the set \<open>D\<close> and finds a
  next wave outside what \<open>D\<close> was.  Every second round at the latest \<open>D\<close> grows, so they end on every graph.
\<close>

definition wave_measure :: "'a set \<Rightarrow> 'a list \<Rightarrow> 'a set \<Rightarrow> nat" where
  "wave_measure U nxt D = 2 * card ((set nxt \<union> U) - D) + (if nxt \<noteq> [] \<and> set nxt \<subseteq> D then 1 else 0)"

lemma wave_measure_less:
  assumes "finite U" "nxt \<noteq> []" "D' = D \<union> set nxt" "set nw \<subseteq> U - D"
  shows "wave_measure U nw D' < wave_measure U nxt D"
proof -
  let ?X = "set nxt \<union> U" and ?X' = "set nw \<union> U"
  have sub: "?X' - D' \<subseteq> ?X - D" using assms(3,4) by auto
  show ?thesis
  proof (cases "set nxt \<subseteq> D")
    case True
    then have "D' = D" using assms(3) by auto
    then have "\<not> (nw \<noteq> [] \<and> set nw \<subseteq> D')" using assms(4) by (cases nw) auto
    moreover have "card (?X' - D') \<le> card (?X - D)" using sub assms(1) by (intro card_mono) auto
    ultimately show ?thesis using True assms(2) unfolding wave_measure_def by (auto simp del: Un_Diff)
  next
    case False
    then have "?X' - D' \<subset> ?X - D" using sub assms(3) by blast
    then have "card (?X' - D') < card (?X - D)" using assms(1) by (intro psubset_card_mono) auto
    then show ?thesis using False by (simp add: wave_measure_def)
  qed
qed

text \<open>The rounds that go through the wave task by task.\<close>

locale wave =
  fixes step :: "'k \<Rightarrow> 'd \<times> 'k list \<Rightarrow> unit result \<times> 'd \<times> 'k list" and keys :: "'d \<Rightarrow> 'k set" and U :: "'k set"
  assumes step: "step t p = (Inr (), q) \<Longrightarrow>
      keys (fst q) = insert t (keys (fst p)) \<and> set (snd q) \<subseteq> set (snd p) \<union> (U - keys (fst p))"
    and finite_U: "finite U"
begin

lemma loop:
  "foreach step nxt p = (Inr (), q) \<Longrightarrow>
     keys (fst q) = keys (fst p) \<union> set nxt \<and> set (snd q) \<subseteq> set (snd p) \<union> (U - keys (fst p))"
proof (induction nxt arbitrary: p)
  case (Cons t nxt)
  obtain p1 where one: "step t p = (Inr (), p1)" and rest: "foreach step nxt p1 = (Inr (), q)"
    using Cons.prems by (auto split: prod.splits sum.splits)
  show ?case using Cons.IH [OF rest] step [OF one] by auto
qed auto

lemma less:
  "nxt \<noteq> [] \<Longrightarrow> foreach step nxt (d, []) = (Inr (), d', nw) \<Longrightarrow>
     wave_measure U nw (keys d') < wave_measure U nxt (keys d)"
  using loop [of nxt "(d, [])" "(d', nw)"] by (intro wave_measure_less finite_U) auto

end

lemma down_round_less:
  assumes "nxt \<noteq> []" "down_round c rq nxt dn = (Inr (), dn', nw)"
  shows "wave_measure (all_depends rq) nw (set dn') < wave_measure (all_depends rq) nxt (set dn)"
  using down_round_result(3,4) [OF assms(2)] by (intro wave_measure_less assms(1)) auto

function mark_down :: "conf \<Rightarrow> runq \<Rightarrow> string list \<Rightarrow> string list \<Rightarrow> unit result \<times> string list" where
  "mark_down c rq nxt dn =
     (if nxt = [] then (Inr (), dn)
      else (case down_round c rq nxt dn of
              (Inl e, dn1, nw) \<Rightarrow> (Inl e, dn1)
            | (Inr _, dn1, nw) \<Rightarrow> mark_down c rq nw dn1))"
  by pat_completeness auto
termination
  by (relation "measure (\<lambda>(c, rq, nxt, dn). wave_measure (all_depends rq) nxt (set dn))")
    (auto intro: down_round_less)

declare mark_down.simps [simp del]

text \<open>
  The second half of \<open>scenequeue_updatecounters\<close>: setscene tasks that no unsettled one depends on
  become buildable, real tasks are settled down the dependencies, and tasks that waited for a hard
  dependency are released.
\<close>

definition settled_scene :: "exec \<Rightarrow> string set" where
  "settled_scene s = set (scenequeue_covered s) \<union> set (scenequeue_notcovered s)"

definition unlock_scene :: "string \<Rightarrow> exec \<Rightarrow> unit result \<times> exec" where
  "unlock_scene task s =
     with_key (sq_deps (sqd s)) task s (\<lambda>ds.
       foreach (\<lambda>dep s. with_key (sq_revdeps (sqd s)) dep s (\<lambda>rd.
                  (Inr (), if set rd \<subseteq> settled_scene s
                           then s\<lparr>sq_buildable := append_new dep (sq_buildable s)\<rparr> else s)))
         (sort ds) s)"

definition settle_below :: "conf \<Rightarrow> string \<Rightarrow> exec \<Rightarrow> unit result \<times> exec" where
  "settle_below c task s =
     (case mark_down c (x_rq s) [task] (tasks_scenequeue_done s) of
        (r, dn) \<Rightarrow> (r, s\<lparr>tasks_scenequeue_done := dn\<rparr>))"

definition release_hard :: "string \<Rightarrow> exec \<Rightarrow> unit result \<times> exec" where
  "release_hard task s =
     (if task \<in> set (dkeys (sq_harddeps (sqd s)))
      then foreach (\<lambda>dep s. with_key (sq_harddeps_rev (sqd s)) dep s (\<lambda>rv.
                      (Inr (), if set rv \<subseteq> settled_scene s
                               then s\<lparr>sq_harddep_deferred := remove_from dep (sq_harddep_deferred s)\<rparr> else s)))
             (sq_harddep_deferred s) s
      else (Inr (), s))"

definition count_covered :: "exec \<Rightarrow> exec" where
  "count_covered s =
     s\<lparr>stats := updateCovered (int (length (scenequeue_covered s))) (int (length (scenequeue_notcovered s))) (stats s)\<rparr>"

definition counters_rest :: "conf \<Rightarrow> string \<Rightarrow> exec \<Rightarrow> unit result \<times> exec" where
  "counters_rest c task s =
     seq_st (unlock_scene task s) (\<lambda>s1.
     seq_st (settle_below c task s1) (\<lambda>s2.
     seq_st (release_hard task s2) (\<lambda>s3.
       (Inr (), (count_covered s3)\<lparr>holdoff_need_update := True\<rparr>))))"

section \<open>What the setscene side leaves alone\<close>

definition run_part where
  "run_part s =
     ((x_rq s, runq_buildable s, runq_running s, runq_complete s, runq_tasksrun s, failed_tids s, sched s),
      (build_stamps s, build_stamps2 s, updated_taskhash_queue s, pending_migrations s),
      (completed (stats s), skipped (stats s), failed (stats s), active (stats s), total (stats s)))"

definition graph_part where
  "graph_part d = (sq_deps d, sq_revdeps d, sq_harddeps d, sq_harddeps_rev d, sq_covered_tasks d,
     unskippable d, cantskip d)"

definition scene_part where
  "scene_part s = (rq_state s, sq_live s, tasks_covered s, tasks_notcovered s, holdoff_tasks s, sqdone s,
     scene_pos s, graph_part (sqd s))"

definition grown where
  "grown s t \<longleftrightarrow> set (scenequeue_covered s) \<subseteq> set (scenequeue_covered t) \<and>
     set (scenequeue_notcovered s) \<subseteq> set (scenequeue_notcovered t) \<and>
     set (sq_running s) \<subseteq> set (sq_running t) \<and> set (sq_buildable s) \<subseteq> set (sq_buildable t) \<and>
     set (tasks_scenequeue_done s) \<subseteq> set (tasks_scenequeue_done t)"

definition scene_step :: "exec \<Rightarrow> exec \<Rightarrow> bool" where
  "scene_step s t \<longleftrightarrow> run_part t = run_part s \<and> scene_part t = scene_part s \<and> grown s t"

lemmas scene_step_defs = scene_step_def run_part_def scene_part_def graph_part_def grown_def

lemma scene_step_refl [simp]: "scene_step s s"
  by (simp add: scene_step_def grown_def)

lemma scene_step_trans: "scene_step a b \<Longrightarrow> scene_step b d \<Longrightarrow> scene_step a d"
  by (auto simp: scene_step_def grown_def)

interpretation scene: frame scene_step
  by unfold_locales (simp, erule (1) scene_step_trans)

lemma scene_step_upd [simp]:
  "scene_step s (s\<lparr>stamp_files := fs\<rparr>)" "scene_step s (s\<lparr>stampcache := ch\<rparr>)"
  "scene_step s (s\<lparr>sq_harddep_deferred := ds\<rparr>)" "scene_step s (s\<lparr>holdoff_need_update := b\<rparr>)"
  "scene_step s (s\<lparr>sq_buildable := append_new t (sq_buildable s)\<rparr>)"
  "scene_step s (count_covered s)"
  "set (tasks_scenequeue_done s) \<subseteq> set dn \<Longrightarrow> scene_step s (s\<lparr>tasks_scenequeue_done := dn\<rparr>)"
  by (simp_all add: scene_step_defs count_covered_def updateCovered_def) auto

lemma mark_down_grows: "set dn \<subseteq> set (snd (mark_down c rq nxt dn))"
proof (induction c rq nxt dn rule: mark_down.induct)
  case (1 c rq nxt dn)
  show ?case
  proof (cases "nxt = []")
    case False
    obtain r dn1 nw where r: "down_round c rq nxt dn = (r, dn1, nw)" by (cases "down_round c rq nxt dn") auto
    then have sub: "set dn \<subseteq> set dn1" by (rule down_round_result)
    show ?thesis
    proof (cases r)
      case (Inr u)
      then have "set dn1 \<subseteq> set (snd (mark_down c rq nw dn1))" using 1 [OF False] r by simp
      then show ?thesis using Inr False r sub by (auto simp: mark_down.simps [of c rq nxt])
    qed (use False r sub in \<open>simp add: mark_down.simps [of c rq nxt]\<close>)
  qed (simp add: mark_down.simps)
qed

lemma stamp_check_step [simp]: "scene_step s (snd (stamp_check c tid n b s))"
  by (simp add: stamp_check_def split: sum.splits prod.splits)

lemma check_setscene_stamps_step [simp]: "scene_step s (snd (check_setscene_stamps c w tid s))"
  by (auto simp: check_setscene_stamps_def split: option.splits intro!: scene.rules)

lemma unlock_scene_step [simp]: "scene_step s (snd (unlock_scene task s))"
  unfolding unlock_scene_def by (intro scene.rules) simp

lemma settle_below_step [simp]: "scene_step s (snd (settle_below c task s))"
  using mark_down_grows [of "tasks_scenequeue_done s" c "x_rq s" "[task]"]
  by (auto simp: settle_below_def split: prod.splits)

lemma release_hard_step [simp]: "scene_step s (snd (release_hard task s))"
  unfolding release_hard_def by (intro scene.rules) simp_all

lemma counters_rest_step [simp]: "scene_step s (snd (counters_rest c task s))"
  unfolding counters_rest_def
  by (intro scene.rules) (simp_all add: scene_step_trans [OF _ scene_step_upd(4)])

section \<open>Setscene tasks that end\<close>

definition mark_failed :: "string \<Rightarrow> exec \<Rightarrow> exec" where
  "mark_failed t s =
     s\<lparr>sq_running := append_new t (sq_running s), sq_buildable := append_new t (sq_buildable s),
       scenequeue_notcovered := append_new t (scenequeue_notcovered s)\<rparr>"

definition hard_dependents :: "string \<Rightarrow> exec \<Rightarrow> string list" where
  "hard_dependents t s = sort (dget_or (sq_harddeps (sqd s)) t [])"

text \<open>
  The loop of \<open>scenequeue_updatecounters\<close> for a task that failed: what hard-depends on it fails too,
  by a call of \<open>sq_task_failoutright\<close>, which comes back to this loop.
\<close>

function fail_hard :: "conf \<Rightarrow> world \<Rightarrow> string list \<Rightarrow> exec \<Rightarrow> unit result \<times> exec" where
  "fail_hard c w [] s = (Inr (), s)"
| "fail_hard c w (dep # ds) s =
     (if dep \<in> settled_scene s then fail_hard c w ds s
      else (case check_setscene_stamps c w dep s of
              (Inl e, s1) \<Rightarrow> (Inl e, s1)
            | (Inr (noexec, present), s1) \<Rightarrow>
                if noexec \<or> present then fail_hard c w ds s1
                else (case fail_hard c w (hard_dependents dep s1) (mark_failed dep s1) of
                        (Inl e, s2) \<Rightarrow> (Inl e, s2)
                      | (Inr _, s2) \<Rightarrow>
                          (case counters_rest c dep s2 of
                             (Inl e, s3) \<Rightarrow> (Inl e, s3)
                           | (Inr _, s3) \<Rightarrow> fail_hard c w ds s3))))"
  by pat_completeness auto

lemma mark_failed_step [simp]: "scene_step s (mark_failed t s)"
  by (auto simp: mark_failed_def scene_step_defs)

lemma fail_hard_dom_step: "fail_hard_dom (c, w, ds, s) \<Longrightarrow> scene_step s (snd (fail_hard c w ds s))"
proof (induction c w ds s rule: fail_hard.pinduct)
  case (2 c w dep ds s)
  note ps = fail_hard.psimps(2) [OF "2.hyps"]
  show ?case
  proof (cases "dep \<in> settled_scene s")
    case True
    with 2 ps show ?thesis by simp
  next
    case False
    obtain r s1 where r: "check_setscene_stamps c w dep s = (r, s1)" by fastforce
    then have s1: "scene_step s s1" using check_setscene_stamps_step [of s c w dep] by simp
    show ?thesis
    proof (cases r)
      case (Inl e)
      with r s1 False ps show ?thesis by simp
    next
      case (Inr np)
      obtain noexec present where np: "np = (noexec, present)" by fastforce
      note IH = "2.IH"(2-4) [OF False r [symmetric] Inr np [symmetric]]
      show ?thesis
      proof (cases "noexec \<or> present")
        case True
        with IH(1) r Inr np s1 False ps show ?thesis by (auto intro: scene_step_trans)
      next
        case no: False
        obtain q s2 where q: "fail_hard c w (hard_dependents dep s1) (mark_failed dep s1) = (q, s2)" by fastforce
        have s2: "scene_step s s2"
          using IH(2) [OF no] q s1 scene_step_trans mark_failed_step by (metis snd_conv)
        show ?thesis
        proof (cases q)
          case (Inl e)
          with q s2 r Inr np False no ps show ?thesis by simp
        next
          case q': (Inr u)
          obtain v s3 where v: "counters_rest c dep s2 = (v, s3)" by fastforce
          have s3: "scene_step s s3"
            using counters_rest_step [of s2 c dep] v s2 scene_step_trans by (metis snd_conv)
          show ?thesis
          proof (cases v)
            case (Inl e)
            with v s3 q q' r Inr np False no ps show ?thesis by simp
          next
            case v': (Inr u')
            have "scene_step s3 (snd (fail_hard c w ds s3))"
              using IH(3) [OF no q [symmetric] q' v [symmetric] v'] .
            with v v' s3 q q' r Inr np False no ps show ?thesis by (auto intro: scene_step_trans)
          qed
        qed
      qed
    qed
  qed
qed (simp add: fail_hard.psimps)

text \<open>
  Each call fails a task that was not settled, so there are no more nested calls than tasks.
\<close>

definition unfailed :: "string list \<Rightarrow> exec \<Rightarrow> string set" where
  "unfailed ds s = (set ds \<union> (\<Union>(t, xs) \<in> set (sq_harddeps (sqd s)). set xs)) - set (scenequeue_notcovered s)"

lemma finite_unfailed [simp]: "finite (unfailed ds s)"
  by (auto simp: unfailed_def)

lemma unfailed_step: "scene_step s t \<Longrightarrow> unfailed ds t \<subseteq> unfailed ds s"
  by (auto simp: unfailed_def scene_step_defs)

lemma unfailed_fails:
  assumes "dep \<notin> settled_scene s" "scene_step s s1"
  shows "unfailed (hard_dependents dep s1) (mark_failed dep s1) \<subset> unfailed (dep # ds) s"
    and "scene_step (mark_failed dep s1) t \<Longrightarrow> unfailed ds t \<subset> unfailed (dep # ds) s"
proof -
  have dep: "dep \<in> unfailed (dep # ds) s"
    using assms(1) by (simp add: unfailed_def settled_scene_def)
  have "set (hard_dependents dep s1) \<subseteq> (\<Union>(t, xs) \<in> set (sq_harddeps (sqd s1)). set xs)"
  proof (cases "dget (sq_harddeps (sqd s1)) dep")
    case (Some xs)
    then show ?thesis using map_of_SomeD [OF Some] by (auto simp: hard_dependents_def dget_or_def)
  qed (simp add: hard_dependents_def dget_or_def)
  then have "unfailed (hard_dependents dep s1) (mark_failed dep s1) \<subseteq> unfailed (dep # ds) s - {dep}"
    using assms(2) by (auto simp: unfailed_def mark_failed_def scene_step_defs)
  with dep show "unfailed (hard_dependents dep s1) (mark_failed dep s1) \<subset> unfailed (dep # ds) s" by blast
  assume "scene_step (mark_failed dep s1) t"
  then have "unfailed ds t \<subseteq> unfailed (dep # ds) s - {dep}"
    using assms(2) by (auto simp: unfailed_def mark_failed_def scene_step_defs)
  with dep show "unfailed ds t \<subset> unfailed (dep # ds) s" by blast
qed

lemma fail_hard_total: "All fail_hard_dom"
proof (relation "measures [\<lambda>(c, w, ds, s). card (unfailed ds s), \<lambda>(c, w, ds, s). length ds]", goal_cases)
  case 1
  show ?case by simp
next
  case (2 c w dep ds s)
  have "card (unfailed ds s) \<le> card (unfailed (dep # ds) s)" by (rule card_mono) (auto simp: unfailed_def)
  then show ?case by auto
next
  case (3 c w dep ds s x s1 y noexec present)
  then have "scene_step s s1" using check_setscene_stamps_step [of s c w dep] by (metis snd_conv)
  then have "unfailed ds s1 \<subseteq> unfailed (dep # ds) s"
    using unfailed_step [of s s1 ds] by (auto simp: unfailed_def)
  then have "card (unfailed ds s1) \<le> card (unfailed (dep # ds) s)" by (intro card_mono) auto
  then show ?case by auto
next
  case (4 c w dep ds s x s1 y noexec present)
  then have "scene_step s s1" using check_setscene_stamps_step [of s c w dep] by (metis snd_conv)
  then have "card (unfailed (hard_dependents dep s1) (mark_failed dep s1)) < card (unfailed (dep # ds) s)"
    using 4 by (intro psubset_card_mono unfailed_fails) auto
  then show ?case by auto
next
  case (5 c w dep ds s x s1 y noexec present q s2 u v s3 u')
  then have "scene_step s s1" using check_setscene_stamps_step [of s c w dep] by (metis snd_conv)
  moreover have "scene_step (mark_failed dep s1) s2"
    using fail_hard_dom_step [of c w "hard_dependents dep s1" "mark_failed dep s1"] 5 by (metis snd_conv)
  moreover have "scene_step s2 s3" using counters_rest_step [of s2 c dep] 5 by (metis snd_conv)
  ultimately have "unfailed ds s3 \<subset> unfailed (dep # ds) s"
    using 5 unfailed_fails(2) [of dep s s1 s3 ds] scene_step_trans by blast
  then have "card (unfailed ds s3) < card (unfailed (dep # ds) s)" by (intro psubset_card_mono) auto
  then show ?case by auto
qed

termination fail_hard
  using fail_hard_total by blast

lemma fail_hard_step [simp]: "scene_step s (snd (fail_hard c w ds s))"
  using fail_hard_total by (intro fail_hard_dom_step) blast

declare fail_hard.simps [simp del]

definition scenequeue_updatecounters :: "conf \<Rightarrow> world \<Rightarrow> string \<Rightarrow> bool \<Rightarrow> exec \<Rightarrow> unit result \<times> exec" where
  "scenequeue_updatecounters c w task fail s =
     seq_st (if fail then fail_hard c w (hard_dependents task s) s else (Inr (), s)) (counters_rest c task)"

definition sq_task_completeoutright :: "conf \<Rightarrow> world \<Rightarrow> string \<Rightarrow> exec \<Rightarrow> unit result \<times> exec" where
  "sq_task_completeoutright c w task s =
     scenequeue_updatecounters c w task False
       (s\<lparr>scenequeue_covered := append_new task (scenequeue_covered s)\<rparr>)"

definition sq_task_complete :: "conf \<Rightarrow> world \<Rightarrow> string \<Rightarrow> exec \<Rightarrow> unit result \<times> exec" where
  "sq_task_complete = sq_task_completeoutright"

text \<open>\<open>task.split('_setscene')[0]\<close>: what comes before the first occurrence.\<close>

fun before_sub :: "string \<Rightarrow> string \<Rightarrow> string" where
  "before_sub p [] = []"
| "before_sub p (x # xs) = (if startswith (x # xs) p then [] else x # before_sub p xs)"

definition sq_check_taskfail :: "conf \<Rightarrow> string \<Rightarrow> exec \<Rightarrow> unit result \<times> exec" where
  "sq_check_taskfail c task s =
     (case ignore_tasks c of
        None \<Rightarrow> (Inr (), s)
      | Some pats \<Rightarrow>
          (case split_tid_mcfn (before_sub ''_setscene'' task) of
             None \<Rightarrow> (Inl ValueError, s)
           | Some (mc, fn, taskname, taskfn) \<Rightarrow>
               (Inr (), if check_setscene_enforce_ignore_tasks (recipe c mc taskfn) taskname (ignore_tasks c)
                        then s else s\<lparr>rq_state := RqCleanUp\<rparr>)))"

definition sq_task_fail :: "conf \<Rightarrow> world \<Rightarrow> string \<Rightarrow> exec \<Rightarrow> unit result \<times> exec" where
  "sq_task_fail c w task s =
     seq_st (scenequeue_updatecounters c w task True
               (s\<lparr>scenequeue_notcovered := append_new task (scenequeue_notcovered s)\<rparr>))
       (sq_check_taskfail c task)"

definition sq_task_failoutright :: "conf \<Rightarrow> world \<Rightarrow> string \<Rightarrow> exec \<Rightarrow> unit result \<times> exec" where
  "sq_task_failoutright c w task s = scenequeue_updatecounters c w task True (mark_failed task s)"

definition sq_task_skip :: "conf \<Rightarrow> world \<Rightarrow> string \<Rightarrow> exec \<Rightarrow> unit result \<times> exec" where
  "sq_task_skip c w task s =
     sq_task_completeoutright c w task
       (s\<lparr>sq_running := append_new task (sq_running s), sq_buildable := append_new task (sq_buildable s)\<rparr>)"

section \<open>Which setscene tasks are available\<close>

definition hash_query ::
  "conf \<Rightarrow> runq \<Rightarrow> string \<Rightarrow> (string \<times> string option \<times> string \<times> string option) result"
where
  "hash_query c rq tid =
     (case (split_tid_mcfn tid, dget rq tid) of
        (None, _) \<Rightarrow> Inl ValueError
      | (_, None) \<Rightarrow> Inl KeyError
      | (Some (mc, fn, taskname, taskfn), Some e) \<Rightarrow> Inr (tid, hash e, hashfn c mc taskfn, unihash e))"

fun map_result :: "('a \<Rightarrow> 'b result) \<Rightarrow> 'a list \<Rightarrow> 'b list result" where
  "map_result f [] = Inr []"
| "map_result f (x # xs) = bind_res (f x) (\<lambda>y. bind_res (map_result f xs) (\<lambda>ys. Inr (y # ys)))"

definition validate_hashes :: "conf \<Rightarrow> world \<Rightarrow> string list \<Rightarrow> runq \<Rightarrow> string list result" where
  "validate_hashes c w tocheck rq =
     (case hashvalidate w of
        None \<Rightarrow> Inr []
      | Some f \<Rightarrow> bind_res (map_result (hash_query c rq) tocheck) (\<lambda>qs. Inr (f qs)))"

definition forget_scene :: "string \<Rightarrow> exec \<Rightarrow> exec" where
  "forget_scene tid s =
     s\<lparr>sqd := (sqd s)\<lparr>stamppresent := remove_from tid (stamppresent (sqd s)),
        sq_valid := remove_from tid (sq_valid (sqd s)),
        outrightfail := remove_from tid (outrightfail (sqd s))\<rparr>\<rparr>"

text \<open>The first loop of \<open>update_scenequeue_data\<close>; the result lists the tasks still to check.\<close>

fun check_scene_tids :: "conf \<Rightarrow> world \<Rightarrow> string list \<Rightarrow> exec \<Rightarrow> string list result \<times> exec" where
  "check_scene_tids c w [] s = (Inr [], s)"
| "check_scene_tids c w (tid # tids) s =
     bind_st (check_setscene_stamps c w tid (forget_scene tid s)) (\<lambda>(noexec, present) s1.
       if noexec then
         seq_st (sq_task_skip c w tid (s1\<lparr>sqd := (sqd s1)\<lparr>sq_noexec := append_new tid (sq_noexec (sqd s1))\<rparr>\<rparr>))
           (check_scene_tids c w tids)
       else if present then
         seq_st (sq_task_skip c w tid
                   (s1\<lparr>sqd := (sqd s1)\<lparr>stamppresent := append_new tid (stamppresent (sqd s1))\<rparr>\<rparr>))
           (check_scene_tids c w tids)
       else bind_st (check_scene_tids c w tids s1) (\<lambda>rest s2. (Inr (tid # rest), s2)))"

definition outright_fail :: "string \<Rightarrow> exec \<Rightarrow> exec" where
  "outright_fail tid s =
     (if tid \<in> set (stamppresent (sqd s)) \<or> tid \<in> set (sq_valid (sqd s)) \<or> tid \<in> set (sq_noexec (sqd s)) \<or>
         tid \<in> settled_scene s \<or> tid \<in> set (dkeys (sq_deferred s))
      then s else s\<lparr>sqd := (sqd s)\<lparr>outrightfail := append_new tid (outrightfail (sqd s))\<rparr>\<rparr>)"

definition update_scenequeue_data :: "conf \<Rightarrow> world \<Rightarrow> string list \<Rightarrow> exec \<Rightarrow> unit result \<times> exec" where
  "update_scenequeue_data c w tids s =
     bind_st (check_scene_tids c w (sort tids) s) (\<lambda>tocheck s1.
       case validate_hashes c w tocheck (x_rq s1) of
         Inl e \<Rightarrow> (Inl e, s1)
       | Inr valid \<Rightarrow>
           (Inr (), fold outright_fail tids
              (s1\<lparr>sqd := (sqd s1)\<lparr>sq_valid := sq_valid (sqd s1) @ filter (\<lambda>t. t \<notin> set (sq_valid (sqd s1))) (remdups valid)\<rparr>\<rparr>)))"

lemma graph_upd_step [simp]:
  "graph_part d = graph_part (sqd s) \<Longrightarrow> scene_step s (s\<lparr>sqd := d\<rparr>)"
  by (simp add: scene_step_defs)

lemma scene_counters_step [simp]: "scene_step s (snd (scenequeue_updatecounters c w t b s))"
  unfolding scenequeue_updatecounters_def by (intro scene.rules) simp_all

lemma sq_task_completeoutright_step [simp]: "scene_step s (snd (sq_task_completeoutright c w t s))"
  unfolding sq_task_completeoutright_def
  by (rule scene_step_trans [OF _ scene_counters_step]) (auto simp: scene_step_defs)

lemma sq_task_failoutright_step [simp]: "scene_step s (snd (sq_task_failoutright c w t s))"
  unfolding sq_task_failoutright_def by (rule scene_step_trans [OF mark_failed_step scene_counters_step])

lemma sq_task_skip_step [simp]: "scene_step s (snd (sq_task_skip c w t s))"
  unfolding sq_task_skip_def
  by (rule scene_step_trans [OF _ sq_task_completeoutright_step]) (auto simp: scene_step_defs)

lemma forget_scene_step [simp]: "scene_step s (forget_scene tid s)"
  by (simp add: forget_scene_def graph_part_def)

lemma scene_after [simp]: "scene_step a b \<Longrightarrow> scene_step a (snd (sq_task_skip c w t b))"
  by (rule scene_step_trans [OF _ sq_task_skip_step])

lemma check_scene_tids_step [simp]: "scene_step s (snd (check_scene_tids c w tids s))"
proof (induction tids arbitrary: s)
  case (Cons tid tids)
  have "scene_step s (snd (check_setscene_stamps c w tid (forget_scene tid s)))"
    by (rule scene_step_trans [OF forget_scene_step check_setscene_stamps_step])
  then show ?case using Cons.IH
    by (auto intro!: scene.rules simp: graph_part_def)
qed simp

lemma outright_fail_step [simp]: "scene_step s (outright_fail tid s)"
  by (simp add: outright_fail_def graph_part_def)

lemma fold_outright_fail_step [simp]: "scene_step s (fold outright_fail tids s)"
  by (induction tids arbitrary: s) (auto intro: scene_step_trans [OF outright_fail_step])

lemma update_scenequeue_data_step [simp]: "scene_step s (snd (update_scenequeue_data c w tids s))"
  unfolding update_scenequeue_data_def
  by (rule scene.bind) (auto split: sum.splits simp: graph_part_def intro!: scene_step_trans [OF _ fold_outright_fail_step])

section \<open>Real tasks that end\<close>

definition setbuildable :: "string \<Rightarrow> exec \<Rightarrow> exec" where
  "setbuildable task s =
     s\<lparr>runq_buildable := append_new task (runq_buildable s), sched := newbuildable task (sched s)\<rparr>"

definition wake_revdep :: "string \<Rightarrow> exec \<Rightarrow> unit result \<times> exec" where
  "wake_revdep revdep s =
     (if revdep \<in> set (runq_running s) \<or> revdep \<in> set (runq_buildable s) then (Inr (), s)
      else with_key (x_rq s) revdep s (\<lambda>e.
             (Inr (), if set (depends e) \<subseteq> set (runq_complete s) then setbuildable revdep s else s)))"

text \<open>
  The first deferred setscene task that waited for the completed one may run now, the others wait
  for that one.
\<close>

definition undefer ::
  "conf \<Rightarrow> world \<Rightarrow> string \<Rightarrow> string \<Rightarrow> string option \<times> exec \<Rightarrow> unit result \<times> string option \<times> exec"
where
  "undefer c w task t p =
     (case p of (found, s) \<Rightarrow>
        with_key (sq_deferred s) t p (\<lambda>blocker.
          if blocker \<noteq> task then (Inr (), p)
          else case found of
                 None \<Rightarrow>
                   (case update_scenequeue_data c w [t] (s\<lparr>sq_deferred := ddel t (sq_deferred s)\<rparr>) of
                      (Inl e, s1) \<Rightarrow> (Inl e, None, s1) | (Inr _, s1) \<Rightarrow> (Inr (), Some t, s1))
               | Some f \<Rightarrow> (Inr (), found, s\<lparr>sq_deferred := dset t f (sq_deferred s)\<rparr>)))"

definition undefer_all :: "conf \<Rightarrow> world \<Rightarrow> string \<Rightarrow> exec \<Rightarrow> unit result \<times> exec" where
  "undefer_all c w task s =
     (case foreach (undefer c w task) (sort (dkeys (sq_deferred s))) (None, s) of (r, _, t) \<Rightarrow> (r, t))"

definition task_completeoutright :: "conf \<Rightarrow> world \<Rightarrow> string \<Rightarrow> exec \<Rightarrow> unit result \<times> exec" where
  "task_completeoutright c w task s =
     (let s0 = s\<lparr>runq_complete := append_new task (runq_complete s)\<rparr>
      in with_key (x_rq s0) task s0 (\<lambda>e.
           seq_st (foreach wake_revdep (revdeps e) s0) (undefer_all c w task)))"

definition task_complete :: "conf \<Rightarrow> world \<Rightarrow> string \<Rightarrow> exec \<Rightarrow> unit result \<times> exec" where
  "task_complete c w task s =
     seq_st (task_completeoutright c w task (s\<lparr>stats := taskCompleted (stats s)\<rparr>))
       (\<lambda>s1. (Inr (), s1\<lparr>runq_tasksrun := append_new task (runq_tasksrun s1)\<rparr>))"

text \<open>
  The part of a fakeroot log shown with a failure: the lines after the last server start, last
  line first, nothing if none of them mentions an error.
\<close>

definition to_lower :: "char \<Rightarrow> char" where
  "to_lower x = (if 65 \<le> code x \<and> code x \<le> 90 then char_of (code x + 32) else x)"

fun fakeroot_scan :: "string list \<Rightarrow> bool \<times> string list \<Rightarrow> bool \<times> string list" where
  "fakeroot_scan [] p = p"
| "fakeroot_scan (l # ls) (bad, acc) =
     (let bad1 = (bad \<or> list_ex (\<lambda>wd. contains_sub wd (map to_lower l)) [''mismatch'', ''error'', ''fatal''])
      in if contains_sub ''doing new pid setup and server start'' l then (bad1, acc)
         else fakeroot_scan ls (bad1, acc @ [l]))"

definition fakeroot_log :: "string list \<Rightarrow> string" where
  "fakeroot_log lns = (case fakeroot_scan (rev lns) (False, []) of (bad, acc) \<Rightarrow> if bad then concat acc else [])"

definition task_fail :: "conf \<Rightarrow> string \<Rightarrow> exec \<Rightarrow> exec" where
  "task_fail c task s =
     (let s1 = s\<lparr>stats := taskFailed (stats s), failed_tids := failed_tids s @ [task]\<rparr>
      in if halt_first c then s1\<lparr>rq_state := RqCleanUp\<rparr> else s1)"

definition task_skip :: "conf \<Rightarrow> world \<Rightarrow> string \<Rightarrow> exec \<Rightarrow> unit result \<times> exec" where
  "task_skip c w task s =
     seq_st (task_completeoutright c w task
               (setbuildable task (s\<lparr>runq_running := append_new task (runq_running s)\<rparr>)))
       (\<lambda>s1. (Inr (), s1\<lparr>stats := taskCompleted (taskSkipped (stats s1))\<rparr>))"

section \<open>Messages from the workers\<close>

text \<open>The stamp of a task that ended is free again; a stamp missing from the list is a \<open>ValueError\<close>.\<close>

definition release_stamp :: "string \<Rightarrow> exec \<Rightarrow> unit result \<times> exec" where
  "release_stamp task s =
     (case dget (build_stamps s) task of
        None \<Rightarrow> (Inr (), s)
      | Some f \<Rightarrow> if f \<notin> set (build_stamps2 s) then (Inl ValueError, s)
                  else (Inr (), s\<lparr>build_stamps2 := remove_first f (build_stamps2 s),
                                 build_stamps := ddel task (build_stamps s)\<rparr>))"

definition count_live :: "exec \<Rightarrow> exec" where
  "count_live s = s\<lparr>stats := updateActiveSetscene (int (length (sq_live s))) (stats s)\<rparr>"

definition runqueue_process_waitpid :: "conf \<Rightarrow> world \<Rightarrow> string \<Rightarrow> int \<Rightarrow> exec \<Rightarrow> unit result \<times> exec" where
  "runqueue_process_waitpid c w task status s =
     seq_st (release_stamp task s) (\<lambda>s1.
       if task \<in> set (sq_live s1) then
         seq_st (if status \<noteq> 0 then sq_task_fail c w task s1 else sq_task_complete c w task s1)
           (\<lambda>s2. (Inr (), count_live (s2\<lparr>sq_live := remove_from task (sq_live s2)\<rparr>)))
       else if status \<noteq> 0 then (Inr (), task_fail c task s1)
       else task_complete c w task s1)"

text \<open>
  \<open>finish_now\<close> and \<open>finish\<close>; the workers' messages that \<open>finish\<close> reads when tasks are active are a
  later event.
\<close>

definition finish_now :: "exec \<Rightarrow> exec" where
  "finish_now s = s\<lparr>rq_state := (if failed_tids s \<noteq> [] then RqFailed else RqComplete)\<rparr>"

definition live_tasks :: "exec \<Rightarrow> int" where
  "live_tasks s = active (stats s) + int (length (sq_live s))"

definition can_start_task :: "conf \<Rightarrow> exec \<Rightarrow> bool" where
  "can_start_task c s \<longleftrightarrow> live_tasks s < number_tasks c"

datatype wmsg = ExitCode string int | UniHashUpdate string string | WorkerDied

definition process_msg :: "conf \<Rightarrow> world \<Rightarrow> wmsg \<Rightarrow> exec \<Rightarrow> unit result \<times> exec" where
  "process_msg c w m s =
     (case m of
        ExitCode task status \<Rightarrow>
          if split_tid_mcfn task = None then (Inl ValueError, s)
          else runqueue_process_waitpid c w task status s
      | UniHashUpdate tid uh \<Rightarrow> (Inr (), s\<lparr>updated_taskhash_queue := updated_taskhash_queue s @ [(tid, uh)]\<rparr>)
      | WorkerDied \<Rightarrow> (Inr (), finish_now s))"

definition read_workers :: "conf \<Rightarrow> world \<Rightarrow> wmsg list \<Rightarrow> exec \<Rightarrow> unit result \<times> exec" where
  "read_workers c w = foreach (process_msg c w)"

definition finish :: "conf \<Rightarrow> world \<Rightarrow> wmsg list \<Rightarrow> exec \<Rightarrow> unit result \<times> exec" where
  "finish c w msgs s =
     (let s1 = s\<lparr>rq_state := RqCleanUp\<rparr>
      in if 0 < live_tasks s1 then read_workers c w msgs s1
         else (Inr (), finish_now s1))"

end
