(* ===== verification/SceneQueue.thy ===== *)
theory SceneQueue
  imports ExecState
begin

text \<open>
  \<open>build_scenequeue_data\<close> of \<open>poky/bitbake/lib/bb/runqueue.py\<close>: the graph of the run queue is
  collapsed to its setscene tasks.  \<open>sq_revdeps\<close> of a setscene task are the setscene tasks that
  depend on it through real tasks only, \<open>sq_covered_tasks\<close> the real tasks that it stands in for.
  The dictionaries of the loop are the record \<open>squash\<close>.
\<close>

section \<open>Collapsing the graph\<close>

record squash =
  b_revdeps :: "(string \<times> string list) list"
  b_squash :: "(string \<times> string list) list"
  b_collated :: "(string \<times> string list) list"

type_synonym endpoints = "(string \<times> string list) list"

definition add_all :: "string list \<Rightarrow> string list \<Rightarrow> string list" where
  "add_all new xs = fold append_new new xs"

text \<open>The chains up to the first setscene task: the end points are the real tasks nothing depends on.\<close>

definition init_squash :: "conf \<Rightarrow> runq \<Rightarrow> squash" where
  "init_squash c rq =
     \<lparr>b_revdeps = map (\<lambda>(t, e). (t, revdeps e)) rq, b_squash = map (\<lambda>(t, e). (t, [])) rq,
      b_collated = []\<rparr>"

definition init_endpoints :: "conf \<Rightarrow> runq \<Rightarrow> endpoints" where
  "init_endpoints c rq =
     map (\<lambda>(t, e). (t, [])) (filter (\<lambda>(t, e). revdeps e = [] \<and> t \<notin> set (scene_tids c)) rq)"

text \<open>The dependencies of the setscene tasks are end points too.\<close>

definition cut_dep :: "string \<Rightarrow> string \<Rightarrow> endpoints \<times> squash \<Rightarrow> unit result \<times> endpoints \<times> squash" where
  "cut_dep tid dep p =
     (case p of (es, b) \<Rightarrow>
        with_key (b_revdeps b) dep p (\<lambda>rs.
          (Inr (), dset dep (append_new tid (dget_or es dep [])) es,
           b\<lparr>b_revdeps := dset dep (remove_from tid rs) (b_revdeps b)\<rparr>)))"

definition cut_scene :: "runq \<Rightarrow> string \<Rightarrow> endpoints \<times> squash \<Rightarrow> unit result \<times> endpoints \<times> squash" where
  "cut_scene rq tid p =
     (case p of (es, b) \<Rightarrow>
        (let b1 = b\<lparr>b_collated := dset tid [] (b_collated b)\<rparr>
         in with_key rq tid (es, b1) (\<lambda>e. foreach (cut_dep tid) (depends e) (es, b1))))"

text \<open>One end point: what has arrived at it goes on to its dependencies, unless it is a setscene task.\<close>

definition collate :: "string \<Rightarrow> string \<Rightarrow> squash \<Rightarrow> unit result \<times> squash" where
  "collate point t b =
     with_key (b_collated b) t b (\<lambda>ps.
       (Inr (), b\<lparr>b_collated := dset t (append_new point ps) (b_collated b)\<rparr>))"

definition pass_dep ::
  "conf \<Rightarrow> string \<Rightarrow> string list \<Rightarrow> string list \<Rightarrow> string \<Rightarrow> endpoints \<times> squash \<Rightarrow> unit result \<times> endpoints \<times> squash"
where
  "pass_dep c point task arrived dep p =
     (case p of (new, b) \<Rightarrow>
        with_key (b_revdeps b) dep p (\<lambda>rs.
          (let rs1 = remove_from point rs;
               b1 = b\<lparr>b_revdeps := dset dep rs1 (b_revdeps b)\<rparr>
           in with_key (b_squash b1) dep (new, b1) (\<lambda>sq.
                (Inr (), if rs1 = [] \<and> dep \<notin> set (scene_tids c) then dset dep task new else new,
                 b1\<lparr>b_squash := dset dep (add_all arrived sq) (b_squash b1)\<rparr>)))))"

definition process_point ::
  "conf \<Rightarrow> runq \<Rightarrow> string \<times> string list \<Rightarrow> endpoints \<times> squash \<Rightarrow> unit result \<times> endpoints \<times> squash"
where
  "process_point c rq pt p =
     (case (pt, p) of ((point, task), (new, b)) \<Rightarrow>
        with_key (b_squash b) point p (\<lambda>sq.
          (let arrived = add_all sq (remdups task)
           in if point \<in> set (scene_tids c)
              then (Inr (), new, b\<lparr>b_squash := dset point arrived (b_squash b)\<rparr>)
              else (case foreach (collate point) arrived b of
                      (Inl e, b1) \<Rightarrow> (Inl e, new, b1)
                    | (Inr _, b1) \<Rightarrow>
                        (let b2 = b1\<lparr>b_squash := dset point [] (b_squash b1)\<rparr>
                         in with_key rq point (new, b2) (\<lambda>e.
                              foreach (pass_dep c point task arrived) (depends e) (new, b2)))))))"

definition process_round :: "conf \<Rightarrow> runq \<Rightarrow> endpoints \<Rightarrow> squash \<Rightarrow> unit result \<times> endpoints \<times> squash" where
  "process_round c rq es b = foreach (process_point c rq) es ([], b)"

text \<open>
  On an acyclic queue the end points of every round are further down, so the rounds are fewer than
  the tasks; on a cyclic one Python's recursion need not end.
\<close>

primrec process_endpoints :: "nat \<Rightarrow> conf \<Rightarrow> runq \<Rightarrow> endpoints \<Rightarrow> squash \<Rightarrow> unit result \<times> squash" where
  "process_endpoints 0 c rq es b = (Inl OutOfFuel, b)"
| "process_endpoints (Suc k) c rq es b =
     (case process_round c rq es b of
        (Inl e, new, b1) \<Rightarrow> (Inl e, b1)
      | (Inr _, new, b1) \<Rightarrow> if new = [] then (Inr (), b1) else process_endpoints k c rq new b1)"

definition collapse :: "conf \<Rightarrow> runq \<Rightarrow> unit result \<times> squash" where
  "collapse c rq =
     (case foreach (cut_scene rq) (scene_tids c) (init_endpoints c rq, init_squash c rq) of
        (Inl e, es, b) \<Rightarrow> (Inl e, b)
      | (Inr _, es, b) \<Rightarrow> process_endpoints (Suc (length rq)) c rq es b)"

section \<open>Tasks the build cannot do without\<close>

definition unskip_task :: "conf \<Rightarrow> string \<Rightarrow> exec \<Rightarrow> unit result \<times> exec" where
  "unskip_task c tid s =
     (if tid \<in> set (scene_tids c) then (Inr (), s)
      else with_key (x_rq s) tid s (\<lambda>e.
             (let s1 = (if depends e = [] then setbuildable tid s else s)
              in (Inr (), s1\<lparr>sqd := (sqd s1)\<lparr>unskippable := add_all (depends e) (unskippable (sqd s1))\<rparr>\<rparr>))))"

definition unskip_round :: "conf \<Rightarrow> exec \<Rightarrow> unit result \<times> exec" where
  "unskip_round c s = foreach (unskip_task c) (rev (sort (unskippable (sqd s)))) s"

lemma set_add_all [simp]: "set (add_all new xs) = set new \<union> set xs"
  by (induction new arbitrary: xs) (auto simp: add_all_def)

lemma distinct_add_all [simp]: "distinct xs \<Longrightarrow> distinct (add_all new xs)"
  by (induction new arbitrary: xs) (auto simp: add_all_def)

text \<open>What the loop over the unskippable tasks changes: they grow by dependencies, and tasks become buildable.\<close>

definition unskip_step :: "exec \<Rightarrow> exec \<Rightarrow> bool" where
  "unskip_step s t \<longleftrightarrow> x_rq t = x_rq s \<and> set (unskippable (sqd s)) \<subseteq> set (unskippable (sqd t)) \<and>
     set (unskippable (sqd t)) \<subseteq> set (unskippable (sqd s)) \<union> all_depends (x_rq s)"

interpretation unskip: frame unskip_step
  by unfold_locales (auto simp: unskip_step_def)

lemma unskip_task_step [simp]: "unskip_step s (snd (unskip_task c tid s))"
proof (cases "tid \<in> set (scene_tids c)")
  case False
  have "unskip_step s (snd (unskip_task c tid s))" if "dget (x_rq s) tid = Some e" for e
    using False that all_depends_entry [OF that]
    by (auto simp: unskip_task_def unskip_step_def setbuildable_def Let_def)
  then show ?thesis using False
    by (cases "dget (x_rq s) tid") (simp_all add: unskip_task_def with_key_def unskip_step_def)
qed (simp add: unskip_task_def unskip_step_def)

lemma unskip_round_step: "unskip_step s (snd (unskip_round c s))"
  unfolding unskip_round_def by (rule unskip.loop) simp

text \<open>The code compares the sets by value; both are without duplicates, so growing is a change.\<close>

function unskip_loop :: "conf \<Rightarrow> exec \<Rightarrow> unit result \<times> exec" where
  "unskip_loop c s =
     (case unskip_round c s of
        (Inl e, s1) \<Rightarrow> (Inl e, s1)
      | (Inr _, s1) \<Rightarrow>
          if set (unskippable (sqd s1)) = set (unskippable (sqd s)) then (Inr (), s1) else unskip_loop c s1)"
  by pat_completeness auto
termination
proof (relation "measure (\<lambda>(c, s). card (all_depends (x_rq s) - set (unskippable (sqd s))))", goal_cases)
  case (2 c s r s1)
  then have "unskip_step s s1" using unskip_round_step [of s c] by (metis snd_conv)
  with 2 have "all_depends (x_rq s1) - set (unskippable (sqd s1)) \<subset> all_depends (x_rq s) - set (unskippable (sqd s))"
    by (auto simp: unskip_step_def)
  then have "card (all_depends (x_rq s1) - set (unskippable (sqd s1))) <
      card (all_depends (x_rq s) - set (unskippable (sqd s)))" by (intro psubset_card_mono) auto
  then show ?case by simp
qed simp

declare unskip_loop.simps [simp del]

section \<open>Dependencies between setscene tasks\<close>

text \<open>\<open>s.replace(p, '')\<close>: occurrences from left to right.\<close>

fun remove_sub :: "string \<Rightarrow> nat \<Rightarrow> string \<Rightarrow> string" where
  "remove_sub p k [] = []"
| "remove_sub p (Suc k) (x # xs) = remove_sub p k xs"
| "remove_sub p 0 (x # xs) =
     (if startswith (x # xs) p then remove_sub p (length p - 1) xs else x # remove_sub p 0 xs)"

definition hard_dep :: "runq \<Rightarrow> td_state \<Rightarrow> string \<Rightarrow> string \<times> string \<Rightarrow> sq_data \<Rightarrow> unit result \<times> sq_data" where
  "hard_dep rq td tid dt d =
     (case dt of (depname, idependtask) \<Rightarrow>
        (case dget (build_targets td) depname of
           None \<Rightarrow> (Inr (), d)
         | Some [] \<Rightarrow> (Inl IndexError, d)
         | Some (depfn # _) \<Rightarrow>
             (let deptid = depfn @ '':'' @ remove_sub ''_setscene'' 0 idependtask
              in if deptid \<notin> set (dkeys rq) then (Inl Fatal, d)
                 else (Inr (), d\<lparr>sq_harddeps :=
                             dset deptid (append_new tid (dget_or (sq_harddeps d) deptid [])) (sq_harddeps d),
                           sq_harddeps_rev :=
                             dset tid (append_new deptid (dget_or (sq_harddeps_rev d) tid [])) (sq_harddeps_rev d)\<rparr>))))"

definition hard_deps_of :: "conf \<Rightarrow> runq \<Rightarrow> string \<Rightarrow> sq_data \<Rightarrow> unit result \<times> sq_data" where
  "hard_deps_of c rq tid d =
     (case split_tid_mcfn tid of
        None \<Rightarrow> (Inl ValueError, d)
      | Some (mc, fn, taskname, taskfn) \<Rightarrow>
          with_key (task_data c) mc d (\<lambda>td.
            with_key (taskentries td) (tid @ ''_setscene'') d (\<lambda>e.
              foreach (hard_dep rq td tid) (idepends e)
                (d\<lparr>sq_stamps := dset tid (short_stamp c taskname taskfn) (sq_stamps d),
                   sq_harddeps_rev := dset tid [] (sq_harddeps_rev d)\<rparr>))))"

section \<open>The graph of the setscene tasks\<close>

definition reverse_deps :: "(string \<times> string list) list \<Rightarrow> unit result \<times> (string \<times> string list) list" where
  "reverse_deps rv =
     foreach (\<lambda>(tid, ds). foreach (\<lambda>dep d. with_key d dep d (\<lambda>ts. (Inr (), dset dep (append_new tid ts) d))) ds)
       rv (map (\<lambda>(tid, _). (tid, [])) rv)"

definition hash_index :: "conf \<Rightarrow> runq \<Rightarrow> string \<Rightarrow> string result" where
  "hash_index c rq tid =
     (case split_tid_mcfn tid of
        None \<Rightarrow> Inl ValueError
      | Some (mc, fn, taskname, taskfn) \<Rightarrow>
          (case dget rq tid of
             None \<Rightarrow> Inl KeyError
           | Some e \<Rightarrow>
               (case unihash e of
                  None \<Rightarrow> Inl TypeError
                | Some h \<Rightarrow>
                    (case pending_hash_index tid (\<lambda>m. [(taskfn, recipe c m taskfn)]) [(tid, h)] of
                       None \<Rightarrow> Inl KeyError | Some i \<Rightarrow> Inr i))))"

definition defer_task :: "conf \<Rightarrow> string \<Rightarrow> string \<Rightarrow> exec \<Rightarrow> unit result \<times> exec" where
  "defer_task c mc tid s =
     (if mc_from_tid tid \<noteq> mc then (Inr (), s)
      else case hash_index c (x_rq s) tid of
             Inl e \<Rightarrow> (Inl e, s)
           | Inr h \<Rightarrow>
               (case dget (sq_hashes (sqd s)) h of
                  None \<Rightarrow> (Inr (), s\<lparr>sqd := (sqd s)\<lparr>sq_hashes := dset h tid (sq_hashes (sqd s))\<rparr>\<rparr>)
                | Some t \<Rightarrow> (Inr (), s\<lparr>sq_deferred := dset tid t (sq_deferred s)\<rparr>)))"

definition defer_equal :: "conf \<Rightarrow> exec \<Rightarrow> unit result \<times> exec" where
  "defer_equal c s =
     foreach (\<lambda>mc. foreach (defer_task c mc) (sort (dkeys (sq_revdeps (sqd s)))))
       (sort (multiconfigs (sqd s))) s"

definition empty_sqd :: sq_data where
  "empty_sqd = \<lparr>sq_deps = [], sq_revdeps = [], sq_harddeps = [], sq_harddeps_rev = [], sq_stamps = [],
     unskippable = [], outrightfail = [], sq_covered_tasks = [], cantskip = [], multiconfigs = [],
     sq_noexec = [], stamppresent = [], sq_valid = [], sq_hashes = []\<rparr>"

definition start_unskippable :: "conf \<Rightarrow> runq \<Rightarrow> sq_data" where
  "start_unskippable c rq =
     (let cant = filter (\<lambda>t. t \<notin> set (scene_tids c) \<and> t \<in> set (dkeys rq)) (remdups (targets c))
      in empty_sqd\<lparr>cantskip := cant,
           unskippable := add_all cant (map fst (filter (\<lambda>(t, e). revdeps e = []) rq))\<rparr>)"

text \<open>What is left over for a real task is an error of the construction and ends the program.\<close>

definition squash_leftover :: "conf \<Rightarrow> runq \<Rightarrow> squash \<Rightarrow> bool" where
  "squash_leftover c rq b \<longleftrightarrow>
     list_ex (\<lambda>t. t \<notin> set (scene_tids c) \<and> dget_or (b_squash b) t [] \<noteq> []) (dkeys rq)"

definition graph_of_squash :: "conf \<Rightarrow> squash \<Rightarrow> sq_data \<Rightarrow> unit result \<times> sq_data" where
  "graph_of_squash c b d =
     (let rv = filter (\<lambda>(t, _). t \<in> set (scene_tids c)) (b_squash b)
      in case reverse_deps rv of
           (Inl e, _) \<Rightarrow> (Inl e, d)
         | (Inr _, ds) \<Rightarrow>
             (Inr (), d\<lparr>sq_revdeps := rv, sq_covered_tasks := b_collated b, sq_deps := ds,
                        multiconfigs := remdups (map mc_from_tid (dkeys rv))\<rparr>))"

definition build_scenequeue_data :: "conf \<Rightarrow> exec \<Rightarrow> unit result \<times> exec" where
  "build_scenequeue_data c s =
     (case collapse c (x_rq s) of
        (Inl e, b) \<Rightarrow> (Inl e, s)
      | (Inr _, b) \<Rightarrow>
          seq_st (unskip_loop c (s\<lparr>sqd := start_unskippable c (x_rq s)\<rparr>)) (\<lambda>s1.
            let s2 = s1\<lparr>tasks_scenequeue_done :=
                  add_all (filter (\<lambda>t. t \<notin> set (scene_tids c)) (unskippable (sqd s1))) (tasks_scenequeue_done s1)\<rparr>
            in if squash_leftover c (x_rq s2) b then (Inl Fatal, s2)
               else (case foreach (hard_deps_of c (x_rq s2)) (scene_tids c) (sqd s2) of
                       (Inl e, d) \<Rightarrow> (Inl e, s2\<lparr>sqd := d\<rparr>)
                     | (Inr _, d) \<Rightarrow>
                         (case graph_of_squash c b d of
                            (Inl e, d1) \<Rightarrow> (Inl e, s2\<lparr>sqd := d1\<rparr>)
                          | (Inr _, d1) \<Rightarrow>
                              defer_equal c
                                (s2\<lparr>sqd := d1, sq_deferred := [],
                                   sq_buildable := add_all (map fst (filter (\<lambda>(t, ts). ts = []) (sq_revdeps d1)))
                                                     (sq_buildable s2)\<rparr>)))))"

section \<open>One end point, as sets\<close>

definition at :: "('k \<times> 'v list) list \<Rightarrow> 'k \<Rightarrow> 'v set" where
  "at d k = set (dget_or d k [])"

lemma at_dset [simp]: "at (dset k v d) j = (if j = k then set v else at d j)"
  by (simp add: at_def)

lemma at_out: "k \<notin> set (dkeys d) \<Longrightarrow> at d k = {}"
  by (simp add: at_def)

lemma at_in: "wf_dict d \<Longrightarrow> (k, v) \<in> set d \<Longrightarrow> at d k = set v"
  by (simp add: at_def dget_or_def wf_dict_def)

lemma with_key_in: "k \<in> set (dkeys d) \<Longrightarrow> with_key d k s f = f (dget_or d k [])"
  using dget_in_dkeys [of k d] by (auto simp: with_key_def dget_or_def)

lemma set_dset_subset: "set (dset k v d) \<subseteq> insert (k, v) (set d)"
  by (induction d) auto

lemma collate_all:
  assumes "set ts \<subseteq> set (dkeys (b_collated b))"
  shows "\<exists>b'. foreach (collate point) ts b = (Inr (), b') \<and> b_revdeps b' = b_revdeps b \<and>
    b_squash b' = b_squash b \<and> set (dkeys (b_collated b')) = set (dkeys (b_collated b)) \<and>
    (\<forall>s. at (b_collated b') s = at (b_collated b) s \<union> (if s \<in> set ts then {point} else {}))"
  using assms
proof (induction ts arbitrary: b)
  case (Cons t ts)
  let ?b = "b\<lparr>b_collated := dset t (append_new point (dget_or (b_collated b) t [])) (b_collated b)\<rparr>"
  have t: "t \<in> set (dkeys (b_collated b))" using Cons.prems by simp
  have one: "collate point t b = (Inr (), ?b)" by (simp only: collate_def with_key_in [OF t])
  have keys: "set (dkeys (b_collated ?b)) = set (dkeys (b_collated b))" using t by auto
  have "set ts \<subseteq> set (dkeys (b_collated ?b))" using Cons.prems keys by auto
  from Cons.IH [OF this] obtain b' where b': "foreach (collate point) ts ?b = (Inr (), b')"
      "b_revdeps b' = b_revdeps b" "b_squash b' = b_squash b"
      "set (dkeys (b_collated b')) = set (dkeys (b_collated b))"
      "\<And>s. at (b_collated b') s = at (b_collated ?b) s \<union> (if s \<in> set ts then {point} else {})"
    using keys by auto
  have "at (b_collated ?b) s = at (b_collated b) s \<union> (if s = t then {point} else {})" for s
    by (simp add: at_def)
  with b' one show ?case by auto
qed auto

lemma pass_all:
  assumes "set ds \<subseteq> set (dkeys (b_revdeps b))" "set (dkeys (b_squash b)) = set (dkeys (b_revdeps b))"
  shows "\<exists>new' b'. foreach (pass_dep c point task arrived) ds (new, b) = (Inr (), new', b') \<and>
    b_collated b' = b_collated b \<and> set (dkeys (b_revdeps b')) = set (dkeys (b_revdeps b)) \<and>
    dkeys (b_squash b') = dkeys (b_squash b) \<and>
    (\<forall>p. at (b_revdeps b') p = at (b_revdeps b) p - (if p \<in> set ds then {point} else {})) \<and>
    (\<forall>p. at (b_squash b') p = at (b_squash b) p \<union> (if p \<in> set ds then set arrived else {})) \<and>
    set (dkeys new') = set (dkeys new) \<union> {p \<in> set ds. p \<notin> set (scene_tids c) \<and> at (b_revdeps b) p \<subseteq> {point}} \<and>
    set new' \<subseteq> set new \<union> set ds \<times> {task}"
  using assms
proof (induction ds arbitrary: new b)
  case (Cons d ds)
  let ?rs = "remove_from point (dget_or (b_revdeps b) d [])"
  let ?new = "if ?rs = [] \<and> d \<notin> set (scene_tids c) then dset d task new else new"
  let ?b = "b\<lparr>b_revdeps := dset d ?rs (b_revdeps b),
      b_squash := dset d (add_all arrived (dget_or (b_squash b) d [])) (b_squash b)\<rparr>"
  have d: "d \<in> set (dkeys (b_revdeps b))" "d \<in> set (dkeys (b_squash b))" using Cons.prems by auto
  have one: "pass_dep c point task arrived d (new, b) = (Inr (), ?new, ?b)"
    unfolding pass_dep_def prod.case with_key_in [OF d(1)] Let_def
    by (simp add: with_key_in [OF d(2)] del: set_map)
  have keys: "set (dkeys (b_revdeps ?b)) = set (dkeys (b_revdeps b))"
    using d by auto
  have sqk: "dkeys (b_squash ?b) = dkeys (b_squash b)" using dkeys_dset_same [OF d(2)] by simp
  have "set ds \<subseteq> set (dkeys (b_revdeps ?b))" "set (dkeys (b_squash ?b)) = set (dkeys (b_revdeps ?b))"
    using Cons.prems keys unfolding sqk by auto
  from Cons.IH [OF this, of ?new] obtain new' b' where b':
      "foreach (pass_dep c point task arrived) ds (?new, ?b) = (Inr (), new', b')"
      "b_collated b' = b_collated b" "set (dkeys (b_revdeps b')) = set (dkeys (b_revdeps b))"
      "dkeys (b_squash b') = dkeys (b_squash b)"
      "\<And>p. at (b_revdeps b') p = at (b_revdeps ?b) p - (if p \<in> set ds then {point} else {})"
      "\<And>p. at (b_squash b') p = at (b_squash ?b) p \<union> (if p \<in> set ds then set arrived else {})"
      "set (dkeys new') = set (dkeys ?new) \<union>
         {p \<in> set ds. p \<notin> set (scene_tids c) \<and> at (b_revdeps ?b) p \<subseteq> {point}}"
      "set new' \<subseteq> set ?new \<union> set ds \<times> {task}"
    unfolding sqk using keys by auto
  have rv: "at (b_revdeps ?b) p = at (b_revdeps b) p - (if p = d then {point} else {})" for p
    by (auto simp: at_def)
  have sq: "at (b_squash ?b) p = at (b_squash b) p \<union> (if p = d then set arrived else {})" for p
    by (auto simp: at_def)
  have "?rs = [] \<longleftrightarrow> at (b_revdeps b) d \<subseteq> {point}"
    by (auto simp: at_def removeAll_filter_not_eq filter_empty_conv)
  then have nw: "set (dkeys ?new) = set (dkeys new) \<union>
      (if d \<notin> set (scene_tids c) \<and> at (b_revdeps b) d \<subseteq> {point} then {d} else {})"
    by (auto simp: image_iff)
  have nt: "set ?new \<subseteq> set new \<union> {d} \<times> {task}" using set_dset_subset [of d task new] by auto
  show ?case
  proof (intro exI conjI allI)
    show "foreach (pass_dep c point task arrived) (d # ds) (new, b) = (Inr (), new', b')"
      using one b'(1) by simp
    show "at (b_revdeps b') p = at (b_revdeps b) p - (if p \<in> set (d # ds) then {point} else {})" for p
      unfolding b'(5) rv by auto
    show "at (b_squash b') p = at (b_squash b) p \<union> (if p \<in> set (d # ds) then set arrived else {})" for p
      unfolding b'(6) sq by auto
    show "set (dkeys new') = set (dkeys new) \<union>
        {p \<in> set (d # ds). p \<notin> set (scene_tids c) \<and> at (b_revdeps b) p \<subseteq> {point}}"
      unfolding b'(7) nw rv by auto
    show "set new' \<subseteq> set new \<union> set (d # ds) \<times> {task}"
      by (rule order_trans [OF b'(8) order_trans [OF Un_mono [OF nt order_refl]]]) auto
  qed (use b' in auto)
qed auto

definition squash_keys :: "conf \<Rightarrow> runq \<Rightarrow> squash \<Rightarrow> bool" where
  "squash_keys c rq b \<longleftrightarrow> set (dkeys (b_revdeps b)) = set (dkeys rq) \<and> dkeys (b_squash b) = dkeys rq \<and>
     set (dkeys (b_collated b)) = set (scene_tids c)"

definition point_effect ::
  "conf \<Rightarrow> runq \<Rightarrow> string \<Rightarrow> string list \<Rightarrow> endpoints \<Rightarrow> squash \<Rightarrow> endpoints \<Rightarrow> squash \<Rightarrow> bool"
where
  "point_effect c rq point task new b new' b' \<longleftrightarrow>
     (let A = at (b_squash b) point \<union> set task; D = deps_set rq point; S = set (scene_tids c)
      in squash_keys c rq b' \<and>
         (if point \<in> S
          then new' = new \<and> b_revdeps b' = b_revdeps b \<and> b_collated b' = b_collated b \<and>
               (\<forall>p. at (b_squash b') p = (if p = point then A else at (b_squash b) p))
          else (\<forall>p. at (b_revdeps b') p = at (b_revdeps b) p - (if p \<in> D then {point} else {})) \<and>
               (\<forall>s. at (b_collated b') s = at (b_collated b) s \<union> (if s \<in> A then {point} else {})) \<and>
               (\<forall>p. at (b_squash b') p = (if p = point then {} else at (b_squash b) p) \<union> (if p \<in> D then A else {})) \<and>
               set (dkeys new') = set (dkeys new) \<union> {p \<in> D. p \<notin> S \<and> at (b_revdeps b) p \<subseteq> {point}} \<and>
               set new' \<subseteq> set new \<union> D \<times> {task}))"

lemma process_point_effect:
  assumes keys: "squash_keys c rq b" and point: "point \<in> set (dkeys rq)" and closed: "closed_queue rq"
    and arrived: "at (b_squash b) point \<union> set task \<subseteq> set (scene_tids c)"
  shows "\<exists>new' b'. process_point c rq (point, task) (new, b) = (Inr (), new', b') \<and>
    point_effect c rq point task new b new' b'"
proof -
  let ?A = "add_all (dget_or (b_squash b) point []) (remdups task)"
  have A: "set ?A = at (b_squash b) point \<union> set task" by (simp add: at_def)
  have pk: "point \<in> set (dkeys (b_squash b))" using keys point by (simp add: squash_keys_def)
  note unf = process_point_def prod.case with_key_in [OF pk] Let_def
  show ?thesis
  proof (cases "point \<in> set (scene_tids c)")
    case True
    let ?b = "b\<lparr>b_squash := dset point ?A (b_squash b)\<rparr>"
    have "process_point c rq (point, task) (new, b) = (Inr (), new, ?b)"
      unfolding unf using True by simp
    moreover have "point_effect c rq point task new b new ?b"
      unfolding point_effect_def Let_def using True keys pk A
      using dkeys_dset_same [OF pk] by (auto simp: squash_keys_def simp del: set_map)
    ultimately show ?thesis by blast
  next
    case False
    obtain e where e: "dget rq point = Some e" using point dget_in_dkeys [of point rq] by blast
    have D: "set (depends e) = deps_set rq point" by (rule depends_entry [OF e])
    have "set ?A \<subseteq> set (dkeys (b_collated b))" using arrived keys A by (simp add: squash_keys_def)
    then obtain b1 where b1: "foreach (collate point) ?A b = (Inr (), b1)" "b_revdeps b1 = b_revdeps b"
      "b_squash b1 = b_squash b" "set (dkeys (b_collated b1)) = set (dkeys (b_collated b))"
      "\<And>s. at (b_collated b1) s = at (b_collated b) s \<union> (if s \<in> set ?A then {point} else {})"
      using collate_all [of ?A b point] by blast
    let ?b2 = "b1\<lparr>b_squash := dset point [] (b_squash b1)\<rparr>"
    have k1: "dkeys (b_squash ?b2) = dkeys (b_squash b)" using b1(3) dkeys_dset_same [OF pk] by simp
    then have k2: "set (dkeys (b_squash ?b2)) = set (dkeys (b_revdeps ?b2))"
      using b1(2) keys by (simp add: squash_keys_def del: set_map)
    have "set (depends e) \<subseteq> set (dkeys (b_revdeps ?b2))"
      using closed D b1(2) keys unfolding closed_queue_def squash_keys_def by simp
    from pass_all [OF this k2, of c point task ?A new] obtain new' b' where r:
      "foreach (pass_dep c point task ?A) (depends e) (new, ?b2) = (Inr (), new', b')"
      "b_collated b' = b_collated ?b2" "set (dkeys (b_revdeps b')) = set (dkeys (b_revdeps ?b2))"
      "dkeys (b_squash b') = dkeys (b_squash ?b2)"
      "\<And>p. at (b_revdeps b') p = at (b_revdeps ?b2) p - (if p \<in> set (depends e) then {point} else {})"
      "\<And>p. at (b_squash b') p = at (b_squash ?b2) p \<union> (if p \<in> set (depends e) then set ?A else {})"
      "set (dkeys new') = set (dkeys new) \<union>
         {p \<in> set (depends e). p \<notin> set (scene_tids c) \<and> at (b_revdeps ?b2) p \<subseteq> {point}}"
      "set new' \<subseteq> set new \<union> set (depends e) \<times> {task}" by blast
    have "process_point c rq (point, task) (new, b) = (Inr (), new', b')"
      unfolding unf using False b1(1) r(1) e by (simp add: Let_def)
    moreover have "point_effect c rq point task new b new' b'"
    proof -
      have "squash_keys c rq b'" using r(2-4) b1(2-4) keys k1 by (simp add: squash_keys_def del: set_map)
      moreover have "at (b_squash ?b2) p = (if p = point then {} else at (b_squash b) p)" for p
        using b1(3) by simp
      ultimately show ?thesis
        unfolding point_effect_def Let_def using False r(2,5-8) b1(2,5) D by (simp add: at_def [symmetric])
    qed
    ultimately show ?thesis by blast
  qed
qed

section \<open>The collapsed graph\<close>

text \<open>The setscene task \<open>s\<close> depends on \<open>p\<close> through real tasks only.\<close>

inductive above :: "runq \<Rightarrow> string set \<Rightarrow> string \<Rightarrow> string \<Rightarrow> bool" for rq S where
  direct: "s \<in> S \<Longrightarrow> p \<in> deps_set rq s \<Longrightarrow> above rq S s p"
| through: "above rq S s q \<Longrightarrow> q \<notin> S \<Longrightarrow> p \<in> deps_set rq q \<Longrightarrow> above rq S s p"

definition scene_above :: "conf \<Rightarrow> runq \<Rightarrow> string \<Rightarrow> string set" where
  "scene_above c rq p = {s. above rq (set (scene_tids c)) s p}"

definition covers :: "conf \<Rightarrow> runq \<Rightarrow> string \<Rightarrow> string set" where
  "covers c rq s = {q. q \<notin> set (scene_tids c) \<and> above rq (set (scene_tids c)) s q}"

lemma above_scene: "above rq S s p \<Longrightarrow> s \<in> S"
  by (induction rule: above.induct)

lemma above_key: "above rq S s p \<Longrightarrow> closed_queue rq \<Longrightarrow> p \<in> set (dkeys rq)"
  by (induction rule: above.induct) (auto simp: closed_queue_def simp del: set_map)

lemma scene_above_scene: "scene_above c rq p \<subseteq> set (scene_tids c)"
  by (auto simp: scene_above_def dest: above_scene)

text \<open>What the loop has recorded so far is right.\<close>

definition sound_inv :: "conf \<Rightarrow> runq \<Rightarrow> endpoints \<Rightarrow> squash \<Rightarrow> bool" where
  "sound_inv c rq es b \<longleftrightarrow> (\<forall>p ts. (p, ts) \<in> set es \<longrightarrow> set ts \<subseteq> scene_above c rq p) \<and>
     (\<forall>p. at (b_squash b) p \<subseteq> scene_above c rq p) \<and> (\<forall>s. at (b_collated b) s \<subseteq> covers c rq s)"

text \<open>Nothing gets lost: what has reached a real task has reached its dependencies or is on the way.\<close>

definition arrived_at :: "conf \<Rightarrow> endpoints \<Rightarrow> squash \<Rightarrow> string \<Rightarrow> string \<Rightarrow> bool" where
  "arrived_at c es b s p \<longleftrightarrow> s \<in> at (b_squash b) p \<or> p \<notin> set (scene_tids c) \<and> p \<in> at (b_collated b) s \<or>
     (\<exists>ts. (p, ts) \<in> set es \<and> s \<in> set ts)"

definition deliver_inv :: "conf \<Rightarrow> runq \<Rightarrow> endpoints \<Rightarrow> squash \<Rightarrow> bool" where
  "deliver_inv c rq es b \<longleftrightarrow> (\<forall>s \<in> set (scene_tids c).
     (\<forall>p \<in> deps_set rq s. arrived_at c es b s p) \<and>
     (\<forall>q p. q \<notin> set (scene_tids c) \<longrightarrow> q \<in> at (b_collated b) s \<longrightarrow> p \<in> deps_set rq q \<longrightarrow> arrived_at c es b s p))"

text \<open>
  The real tasks in \<open>P\<close> have been end points; a task that has lost all its dependents has been one
  or is ahead, and so is one at which something has arrived.
\<close>

definition topo_inv :: "conf \<Rightarrow> runq \<Rightarrow> string set \<Rightarrow> string set \<Rightarrow> squash \<Rightarrow> bool" where
  "topo_inv c rq P ahead b \<longleftrightarrow> (let S = set (scene_tids c) in
     (\<forall>p. at (b_revdeps b) p = {r \<in> set (revdeps_of rq p). r \<notin> S \<and> r \<notin> P}) \<and>
     (\<forall>p \<in> set (dkeys rq) - S. at (b_revdeps b) p = {} \<longrightarrow> p \<in> P \<or> p \<in> ahead) \<and>
     (\<forall>p \<in> set (dkeys rq) - S. at (b_squash b) p \<noteq> {} \<longrightarrow> at (b_revdeps b) p \<noteq> {} \<or> p \<in> ahead))"

lemma sound_step:
  assumes "point_effect c rq point task new b new' b'" "sound_inv c rq ((point, task) # es @ new) b"
    and "closed_queue rq"
  shows "sound_inv c rq (es @ new') b'"
proof (cases "point \<in> set (scene_tids c)")
  case True
  with assms(1,2) show ?thesis by (auto simp: point_effect_def Let_def sound_inv_def)
next
  case False
  note eff = assms(1) [unfolded point_effect_def Let_def if_not_P [OF False]]
  let ?A = "at (b_squash b) point \<union> set task"
  have A: "?A \<subseteq> scene_above c rq point" using assms(2) by (auto simp: sound_inv_def)
  have down: "scene_above c rq point \<subseteq> scene_above c rq p" if "p \<in> deps_set rq point" for p
    using False that by (auto simp: scene_above_def intro: above.through)
  have "set ts \<subseteq> scene_above c rq p" if "(p, ts) \<in> set (es @ new')" for p ts
  proof (cases "(p, ts) \<in> set (es @ new)")
    case True
    with assms(2) show ?thesis by (auto simp: sound_inv_def)
  next
    case no: False
    with that eff have "p \<in> deps_set rq point" "ts = task" by auto
    with A down show ?thesis by blast
  qed
  moreover have "at (b_squash b') p \<subseteq> scene_above c rq p" for p
  proof -
    have "at (b_squash b') p = (if p = point then {} else at (b_squash b) p) \<union> (if p \<in> deps_set rq point then ?A else {})"
      using eff by blast
    moreover have "at (b_squash b) p \<subseteq> scene_above c rq p" using assms(2) unfolding sound_inv_def by blast
    moreover have "(if p \<in> deps_set rq point then ?A else {}) \<subseteq> scene_above c rq p"
    proof (cases "p \<in> deps_set rq point")
      case True
      from order_trans [OF A down [OF True]] True show ?thesis by simp
    qed simp
    ultimately show ?thesis by (simp del: Un_iff)
  qed
  moreover have "at (b_collated b') s \<subseteq> covers c rq s" for s
  proof -
    have "at (b_collated b') s = at (b_collated b) s \<union> (if s \<in> ?A then {point} else {})" using eff by blast
    moreover have "at (b_collated b) s \<subseteq> covers c rq s" using assms(2) unfolding sound_inv_def by blast
    moreover have "point \<in> covers c rq s" if "s \<in> ?A"
      using A that False unfolding covers_def scene_above_def by blast
    ultimately show ?thesis by (simp del: Un_iff)
  qed
  ultimately show ?thesis unfolding sound_inv_def by blast
qed

lemma deliver_step:
  assumes "point_effect c rq point task new b new' b'" "deliver_inv c rq ((point, task) # es) b"
  shows "deliver_inv c rq es b'"
proof -
  let ?S = "set (scene_tids c)"
  have mono: "arrived_at c es b' s p" if "arrived_at c ((point, task) # es) b s p" for s p
  proof (cases "point \<in> ?S")
    case True
    with that assms(1) show ?thesis by (auto simp: arrived_at_def point_effect_def Let_def)
  next
    case False
    note eff = assms(1) [unfolded point_effect_def Let_def if_not_P [OF False]]
    from eff have "at (b_squash b) p \<subseteq> at (b_squash b') p \<or> p = point" "at (b_collated b) s \<subseteq> at (b_collated b') s"
      by auto
    moreover have "point \<in> at (b_collated b') s" if "s \<in> at (b_squash b) point \<or> s \<in> set task"
      using eff that by simp
    ultimately show ?thesis using that False unfolding arrived_at_def by auto
  qed
  have new: "arrived_at c es b' s p"
    if "q \<notin> ?S" "q \<in> at (b_collated b') s" "q \<notin> at (b_collated b) s" "p \<in> deps_set rq q" for q s p
  proof -
    have no: "point \<notin> ?S" using assms(1) that by (auto simp: point_effect_def Let_def)
    note eff = assms(1) [unfolded point_effect_def Let_def if_not_P [OF no]]
    have "at (b_collated b') s = at (b_collated b) s \<union> (if s \<in> at (b_squash b) point \<union> set task then {point} else {})"
      using eff by blast
    with that have "q = point" "s \<in> at (b_squash b) point \<union> set task" by (auto split: if_splits)
    with eff that show ?thesis by (simp add: arrived_at_def)
  qed
  show ?thesis unfolding deliver_inv_def
  proof (intro ballI conjI allI impI)
    fix s p assume s: "s \<in> ?S"
    show "arrived_at c es b' s p" if "p \<in> deps_set rq s"
      using assms(2) s that unfolding deliver_inv_def by (intro mono) blast
    show "arrived_at c es b' s p" if "q \<notin> ?S" "q \<in> at (b_collated b') s" "p \<in> deps_set rq q" for q
      using assms(2) s that new [of q s p] unfolding deliver_inv_def by (cases "q \<in> at (b_collated b) s") (auto intro: mono)
  qed
qed

lemma topo_step:
  assumes "point_effect c rq point task new b new' b'" "topo_inv c rq P (insert point E \<union> set (dkeys new)) b"
    and "graph_ok rq"
  shows "topo_inv c rq (if point \<in> set (scene_tids c) then P else insert point P) (E \<union> set (dkeys new')) b'"
proof -
  let ?S = "set (scene_tids c)" and ?E = "insert point E \<union> set (dkeys new)"
  have t1: "at (b_revdeps b) p = {r \<in> set (revdeps_of rq p). r \<notin> ?S \<and> r \<notin> P}" for p
    using assms(2) by (simp add: topo_inv_def Let_def)
  have t2: "p \<in> P \<or> p \<in> ?E" if "p \<in> set (dkeys rq) - ?S" "at (b_revdeps b) p = {}" for p
    using assms(2) that unfolding topo_inv_def Let_def by blast
  have t3: "at (b_revdeps b) p \<noteq> {} \<or> p \<in> ?E" if "p \<in> set (dkeys rq) - ?S" "at (b_squash b) p \<noteq> {}" for p
    using assms(2) that unfolding topo_inv_def Let_def by blast
  show ?thesis
  proof (cases "point \<in> ?S")
    case True
    then have same: "new' = new" "b_revdeps b' = b_revdeps b"
      and sq: "p \<noteq> point \<Longrightarrow> at (b_squash b') p = at (b_squash b) p" for p
      using assms(1) by (auto simp: point_effect_def Let_def)
    show ?thesis unfolding topo_inv_def Let_def if_P [OF True] same
    proof (intro conjI allI ballI impI)
      fix p assume p: "p \<in> set (dkeys rq) - ?S"
      then have ne: "p \<noteq> point" using True by blast
      show "p \<in> P \<or> p \<in> E \<union> set (dkeys new)" if "at (b_revdeps b) p = {}"
        using t2 [OF p that] ne by blast
      show "at (b_revdeps b) p \<noteq> {} \<or> p \<in> E \<union> set (dkeys new)" if "at (b_squash b') p \<noteq> {}"
        using t3 [OF p that [unfolded sq [OF ne]]] ne by blast
    qed (rule t1)
  next
    case False
    note eff = assms(1) [unfolded point_effect_def Let_def if_not_P [OF False]]
    have rv': "at (b_revdeps b') p = at (b_revdeps b) p - (if p \<in> deps_set rq point then {point} else {})" for p
      using eff by blast
    have nw: "set (dkeys new') = set (dkeys new) \<union> {p \<in> deps_set rq point. p \<notin> ?S \<and> at (b_revdeps b) p \<subseteq> {point}}"
      using eff by blast
    have sq: "at (b_squash b') p = at (b_squash b) p" if "p \<notin> deps_set rq point" "p \<noteq> point" for p
      using eff that by simp
    have sp: "at (b_squash b') point = {}" if "point \<notin> deps_set rq point" using eff that by simp
    have rd: "point \<in> set (revdeps_of rq p) \<longleftrightarrow> p \<in> deps_set rq point" for p
      using assms(3) by (simp add: graph_ok_def deps_set_def)
    have new: "p \<in> set (dkeys new')" if "p \<in> deps_set rq point" "p \<notin> ?S" "at (b_revdeps b') p = {}" for p
      using that unfolding nw rv' by auto
    show ?thesis unfolding topo_inv_def Let_def if_not_P [OF False]
    proof (intro conjI allI ballI impI)
      fix p
      show "at (b_revdeps b') p = {r \<in> set (revdeps_of rq p). r \<notin> ?S \<and> r \<notin> insert point P}"
        unfolding rv' t1 using rd [of p] by auto
      assume p: "p \<in> set (dkeys rq) - ?S"
      show "p \<in> insert point P \<or> p \<in> E \<union> set (dkeys new')" if e: "at (b_revdeps b') p = {}"
      proof (cases "p \<in> deps_set rq point")
        case True
        with new [OF True _ e] p show ?thesis by blast
      next
        case no: False
        with e have "at (b_revdeps b) p = {}" by (simp add: rv')
        from t2 [OF p this] show ?thesis unfolding nw by blast
      qed
      show "at (b_revdeps b') p \<noteq> {} \<or> p \<in> E \<union> set (dkeys new')" if e: "at (b_squash b') p \<noteq> {}"
      proof (cases "p \<in> deps_set rq point")
        case True
        with new [OF True] p show ?thesis by blast
      next
        case no: False
        then have ne: "p \<noteq> point" using e sp by blast
        from t3 [OF p e [unfolded sq [OF no ne]]] ne show ?thesis
          unfolding nw using rv' [of p] no by auto
      qed
    qed
  qed
qed

lemma graph_ok_closed: "graph_ok rq \<Longrightarrow> closed_queue rq"
  by (simp add: graph_ok_def closed_queue_def deps_set_def del: set_map)

lemma round_result:
  assumes g: "graph_ok rq"
  shows "squash_keys c rq b \<Longrightarrow> fst ` set es \<subseteq> set (dkeys rq) \<Longrightarrow> sound_inv c rq (es @ new) b \<Longrightarrow>
    deliver_inv c rq es b \<Longrightarrow> topo_inv c rq P (fst ` set es \<union> set (dkeys new)) b \<Longrightarrow>
    \<exists>new' b' P'. foreach (process_point c rq) es (new, b) = (Inr (), new', b') \<and> squash_keys c rq b' \<and>
      sound_inv c rq new' b' \<and> deliver_inv c rq [] b' \<and> topo_inv c rq P' (set (dkeys new')) b' \<and>
      set (dkeys new') \<subseteq> set (dkeys new) \<union> (\<Union>p \<in> fst ` set es. deps_set rq p)"
proof (induction es arbitrary: new b P)
  case Nil
  then show ?case by (auto simp del: set_map)
next
  case (Cons pt es)
  obtain point task where pt: "pt = (point, task)" by fastforce
  have point: "point \<in> set (dkeys rq)" using Cons.prems(2) pt by simp
  have "at (b_squash b) point \<union> set task \<subseteq> scene_above c rq point"
    using Cons.prems(3) pt by (auto simp: sound_inv_def)
  then have "at (b_squash b) point \<union> set task \<subseteq> set (scene_tids c)" using scene_above_scene by blast
  from process_point_effect [OF Cons.prems(1) point graph_ok_closed [OF g] this, of new]
  obtain new1 b1 where one: "process_point c rq (point, task) (new, b) = (Inr (), new1, b1)"
    and eff: "point_effect c rq point task new b new1 b1" by blast
  let ?P = "if point \<in> set (scene_tids c) then P else insert point P"
  have keys: "squash_keys c rq b1" using eff by (simp add: point_effect_def Let_def)
  have sound: "sound_inv c rq (es @ new1) b1"
    using sound_step [OF eff _ graph_ok_closed [OF g]] Cons.prems(3) pt by simp
  have deliver: "deliver_inv c rq es b1" using deliver_step [OF eff] Cons.prems(4) pt by simp
  have topo: "topo_inv c rq ?P (fst ` set es \<union> set (dkeys new1)) b1"
    using topo_step [OF eff _ g] Cons.prems(5) pt by (simp del: set_map)
  have sub: "set (dkeys new1) \<subseteq> set (dkeys new) \<union> deps_set rq point"
  proof (cases "point \<in> set (scene_tids c)")
    case False
    note eff [unfolded point_effect_def Let_def if_not_P [OF False]]
    then show ?thesis by blast
  qed (use eff in \<open>simp add: point_effect_def Let_def\<close>)
  have "fst ` set es \<subseteq> set (dkeys rq)" using Cons.prems(2) by simp
  from Cons.IH [OF keys this sound deliver topo] obtain new' b' P' where
    "foreach (process_point c rq) es (new1, b1) = (Inr (), new', b')" "squash_keys c rq b'"
    "sound_inv c rq new' b'" "deliver_inv c rq [] b'" "topo_inv c rq P' (set (dkeys new')) b'"
    "set (dkeys new') \<subseteq> set (dkeys new1) \<union> (\<Union>p \<in> fst ` set es. deps_set rq p)" by blast
  then show ?case using one pt sub by (intro exI conjI, simp) (assumption | force simp del: set_map)+
qed

lemma deliver_more: "deliver_inv c rq [] b \<Longrightarrow> deliver_inv c rq es b"
  by (auto simp: deliver_inv_def arrived_at_def)

lemma endpoints_result:
  assumes g: "graph_ok rq" and ac: "acyclic (dep_rel rq)"
  shows "squash_keys c rq b \<Longrightarrow> fst ` set es \<subseteq> set (dkeys rq) \<Longrightarrow> sound_inv c rq es b \<Longrightarrow>
    deliver_inv c rq es b \<Longrightarrow> topo_inv c rq P (fst ` set es) b \<Longrightarrow> \<forall>p \<in> fst ` set es. card (below rq p) < k \<Longrightarrow> 0 < k \<Longrightarrow>
    \<exists>b' P'. process_endpoints k c rq es b = (Inr (), b') \<and> squash_keys c rq b' \<and>
      sound_inv c rq [] b' \<and> deliver_inv c rq [] b' \<and> topo_inv c rq P' {} b'"
proof (induction k arbitrary: es b P)
  case (Suc k)
  have "sound_inv c rq (es @ []) b" "topo_inv c rq P (fst ` set es \<union> set (dkeys ([] :: endpoints))) b"
    using Suc.prems(3,5) by simp_all
  from round_result [OF g Suc.prems(1,2) this(1) Suc.prems(4) this(2)]
  obtain new b1 P1 where r: "process_round c rq es b = (Inr (), new, b1)" "squash_keys c rq b1"
    "sound_inv c rq new b1" "deliver_inv c rq [] b1" "topo_inv c rq P1 (set (dkeys new)) b1"
    "set (dkeys new) \<subseteq> (\<Union>p \<in> fst ` set es. deps_set rq p)"
    by (auto simp: process_round_def simp del: set_map)
  show ?case
  proof (cases "new = []")
    case True
    then show ?thesis using r by auto
  next
    case False
    have less: "\<forall>p \<in> fst ` set new. card (below rq p) < k"
    proof
      fix p assume "p \<in> fst ` set new"
      then have "p \<in> set (dkeys new)" by simp
      then obtain q where q: "q \<in> fst ` set es" "p \<in> deps_set rq q" using r(6) by blast
      have "finite (below rq q)" using below_keys [OF graph_ok_closed [OF g], of q] by (rule finite_subset) simp
      then have "card (below rq p) < card (below rq q)" by (rule psubset_card_mono [OF _ below_psubset [OF ac q(2)]])
      then show "card (below rq p) < k" using Suc.prems(6) q(1) by fastforce
    qed
    have keys: "fst ` set new \<subseteq> set (dkeys rq)"
    proof
      fix p assume "p \<in> fst ` set new"
      then have "p \<in> set (dkeys new)" by simp
      then obtain q where "p \<in> deps_set rq q" using r(6) by blast
      then show "p \<in> set (dkeys rq)" using graph_ok_closed [OF g] unfolding closed_queue_def by blast
    qed
    have "0 < k" using less False by (cases new) auto
    have "topo_inv c rq P1 (fst ` set new) b1" using r(5) by simp
    from Suc.IH [OF r(2) keys r(3) deliver_more [OF r(4)] this less \<open>0 < k\<close>]
    have "\<exists>b' P'. process_endpoints k c rq new b1 = (Inr (), b') \<and> squash_keys c rq b' \<and>
      sound_inv c rq [] b' \<and> deliver_inv c rq [] b' \<and> topo_inv c rq P' {} b'" .
    moreover have "process_endpoints (Suc k) c rq es b = process_endpoints k c rq new b1"
      using r(1) False by simp
    ultimately show ?thesis by simp
  qed
qed simp

text \<open>At the end every real task has been an end point, and nothing is left at one.\<close>

lemma topo_end:
  assumes g: "graph_ok rq" and ac: "acyclic (dep_rel rq)" and inv: "topo_inv c rq P {} b"
    and p: "p \<in> set (dkeys rq)" "p \<notin> set (scene_tids c)"
  shows "at (b_squash b) p = {}"
proof -
  let ?S = "set (scene_tids c)"
  have t1: "at (b_revdeps b) q = {r \<in> set (revdeps_of rq q). r \<notin> ?S \<and> r \<notin> P}" for q
    using inv by (simp add: topo_inv_def Let_def)
  have t2: "q \<in> P" if "q \<in> set (dkeys rq) - ?S" "at (b_revdeps b) q = {}" for q
    using inv that unfolding topo_inv_def Let_def by blast
  have rev: "(r, q) \<in> dep_rel rq \<longleftrightarrow> r \<in> set (revdeps_of rq q)" for r q
    using g by (simp add: dep_rel_def graph_ok_def)
  have wf: "wf (dep_rel rq)" using finite_dep_rel ac by (rule finite_acyclic_wf)
  have all: "q \<in> set (dkeys rq) - ?S \<longrightarrow> q \<in> P" for q
  proof (induction q rule: wf_induct_rule [OF wf])
    case (1 q)
    show ?case
    proof
      assume q: "q \<in> set (dkeys rq) - ?S"
      have "r \<in> set (dkeys rq)" if "r \<in> set (revdeps_of rq q)" for r
        using that g unfolding graph_ok_def by blast
      then have "at (b_revdeps b) q = {}" unfolding t1 using 1 rev by blast
      with q show "q \<in> P" by (rule t2)
    qed
  qed
  have "r \<in> set (dkeys rq)" if "r \<in> set (revdeps_of rq p)" for r
    using that g unfolding graph_ok_def by blast
  then have "at (b_revdeps b) p = {}" unfolding t1 using all by blast
  then show ?thesis using inv p unfolding topo_inv_def Let_def by blast
qed

section \<open>The first end points\<close>

lemma cut_deps:
  assumes "set ds \<subseteq> set (dkeys (b_revdeps b))"
  shows "\<exists>es' b'. foreach (cut_dep tid) ds (es, b) = (Inr (), es', b') \<and>
    b_collated b' = b_collated b \<and> b_squash b' = b_squash b \<and>
    set (dkeys (b_revdeps b')) = set (dkeys (b_revdeps b)) \<and>
    (\<forall>p. at (b_revdeps b') p = at (b_revdeps b) p - (if p \<in> set ds then {tid} else {})) \<and>
    (\<forall>p. at es' p = at es p \<union> (if p \<in> set ds then {tid} else {})) \<and>
    set (dkeys es') = set (dkeys es) \<union> set ds \<and> (wf_dict es \<longrightarrow> wf_dict es')"
  using assms
proof (induction ds arbitrary: es b)
  case (Cons d ds)
  let ?es = "dset d (append_new tid (dget_or es d [])) es"
  let ?b = "b\<lparr>b_revdeps := dset d (remove_from tid (dget_or (b_revdeps b) d [])) (b_revdeps b)\<rparr>"
  have d: "d \<in> set (dkeys (b_revdeps b))" using Cons.prems by simp
  have one: "cut_dep tid d (es, b) = (Inr (), ?es, ?b)" by (simp add: cut_dep_def with_key_in [OF d] del: set_map)
  have keys: "set (dkeys (b_revdeps ?b)) = set (dkeys (b_revdeps b))" using d by auto
  have "set ds \<subseteq> set (dkeys (b_revdeps ?b))" using Cons.prems keys by auto
  from Cons.IH [OF this, of ?es] obtain es' b' where r: "foreach (cut_dep tid) ds (?es, ?b) = (Inr (), es', b')"
    "b_collated b' = b_collated b" "b_squash b' = b_squash b"
    "set (dkeys (b_revdeps b')) = set (dkeys (b_revdeps b))"
    "\<And>p. at (b_revdeps b') p = at (b_revdeps ?b) p - (if p \<in> set ds then {tid} else {})"
    "\<And>p. at es' p = at ?es p \<union> (if p \<in> set ds then {tid} else {})"
    "set (dkeys es') = set (dkeys ?es) \<union> set ds" "wf_dict ?es \<longrightarrow> wf_dict es'"
    unfolding keys by auto
  have rv: "at (b_revdeps ?b) p = at (b_revdeps b) p - (if p = d then {tid} else {})" for p
    by (auto simp: at_def)
  have ee: "at ?es p = at es p \<union> (if p = d then {tid} else {})" for p by (auto simp: at_def)
  show ?case
  proof (intro exI conjI allI)
    show "foreach (cut_dep tid) (d # ds) (es, b) = (Inr (), es', b')" using one r(1) by simp
    show "at (b_revdeps b') p = at (b_revdeps b) p - (if p \<in> set (d # ds) then {tid} else {})" for p
      unfolding r(5) rv by auto
    show "at es' p = at es p \<union> (if p \<in> set (d # ds) then {tid} else {})" for p
      unfolding r(6) ee by auto
    show "set (dkeys es') = set (dkeys es) \<union> set (d # ds)" unfolding r(7) by simp
  qed (use r in auto)
qed auto

lemma cut_scenes:
  assumes "set tids \<subseteq> set (dkeys rq)" "closed_queue rq" "set (dkeys (b_revdeps b)) = set (dkeys rq)"
    and "wf_dict es" "\<forall>s. at (b_collated b) s = {}"
  shows "\<exists>es' b'. foreach (cut_scene rq) tids (es, b) = (Inr (), es', b') \<and>
    b_squash b' = b_squash b \<and> set (dkeys (b_revdeps b')) = set (dkeys rq) \<and>
    set (dkeys (b_collated b')) = set (dkeys (b_collated b)) \<union> set tids \<and> (\<forall>s. at (b_collated b') s = {}) \<and>
    (\<forall>p. at (b_revdeps b') p = at (b_revdeps b) p - {t \<in> set tids. p \<in> deps_set rq t}) \<and>
    (\<forall>p. at es' p = at es p \<union> {t \<in> set tids. p \<in> deps_set rq t}) \<and>
    set (dkeys es') = set (dkeys es) \<union> (\<Union>t \<in> set tids. deps_set rq t) \<and> wf_dict es'"
  using assms
proof (induction tids arbitrary: es b)
  case (Cons t tids)
  let ?b = "b\<lparr>b_collated := dset t [] (b_collated b)\<rparr>"
  obtain e where e: "dget rq t = Some e" using Cons.prems(1) dget_in_dkeys [of t rq] by auto
  have D: "set (depends e) = deps_set rq t" by (rule depends_entry [OF e])
  have "set (depends e) \<subseteq> set (dkeys (b_revdeps ?b))"
    using D Cons.prems(2,3) unfolding closed_queue_def by simp
  from cut_deps [OF this, of t es] obtain es1 b1 where
    c: "foreach (cut_dep t) (depends e) (es, ?b) = (Inr (), es1, b1)"
    "b_collated b1 = dset t [] (b_collated b)" "b_squash b1 = b_squash b"
    "set (dkeys (b_revdeps b1)) = set (dkeys (b_revdeps b))"
    "\<And>p. at (b_revdeps b1) p = at (b_revdeps b) p - (if p \<in> deps_set rq t then {t} else {})"
    "\<And>p. at es1 p = at es p \<union> (if p \<in> deps_set rq t then {t} else {})"
    "set (dkeys es1) = set (dkeys es) \<union> deps_set rq t" "wf_dict es1"
    using Cons.prems(4) unfolding D by auto
  have one: "cut_scene rq t (es, b) = (Inr (), es1, b1)"
    using c(1) by (simp add: cut_scene_def Let_def with_key_Some [OF e])
  have "\<forall>s. at (b_collated b1) s = {}" using c(2) Cons.prems(5) by simp
  from Cons.IH [OF _ Cons.prems(2) _ c(8) this] c(4) Cons.prems(1,3)
  obtain es' b' where r: "foreach (cut_scene rq) tids (es1, b1) = (Inr (), es', b')"
    "b_squash b' = b_squash b1" "set (dkeys (b_revdeps b')) = set (dkeys rq)"
    "set (dkeys (b_collated b')) = set (dkeys (b_collated b1)) \<union> set tids" "\<forall>s. at (b_collated b') s = {}"
    "\<And>p. at (b_revdeps b') p = at (b_revdeps b1) p - {t \<in> set tids. p \<in> deps_set rq t}"
    "\<And>p. at es' p = at es1 p \<union> {t \<in> set tids. p \<in> deps_set rq t}"
    "set (dkeys es') = set (dkeys es1) \<union> (\<Union>t \<in> set tids. deps_set rq t)" "wf_dict es'"
    by auto
  show ?case
  proof (intro exI conjI allI)
    show "foreach (cut_scene rq) (t # tids) (es, b) = (Inr (), es', b')" using one r(1) by simp
    show "at (b_revdeps b') p = at (b_revdeps b) p - {x \<in> set (t # tids). p \<in> deps_set rq x}" for p
      unfolding r(6) c(5) by auto
    show "at es' p = at es p \<union> {x \<in> set (t # tids). p \<in> deps_set rq x}" for p
      unfolding r(7) c(6) by auto
    show "set (dkeys es') = set (dkeys es) \<union> (\<Union>x \<in> set (t # tids). deps_set rq x)"
      unfolding r(8) c(7) by auto
    show "set (dkeys (b_collated b')) = set (dkeys (b_collated b)) \<union> set (t # tids)"
      unfolding r(4) c(2) by auto
  qed (use r c(3) in auto)
qed auto

lemma wf_dict_map_filter:
  "wf_dict rq \<Longrightarrow> wf_dict (map (\<lambda>(t, e). (t, f e)) (filter P rq))"
  by (induction rq) (auto simp: wf_dict_def image_iff)

lemma init_squash_simps:
  "dkeys (b_revdeps (init_squash c rq)) = dkeys rq" "dkeys (b_squash (init_squash c rq)) = dkeys rq"
  "at (b_squash (init_squash c rq)) p = {}" "b_collated (init_squash c rq) = []"
  "at (b_revdeps (init_squash c rq)) p = set (revdeps_of rq p)"
proof -
  show "dkeys (b_revdeps (init_squash c rq)) = dkeys rq" "dkeys (b_squash (init_squash c rq)) = dkeys rq"
    "b_collated (init_squash c rq) = []"
    by (simp_all add: init_squash_def case_prod_unfold)
  show "at (b_squash (init_squash c rq)) p = {}"
    by (induction rq) (auto simp: init_squash_def at_def dget_or_def split: option.splits)
  show "at (b_revdeps (init_squash c rq)) p = set (revdeps_of rq p)"
    by (induction rq) (auto simp: init_squash_def at_def dget_or_def revdeps_of_def split: option.splits)
qed

lemma at_ex: "s \<in> at d p \<Longrightarrow> \<exists>ts. (p, ts) \<in> set d \<and> s \<in> set ts"
  by (cases "dget d p") (auto simp: at_def dget_or_def dest: map_of_SomeD)

lemma init_endpoints_simps:
  "at (init_endpoints c rq) p = {}"
  "wf_dict rq \<Longrightarrow> wf_dict (init_endpoints c rq)"
  "set (dkeys (init_endpoints c rq)) \<subseteq> set (dkeys rq)"
  "p \<in> set (dkeys rq) \<Longrightarrow> p \<notin> set (scene_tids c) \<Longrightarrow> revdeps_of rq p = [] \<Longrightarrow> wf_dict rq \<Longrightarrow>
     p \<in> set (dkeys (init_endpoints c rq))"
proof -
  show "at (init_endpoints c rq) p = {}"
    by (auto simp: init_endpoints_def dest!: at_ex)
  show "wf_dict rq \<Longrightarrow> wf_dict (init_endpoints c rq)"
    unfolding init_endpoints_def by (rule wf_dict_map_filter)
  show "set (dkeys (init_endpoints c rq)) \<subseteq> set (dkeys rq)"
    by (force simp: init_endpoints_def)
  assume p: "p \<in> set (dkeys rq)" "p \<notin> set (scene_tids c)" "revdeps_of rq p = []" "wf_dict rq"
  then obtain e where e: "(p, e) \<in> set rq" by auto
  then have "revdeps e = []" using p(3,4) by (simp add: revdeps_of_def wf_dict_def)
  then show "p \<in> set (dkeys (init_endpoints c rq))" using e p(2) by (force simp: init_endpoints_def)
qed

lemma first_endpoints:
  assumes g: "graph_ok rq" and S: "set (scene_tids c) \<subseteq> set (dkeys rq)"
  shows "\<exists>es b. foreach (cut_scene rq) (scene_tids c) (init_endpoints c rq, init_squash c rq) = (Inr (), es, b) \<and>
    squash_keys c rq b \<and> fst ` set es \<subseteq> set (dkeys rq) \<and> sound_inv c rq es b \<and> deliver_inv c rq es b \<and>
    topo_inv c rq {} (fst ` set es) b"
proof -
  let ?S = "set (scene_tids c)"
  have wf: "wf_dict rq" using g by (simp add: graph_ok_def)
  have cl: "closed_queue rq" using g by (rule graph_ok_closed)
  have rev: "r \<in> set (revdeps_of rq p) \<longleftrightarrow> p \<in> deps_set rq r" for r p
    using g by (simp add: graph_ok_def deps_set_def)
  have "set (dkeys (b_revdeps (init_squash c rq))) = set (dkeys rq)"
    "\<forall>s. at (b_collated (init_squash c rq)) s = {}"
    by (simp_all add: init_squash_simps at_def del: set_map)
  from cut_scenes [OF S cl this(1) init_endpoints_simps(2) [OF wf, of c] this(2)]
  obtain es b where r: "foreach (cut_scene rq) (scene_tids c) (init_endpoints c rq, init_squash c rq) = (Inr (), es, b)"
    "b_squash b = b_squash (init_squash c rq)" "set (dkeys (b_revdeps b)) = set (dkeys rq)"
    "set (dkeys (b_collated b)) = ?S" "\<And>s. at (b_collated b) s = {}"
    "\<And>p. at (b_revdeps b) p = set (revdeps_of rq p) - {t \<in> ?S. p \<in> deps_set rq t}"
    "\<And>p. at es p = {t \<in> ?S. p \<in> deps_set rq t}"
    "set (dkeys es) = set (dkeys (init_endpoints c rq)) \<union> (\<Union>t \<in> ?S. deps_set rq t)" "wf_dict es"
    unfolding init_squash_simps init_endpoints_simps(1) by auto
  have sq: "at (b_squash b) p = {}" for p using r(2) by (simp add: init_squash_simps)
  have rv: "at (b_revdeps b) p = {r \<in> set (revdeps_of rq p). r \<notin> ?S \<and> r \<notin> {}}" for p
    unfolding r(6) using rev by blast
  have keys: "set (dkeys es) \<subseteq> set (dkeys rq)"
    unfolding r(8) using init_endpoints_simps(3) [of c rq] cl unfolding closed_queue_def by blast
  have "sound_inv c rq es b"
    unfolding sound_inv_def sq r(5)
    using at_in [OF r(9)] r(7) by (auto simp: scene_above_def intro: above.direct)
  moreover have "deliver_inv c rq es b"
    unfolding deliver_inv_def arrived_at_def sq r(5) using r(7) at_ex [of _ es] by blast
  moreover have "topo_inv c rq {} (set (dkeys es)) b"
    unfolding topo_inv_def Let_def
  proof (intro conjI allI ballI impI)
    fix p assume p: "p \<in> set (dkeys rq) - ?S"
    assume e: "at (b_revdeps b) p = {}"
    show "p \<in> {} \<or> p \<in> set (dkeys es)"
    proof (cases "revdeps_of rq p = []")
      case True
      with p init_endpoints_simps(4) [of p rq c] wf show ?thesis unfolding r(8) by blast
    next
      case False
      then obtain t where "t \<in> set (revdeps_of rq p)" by (cases "revdeps_of rq p") auto
      then have "p \<in> deps_set rq t" "t \<in> ?S" using e rev [of t p] unfolding rv by blast+
      then show ?thesis unfolding r(8) by blast
    qed
  qed (use rv sq in blast)+
  moreover have "squash_keys c rq b"
    using r(2-4) by (simp add: squash_keys_def init_squash_simps del: set_map)
  ultimately show ?thesis using r(1) keys by auto
qed

section \<open>The result\<close>

lemma collapse_result:
  assumes g: "graph_ok rq" and ac: "acyclic (dep_rel rq)" and S: "set (scene_tids c) \<subseteq> set (dkeys rq)"
  shows "\<exists>b. collapse c rq = (Inr (), b) \<and> squash_keys c rq b \<and>
    (\<forall>p. at (b_squash b) p = (if p \<in> set (scene_tids c) then scene_above c rq p else {})) \<and>
    (\<forall>s. at (b_collated b) s = covers c rq s)"
proof -
  let ?S = "set (scene_tids c)"
  have cl: "closed_queue rq" using g by (rule graph_ok_closed)
  obtain es b0 where f: "foreach (cut_scene rq) (scene_tids c) (init_endpoints c rq, init_squash c rq) = (Inr (), es, b0)"
    "squash_keys c rq b0" "fst ` set es \<subseteq> set (dkeys rq)" "sound_inv c rq es b0" "deliver_inv c rq es b0"
    "topo_inv c rq {} (fst ` set es) b0"
    using first_endpoints [OF g S] by blast
  have "card (below rq p) < Suc (length rq)" for p
  proof -
    have "card (below rq p) \<le> card (set (dkeys rq))" using below_keys [OF cl] by (intro card_mono) auto
    also have "\<dots> \<le> length rq" using card_length [of "dkeys rq"] by simp
    finally show ?thesis by simp
  qed
  then obtain b P where b: "process_endpoints (Suc (length rq)) c rq es b0 = (Inr (), b)" "squash_keys c rq b"
    "sound_inv c rq [] b" "deliver_inv c rq [] b" "topo_inv c rq P {} b"
    using endpoints_result [OF g ac f(2-6), of "Suc (length rq)"] by blast
  have left: "at (b_squash b) p = {}" if "p \<notin> ?S" for p
  proof (cases "p \<in> set (dkeys rq)")
    case True
    show ?thesis by (rule topo_end [OF g ac b(5) True that])
  next
    case False
    then show ?thesis using b(2) unfolding squash_keys_def by (intro at_out) simp
  qed
  have arr: "above rq ?S s p \<Longrightarrow> arrived_at c [] b s p" for s p
  proof (induction rule: above.induct)
    case (direct s p)
    then show ?case using b(4) unfolding deliver_inv_def by blast
  next
    case (through s q p)
    then have "q \<in> at (b_collated b) s" using left [of q] unfolding arrived_at_def by simp
    then show ?case using through b(4) above_scene unfolding deliver_inv_def by blast
  qed
  have "at (b_squash b) p = (if p \<in> ?S then scene_above c rq p else {})" for p
  proof (cases "p \<in> ?S")
    case True
    have "at (b_squash b) p \<subseteq> scene_above c rq p" using b(3) unfolding sound_inv_def by blast
    moreover have "scene_above c rq p \<subseteq> at (b_squash b) p"
      using arr [of _ p] True unfolding scene_above_def arrived_at_def by auto
    ultimately show ?thesis using True by simp
  qed (simp add: left)
  moreover have "at (b_collated b) s = covers c rq s" for s
  proof
    show "at (b_collated b) s \<subseteq> covers c rq s" using b(3) unfolding sound_inv_def by blast
    show "covers c rq s \<subseteq> at (b_collated b) s"
      using arr [of s] left unfolding covers_def arrived_at_def by auto
  qed
  moreover have "collapse c rq = (Inr (), b)" using f(1) b(1) by (simp add: collapse_def)
  ultimately show ?thesis using b(2) by blast
qed

lemma reverse_one:
  assumes "set ds \<subseteq> set (dkeys d)"
  shows "\<exists>d'. foreach (\<lambda>dep d. with_key d dep d (\<lambda>ts. (Inr (), dset dep (append_new tid ts) d))) ds d = (Inr (), d') \<and>
    set (dkeys d') = set (dkeys d) \<and> (\<forall>p. at d' p = at d p \<union> (if p \<in> set ds then {tid} else {}))"
  using assms
proof (induction ds arbitrary: d)
  case (Cons x ds)
  let ?d = "dset x (append_new tid (dget_or d x [])) d"
  have x: "x \<in> set (dkeys d)" using Cons.prems by simp
  have keys: "set (dkeys ?d) = set (dkeys d)" using x by auto
  have "set ds \<subseteq> set (dkeys ?d)" using Cons.prems keys by auto
  from Cons.IH [OF this] obtain d' where r:
    "foreach (\<lambda>dep d. with_key d dep d (\<lambda>ts. (Inr (), dset dep (append_new tid ts) d))) ds ?d = (Inr (), d')"
    "set (dkeys d') = set (dkeys d)" "\<And>p. at d' p = at ?d p \<union> (if p \<in> set ds then {tid} else {})"
    unfolding keys by blast
  have a: "at ?d p = at d p \<union> (if p = x then {tid} else {})" for p by (auto simp: at_def)
  have "at d' p = at d p \<union> (if p \<in> set (x # ds) then {tid} else {})" for p unfolding r(3) a by auto
  then show ?case using r(1,2) by (intro exI [of _ d'] conjI) (simp_all add: with_key_in [OF x] del: set_map)
qed auto

lemma reverse_deps_result:
  assumes "wf_dict rv" "\<And>t. at rv t \<subseteq> set (dkeys rv)"
  shows "\<exists>ds. reverse_deps rv = (Inr (), ds) \<and> (\<forall>p. at ds p = {t. p \<in> at rv t})"
proof -
  let ?f = "\<lambda>(tid, ds). foreach (\<lambda>dep d. with_key d dep d (\<lambda>ts. (Inr (), dset dep (append_new tid ts) d))) ds"
  let ?K = "set (dkeys rv)"
  have "set xs \<subseteq> set rv \<Longrightarrow> set (dkeys d) = ?K \<Longrightarrow>
      \<exists>d'. foreach ?f xs d = (Inr (), d') \<and> set (dkeys d') = ?K \<and>
        (\<forall>p. at d' p = at d p \<union> {t. \<exists>ds. (t, ds) \<in> set xs \<and> p \<in> set ds})" for xs d
  proof (induction xs arbitrary: d)
    case (Cons x xs)
    obtain t ds where x: "x = (t, ds)" by fastforce
    have "set ds = at rv t" using Cons.prems(1) x at_in [OF assms(1), of t ds] by simp
    then have "set ds \<subseteq> set (dkeys d)" using assms(2) Cons.prems(2) by simp
    from reverse_one [OF this, of t] obtain d1 where one: "?f x d = (Inr (), d1)"
      "set (dkeys d1) = ?K" "\<forall>p. at d1 p = at d p \<union> (if p \<in> set ds then {t} else {})"
      using x Cons.prems(2) by auto
    obtain d' where r: "foreach ?f xs d1 = (Inr (), d')" "set (dkeys d') = ?K"
      "\<forall>p. at d' p = at d1 p \<union> {t. \<exists>ds. (t, ds) \<in> set xs \<and> p \<in> set ds}"
      using Cons.IH [OF _ one(2)] Cons.prems(1) by auto
    have "at d' p = at d p \<union> {t. \<exists>ds. (t, ds) \<in> set (x # xs) \<and> p \<in> set ds}" for p
      using r(3) one(3) x by auto
    moreover have "foreach ?f (x # xs) d = (Inr (), d')" using one(1) r(1) by (simp del: split_paired_All)
    ultimately show ?case using r(2) by blast
  qed auto
  from this [of rv "map (\<lambda>(tid, _). (tid, [])) rv"] obtain ds where r: "reverse_deps rv = (Inr (), ds)"
    "\<And>p. at ds p = at (map (\<lambda>(tid, _). (tid, [])) rv) p \<union> {t. \<exists>ds. (t, ds) \<in> set rv \<and> p \<in> set ds}"
    by (auto simp: reverse_deps_def case_prod_unfold image_image)
  have "at (map (\<lambda>(tid, _). (tid, [] :: string list)) rv) p = {}" for p by (auto dest!: at_ex)
  then have "at ds p = {t. p \<in> at rv t}" for p
    unfolding r(2) using at_in [OF assms(1)] at_ex [of p rv] by auto
  with r(1) show ?thesis by blast
qed

lemma defer_task_step [simp]: "scene_step s (snd (defer_task c mc tid s))"
  by (auto simp: defer_task_def scene_step_defs split: sum.splits option.splits)

lemma defer_equal_step [simp]: "scene_step s (snd (defer_equal c s))"
  unfolding defer_equal_def by (intro scene.rules) simp

lemma at_filter:
  "at (filter (\<lambda>(t, _). P t) d) p = (if P p then at d p else {})"
  by (induction d) (auto simp: at_def dget_or_def split: option.splits)

lemma unskip_loop_step: "unskip_step s (snd (unskip_loop c s))"
proof (induction c s rule: unskip_loop.induct)
  case (1 c s)
  obtain r s1 where r: "unskip_round c s = (r, s1)" by fastforce
  have one: "unskip_step s s1" using unskip_round_step [of s c] r by simp
  show ?case
  proof (cases r)
    case (Inr u)
    show ?thesis
    proof (cases "set (unskippable (sqd s1)) = set (unskippable (sqd s))")
      case False
      then have "unskip_step s1 (snd (unskip_loop c s1))" using 1 r Inr by simp
      then show ?thesis using one r Inr False unskip.trans by (simp add: unskip_loop.simps [of c s])
    qed (use one r Inr in \<open>simp add: unskip_loop.simps [of c s]\<close>)
  qed (use one r in \<open>simp add: unskip_loop.simps [of c s]\<close>)
qed

lemma graph_of_squash_result:
  assumes keys: "squash_keys c rq b" and wf: "wf_dict rq"
    and sq: "\<And>p. at (b_squash b) p = (if p \<in> set (scene_tids c) then scene_above c rq p else {})"
    and S: "set (scene_tids c) \<subseteq> set (dkeys rq)"
  shows "\<exists>d'. graph_of_squash c b d = (Inr (), d') \<and> sq_covered_tasks d' = b_collated b \<and>
    set (dkeys (sq_revdeps d')) = set (scene_tids c) \<and>
    (\<forall>p. at (sq_revdeps d') p = (if p \<in> set (scene_tids c) then scene_above c rq p else {})) \<and>
    (\<forall>p. at (sq_deps d') p = {q \<in> set (scene_tids c). p \<in> scene_above c rq q})"
proof -
  let ?rv = "filter (\<lambda>(t, _). t \<in> set (scene_tids c)) (b_squash b)"
  have at_rv: "at ?rv p = (if p \<in> set (scene_tids c) then scene_above c rq p else {})" for p
    using at_filter [of "\<lambda>t. t \<in> set (scene_tids c)" "b_squash b" p] sq by simp
  have "dkeys ?rv = filter (\<lambda>t. t \<in> set (scene_tids c)) (dkeys (b_squash b))"
    by (simp add: filter_map case_prod_unfold comp_def)
  also have "dkeys (b_squash b) = dkeys rq" using keys by (simp add: squash_keys_def)
  finally have k: "set (dkeys ?rv) = set (scene_tids c)" "wf_dict ?rv"
    using S wf by (auto simp: wf_dict_def)
  have "at ?rv t \<subseteq> set (dkeys ?rv)" for t unfolding at_rv k(1) using scene_above_scene by simp
  from reverse_deps_result [OF k(2) this] obtain ds where
    ds: "reverse_deps ?rv = (Inr (), ds)" "\<And>p. at ds p = {t. p \<in> at ?rv t}" by blast
  have "at ds p = {q \<in> set (scene_tids c). p \<in> scene_above c rq q}" for p
    unfolding ds(2) at_rv by auto
  with ds(1) at_rv k(1) show ?thesis by (simp add: graph_of_squash_def Let_def del: set_map)
qed

lemma build_scenequeue_sqd:
  assumes g: "graph_ok (x_rq s)" "acyclic (dep_rel (x_rq s))" "set (scene_tids c) \<subseteq> set (dkeys (x_rq s))"
    and r: "build_scenequeue_data c s = (Inr (), t)"
  shows "set (dkeys (sq_revdeps (sqd t))) = set (scene_tids c)"
    "p \<in> set (scene_tids c) \<Longrightarrow> at (sq_revdeps (sqd t)) p = scene_above c (x_rq s) p"
    "at (sq_covered_tasks (sqd t)) p = covers c (x_rq s) p"
    "at (sq_deps (sqd t)) p = {q \<in> set (scene_tids c). p \<in> scene_above c (x_rq s) q}"
proof -
  obtain b where b: "collapse c (x_rq s) = (Inr (), b)" "squash_keys c (x_rq s) b"
    "\<And>p. at (b_squash b) p = (if p \<in> set (scene_tids c) then scene_above c (x_rq s) p else {})"
    "\<And>p. at (b_collated b) p = covers c (x_rq s) p" using collapse_result [OF g] by blast
  have wf: "wf_dict (x_rq s)" using g(1) by (simp add: graph_ok_def)
  obtain s1 where s1: "unskip_loop c (s\<lparr>sqd := start_unskippable c (x_rq s)\<rparr>) = (Inr (), s1)"
    using r b(1) by (auto simp: build_scenequeue_data_def seq_st_Inr)
  let ?s2 = "s1\<lparr>tasks_scenequeue_done :=
      add_all (filter (\<lambda>t. t \<notin> set (scene_tids c)) (unskippable (sqd s1))) (tasks_scenequeue_done s1)\<rparr>"
  obtain d where d: "foreach (hard_deps_of c (x_rq ?s2)) (scene_tids c) (sqd ?s2) = (Inr (), d)"
    using r b(1) s1
    by (auto simp: build_scenequeue_data_def Let_def split: if_splits prod.splits sum.splits)
  obtain d' where d': "graph_of_squash c b d = (Inr (), d')" "sq_covered_tasks d' = b_collated b"
    "set (dkeys (sq_revdeps d')) = set (scene_tids c)"
    "\<And>p. at (sq_revdeps d') p = (if p \<in> set (scene_tids c) then scene_above c (x_rq s) p else {})"
    "\<And>p. at (sq_deps d') p = {q \<in> set (scene_tids c). p \<in> scene_above c (x_rq s) q}"
    using graph_of_squash_result [OF b(2) wf b(3) g(3)] by blast
  let ?s3 = "?s2\<lparr>sqd := d', sq_deferred := [],
      sq_buildable := add_all (map fst (filter (\<lambda>(t, ts). ts = []) (sq_revdeps d'))) (sq_buildable ?s2)\<rparr>"
  have "defer_equal c ?s3 = (Inr (), t)"
    using r b(1) s1 d d'(1) by (simp add: build_scenequeue_data_def Let_def split: if_splits)
  then have "graph_part (sqd t) = graph_part d'"
    using defer_equal_step [of ?s3 c] by (simp add: scene_step_def scene_part_def)
  then have "sq_revdeps (sqd t) = sq_revdeps d'" "sq_deps (sqd t) = sq_deps d'"
    "sq_covered_tasks (sqd t) = b_collated b" using d'(2) by (simp_all add: graph_part_def)
  then show "set (dkeys (sq_revdeps (sqd t))) = set (scene_tids c)"
    "p \<in> set (scene_tids c) \<Longrightarrow> at (sq_revdeps (sqd t)) p = scene_above c (x_rq s) p"
    "at (sq_covered_tasks (sqd t)) p = covers c (x_rq s) p"
    "at (sq_deps (sqd t)) p = {q \<in> set (scene_tids c). p \<in> scene_above c (x_rq s) q}"
    using d'(3-5) b(4) by simp_all
qed

text \<open>
  C11: on an acyclic queue the construction of the setscene graph ends without its "something went
  badly wrong"; in the graph it builds, the tasks recorded above a setscene task are exactly the setscene tasks
  that depend on it through real tasks only, the dependencies are their converse, and a setscene
  task covers exactly the real tasks it reaches that way.
\<close>

theorem build_scenequeue_correct:
  assumes "graph_ok (x_rq s)" "acyclic (dep_rel (x_rq s))" "set (scene_tids c) \<subseteq> set (dkeys (x_rq s))"
  shows "(\<exists>b. collapse c (x_rq s) = (Inr (), b) \<and> \<not> squash_leftover c (x_rq s) b) \<and>
    (\<forall>t p. build_scenequeue_data c s = (Inr (), t) \<longrightarrow> p \<in> set (scene_tids c) \<longrightarrow>
       at (sq_revdeps (sqd t)) p = {q. above (x_rq s) (set (scene_tids c)) q p} \<and>
       at (sq_deps (sqd t)) p = {q \<in> set (scene_tids c). above (x_rq s) (set (scene_tids c)) p q} \<and>
       at (sq_covered_tasks (sqd t)) p =
         {q. q \<notin> set (scene_tids c) \<and> above (x_rq s) (set (scene_tids c)) p q})"
proof (intro conjI allI impI)
  obtain b where b: "collapse c (x_rq s) = (Inr (), b)"
    "\<And>p. at (b_squash b) p = (if p \<in> set (scene_tids c) then scene_above c (x_rq s) p else {})"
    using collapse_result [OF assms] by blast
  have "\<not> squash_leftover c (x_rq s) b"
  proof -
    have "dget_or (b_squash b) p [] = []" if "p \<notin> set (scene_tids c)" for p
      using b(2) [of p] that by (simp add: at_def)
    then show ?thesis by (auto simp: squash_leftover_def list_ex_iff)
  qed
  with b(1) show "\<exists>b. collapse c (x_rq s) = (Inr (), b) \<and> \<not> squash_leftover c (x_rq s) b" by blast
next
  fix t p assume "build_scenequeue_data c s = (Inr (), t)" "p \<in> set (scene_tids c)"
  then show "at (sq_revdeps (sqd t)) p = {q. above (x_rq s) (set (scene_tids c)) q p}"
    "at (sq_deps (sqd t)) p = {q \<in> set (scene_tids c). above (x_rq s) (set (scene_tids c)) p q}"
    "at (sq_covered_tasks (sqd t)) p =
         {q. q \<notin> set (scene_tids c) \<and> above (x_rq s) (set (scene_tids c)) p q}"
    using build_scenequeue_sqd [OF assms] by (auto simp: scene_above_def covers_def)
qed


section \<open>A new executor\<close>

text \<open>The fields that \<open>RunQueueExecute.__init__\<close> sets before it builds the setscene graph.\<close>

definition fresh_exec :: "conf \<Rightarrow> runq \<Rightarrow> scheduler \<Rightarrow> files \<Rightarrow> exec" where
  "fresh_exec c rq sch fs =
     \<lparr>rq_state = RqSceneInit, x_rq = rq, runq_buildable = [], runq_running = [], runq_complete = [],
      runq_tasksrun = [], failed_tids = [], build_stamps = [], build_stamps2 = [], sched = sch,
      stats = init_stats (int (length rq)) (int (length (scene_tids c))),
      sq_buildable = [], sq_running = [], sq_live = [], sq_deferred = [], sq_needed_harddeps = [],
      sq_harddep_deferred = [], stampcache = [], holdoff_tasks = [], holdoff_need_update = True,
      sqdone = False, scenequeue_covered = [], scenequeue_notcovered = [], scenequeue_notneeded = [],
      tasks_covered = [], tasks_notcovered = [], tasks_scenequeue_done = [], updated_taskhash_queue = [],
      pending_migrations = [], sqd = empty_sqd, scene_pos = 0, stamp_files = fs\<rparr>"

text \<open>
  A build of \<open>a:build\<close>, which needs \<open>a:sysroot\<close>, which can come from a setscene task, made from
  \<open>a:compile\<close>, which needs \<open>b:sysroot\<close>.
\<close>

definition rq_scene :: runq where
  "rq_scene =
     [(''a:build'', \<lparr>depends = [''a:sysroot''], revdeps = [], hash = Some ''1'', unihash = Some ''1'', weight = 1\<rparr>),
      (''a:sysroot'', \<lparr>depends = [''a:compile''], revdeps = [''a:build''], hash = Some ''2'', unihash = Some ''2'', weight = 1\<rparr>),
      (''a:compile'', \<lparr>depends = [''b:sysroot''], revdeps = [''a:sysroot''], hash = Some ''3'', unihash = Some ''3'', weight = 1\<rparr>),
      (''b:sysroot'', \<lparr>depends = [], revdeps = [''a:compile''], hash = Some ''4'', unihash = Some ''4'', weight = 1\<rparr>)]"

definition td_scene :: td_state where
  "td_scene = (init_td False False cache_rd (\<lambda>_. []))
     \<lparr>taskentries := map (\<lambda>t. (t, \<lparr>tdepends = [], idepends = [], irdepends = []\<rparr>))
        [''a:sysroot_setscene'', ''b:sysroot_setscene'']\<rparr>"

definition conf_scene :: conf where
  "conf_scene = conf0\<lparr>scene_tids := [''a:sysroot'', ''b:sysroot''], targets := [''a:build''],
     task_data := [([], td_scene)]\<rparr>"

definition exec_scene :: exec where
  "exec_scene = fresh_exec conf_scene rq_scene (basic_init (\<lambda>t. t) [] rq_scene) (\<lambda>_. None)"

lemma rq_scene_ok: "graph_ok rq_scene" "acyclic (dep_rel rq_scene)"
  "set (scene_tids conf_scene) \<subseteq> set (dkeys rq_scene)"
proof -
  have D: "depends_of rq_scene t = (if t = ''a:build'' then [''a:sysroot''] else if t = ''a:sysroot'' then [''a:compile'']
      else if t = ''a:compile'' then [''b:sysroot''] else [])" for t
    by (simp add: rq_scene_def depends_of_def)
  have R: "revdeps_of rq_scene t = (if t = ''a:sysroot'' then [''a:build''] else if t = ''a:compile'' then [''a:sysroot'']
      else if t = ''b:sysroot'' then [''a:compile''] else [])" for t
    by (simp add: rq_scene_def revdeps_of_def)
  have K: "dkeys rq_scene = [''a:build'', ''a:sysroot'', ''a:compile'', ''b:sysroot'']" by (simp add: rq_scene_def)
  show "graph_ok rq_scene" by (simp add: graph_ok_def wf_dict_def K D R del: set_map) auto
  have rel: "dep_rel rq_scene = {(''a:build'', ''a:sysroot''), (''a:sysroot'', ''a:compile''), (''a:compile'', ''b:sysroot'')}"
    by (auto simp: dep_rel_def D split: if_splits)
  show "acyclic (dep_rel rq_scene)" unfolding rel
    by (rule acyclicI_order [of _ "\<lambda>t. if t = ''a:build'' then 3 else if t = ''a:sysroot'' then 2
      else if t = ''a:compile'' then 1 else (0 :: nat)"]) auto
  show "set (scene_tids conf_scene) \<subseteq> set (dkeys rq_scene)" unfolding K by (simp add: conf_scene_def)
qed

theorem build_scenequeue_correct_witness:
  "fst (build_scenequeue_data conf_scene exec_scene) = Inr () \<and>
   at (sq_revdeps (sqd (snd (build_scenequeue_data conf_scene exec_scene)))) ''b:sysroot'' = {''a:sysroot''} \<and>
   {q. above rq_scene (set (scene_tids conf_scene)) q ''b:sysroot''} = {''a:sysroot''}"
proof -
  have ok: "fst (build_scenequeue_data conf_scene exec_scene) = Inr ()" by code_simp
  have "at (sq_revdeps (sqd (snd (build_scenequeue_data conf_scene exec_scene)))) ''b:sysroot'' = {''a:sysroot''}"
    by code_simp
  moreover have "x_rq exec_scene = rq_scene" by (simp add: exec_scene_def fresh_exec_def)
  moreover have "build_scenequeue_data conf_scene exec_scene = (Inr (), snd (build_scenequeue_data conf_scene exec_scene))"
    using ok by (metis prod.collapse)
  ultimately show ?thesis
    using ok build_scenequeue_correct [of exec_scene conf_scene] rq_scene_ok
    by (auto simp: conf_scene_def)
qed

end
