(* ===== verification/Migrate.thy ===== *)
theory Migrate
  imports SceneQueue
begin

text \<open>
  \<open>RunQueueExecute\<close> of \<open>poky/bitbake/lib/bb/runqueue.py\<close>, the methods that look at the whole queue:
  which tasks the settled setscene tasks cover (\<open>update_holdofftasks\<close>), the dependency data that a
  task is started with (\<open>build_taskdepdata\<close>, \<open>sq_build_taskdepdata\<close>), and what happens when the hash
  of a task changes during the build (\<open>process_possible_migrations\<close>).
\<close>

section \<open>Covered tasks\<close>

definition covered_by :: "sq_data \<Rightarrow> string list \<Rightarrow> string list result" where
  "covered_by d tids =
     bind_res (map_result (\<lambda>t. case dget (sq_covered_tasks d) t of None \<Rightarrow> Inl KeyError | Some ts \<Rightarrow> Inr ts) tids)
       (\<lambda>tss. Inr (add_all (concat tss) []))"

definition hold_task :: "string \<Rightarrow> exec \<Rightarrow> unit result \<times> exec" where
  "hold_task tid s =
     with_key (sq_covered_tasks (sqd s)) tid s (\<lambda>ts.
       (Inr (), s\<lparr>holdoff_tasks :=
          add_all (filter (\<lambda>t. t \<notin> set (runq_complete s)) ts) (holdoff_tasks s)\<rparr>))"

definition make_buildable :: "string \<Rightarrow> exec \<Rightarrow> unit result \<times> exec" where
  "make_buildable tid s =
     with_key (x_rq s) tid s (\<lambda>e.
       (Inr (), if depends e = [] then setbuildable tid s
                else if set (depends e) \<subseteq> set (runq_complete s) then setbuildable tid s else s))"

definition hold_unsettled :: "conf \<Rightarrow> exec \<Rightarrow> unit result \<times> exec" where
  "hold_unsettled c s =
     (let hold = filter (\<lambda>t. t \<notin> settled_scene s) (scene_tids c)
      in seq_st (foreach hold_task hold (s\<lparr>holdoff_tasks := hold\<rparr>))
           (\<lambda>s1. (Inr (), s1\<lparr>holdoff_need_update := False\<rparr>)))"

definition update_holdofftasks :: "conf \<Rightarrow> exec \<Rightarrow> unit result \<times> exec" where
  "update_holdofftasks c s =
     (if \<not> holdoff_need_update s then (Inr (), s)
      else case (covered_by (sqd s) (scenequeue_notcovered s), covered_by (sqd s) (scenequeue_covered s)) of
             (Inr nc, Inr cv) \<Rightarrow>
               (let isdone = (\<lambda>t. t \<in> set (tasks_scenequeue_done s));
                    notcov = filter isdone
                      (add_all (filter (\<lambda>t. t \<notin> set (scene_tids c)) (unskippable (sqd s)))
                         (add_all nc (add_all (cantskip (sqd s)) (scenequeue_notcovered s))));
                    cov = filter (\<lambda>t. t \<notin> set notcov \<and> isdone t) (add_all cv (scenequeue_covered s))
                in seq_st (foreach make_buildable (add_all cov notcov) s) (\<lambda>s1.
                     hold_unsettled c (s1\<lparr>tasks_covered := cov, tasks_notcovered := notcov\<rparr>)))
           | (Inl e, _) \<Rightarrow> (Inl e, s)
           | (_, Inl e) \<Rightarrow> (Inl e, s))"

section \<open>Dependency data of a task\<close>

text \<open>\<open>bb.TaskData\<close>, without the dependencies of the task hash, which only the task reads.\<close>

record task_info =
  i_pn :: string
  i_taskname :: string
  i_fn :: string
  i_deps :: "string list"
  i_provides :: "string list"
  i_taskhash :: "string option"
  i_unihash :: "string option"
  i_hashfn :: string

type_synonym dep_data = "(string \<times> task_info) list"

definition filtermcdeps :: "string \<Rightarrow> string list \<Rightarrow> string list" where
  "filtermcdeps mc ds = filter (\<lambda>d. mc_from_tid d = mc) ds"

definition task_info_of :: "conf \<Rightarrow> string \<times> string \<times> string \<times> string \<Rightarrow> run_entry \<Rightarrow> string list \<Rightarrow> task_info" where
  "task_info_of c parts e ds =
     (case parts of (mc, fn, taskname, taskfn) \<Rightarrow>
        \<lparr>i_pn = recipe c mc taskfn, i_taskname = taskname, i_fn = fn, i_deps = ds,
         i_provides = provided_by c mc taskfn, i_taskhash = hash e, i_unihash = unihash e,
         i_hashfn = hashfn c mc taskfn\<rparr>)"

fun build_taskdepdata_cache :: "conf \<Rightarrow> runq \<Rightarrow> dep_data result" where
  "build_taskdepdata_cache c [] = Inr []"
| "build_taskdepdata_cache c ((t, e) # q) =
     (case split_tid_mcfn t of
        None \<Rightarrow> Inl ValueError
      | Some (mc, fn, tn, taskfn) \<Rightarrow>
          bind_res (build_taskdepdata_cache c q) (\<lambda>d.
            Inr ((t, task_info_of c (mc, fn, tn, taskfn) e (filtermcdeps mc (depends e))) # d)))"

text \<open>One wave of the search: the current unified hash replaces the one in the cache.\<close>

definition data_task ::
  "dep_data \<Rightarrow> runq \<Rightarrow> string \<Rightarrow> dep_data \<times> string list \<Rightarrow> unit result \<times> dep_data \<times> string list"
where
  "data_task tab rq t p =
     with_key tab t p (\<lambda>i. with_key rq t p (\<lambda>e.
       (case p of (d, additional) \<Rightarrow>
          (let d1 = dset t (i\<lparr>i_unihash := unihash e\<rparr>) d
           in (Inr (), d1, additional @ filter (\<lambda>x. x \<notin> set (dkeys d1)) (i_deps i))))))"

definition cache_deps :: "dep_data \<Rightarrow> string set" where
  "cache_deps tab = (\<Union>(t, i) \<in> set tab. set (i_deps i))"

lemma finite_cache_deps [simp]: "finite (cache_deps tab)"
  by (auto simp: cache_deps_def)

interpretation data: wave "data_task tab rq" "\<lambda>d. set (dkeys d)" "cache_deps tab" for tab rq
proof unfold_locales
  fix t p q assume r: "data_task tab rq t p = (Inr (), q)"
  obtain d a where p: "p = (d, a)" by fastforce
  obtain i i' where i: "dget tab t = Some i" and q: "q = (dset t i' d,
      a @ filter (\<lambda>x. x \<notin> insert t (set (dkeys d))) (i_deps i))"
    using r by (auto simp: data_task_def p with_key_def Let_def split: option.splits simp del: set_map)
  have "set (i_deps i) \<subseteq> cache_deps tab" using map_of_SomeD [OF i] by (auto simp: cache_deps_def)
  then show "set (dkeys (fst q)) = insert t (set (dkeys (fst p))) \<and>
      set (snd q) \<subseteq> set (snd p) \<union> (cache_deps tab - set (dkeys (fst p)))"
    by (auto simp: p q simp del: set_map)
qed simp

definition data_round ::
  "dep_data \<Rightarrow> runq \<Rightarrow> string list \<Rightarrow> dep_data \<Rightarrow> unit result \<times> dep_data \<times> string list"
where
  "data_round tab rq nxt d = foreach (data_task tab rq) nxt (d, [])"

function data_waves :: "dep_data \<Rightarrow> runq \<Rightarrow> string list \<Rightarrow> dep_data \<Rightarrow> dep_data result" where
  "data_waves tab rq nxt d =
     (if nxt = [] then Inr d
      else (case data_round tab rq nxt d of
              (Inl e, d1, nw) \<Rightarrow> Inl e
            | (Inr _, d1, nw) \<Rightarrow> data_waves tab rq nw d1))"
  by pat_completeness auto
termination
  by (relation "measure (\<lambda>(tab, rq, nxt, d). wave_measure (cache_deps tab) nxt (set (dkeys d)))")
    (auto intro: data.less simp: data_round_def simp del: set_map)

declare data_waves.simps [simp del]

definition build_taskdepdata :: "dep_data \<Rightarrow> runq \<Rightarrow> string \<Rightarrow> dep_data result" where
  "build_taskdepdata tab rq task =
     (case dget rq task of
        None \<Rightarrow> Inl KeyError
      | Some e \<Rightarrow> data_waves tab rq (filtermcdeps (mc_from_tid task) (append_new task (depends e))) [])"

subsection \<open>The setscene variant\<close>

definition getsetscenedeps :: "conf \<Rightarrow> string \<Rightarrow> string list result" where
  "getsetscenedeps c tid =
     (case split_tid_mcfn tid of
        None \<Rightarrow> Inl ValueError
      | Some (mc, fn, taskname, taskfn) \<Rightarrow>
          (case dget (task_data c) mc of
             None \<Rightarrow> Inl KeyError
           | Some td \<Rightarrow>
               (case dget (taskentries td) (tid @ ''_setscene'') of
                  None \<Rightarrow> Inl KeyError
                | Some e \<Rightarrow>
                    bind_res (map_result (\<lambda>(depname, idependtask).
                        case dget (build_targets td) depname of
                          None \<Rightarrow> Inr []
                        | Some [] \<Rightarrow> Inl IndexError
                        | Some (depfn # _) \<Rightarrow> Inr [depfn @ '':'' @ remove_sub ''_setscene'' 0 idependtask])
                      (idepends e)) (\<lambda>dss. Inr (add_all (concat dss) [])))))"

definition sq_data_task ::
  "conf \<Rightarrow> runq \<Rightarrow> string \<Rightarrow> dep_data \<times> string list \<Rightarrow> unit result \<times> dep_data \<times> string list"
where
  "sq_data_task c rq t p =
     (case (split_tid_mcfn t, getsetscenedeps c t) of
        (None, _) \<Rightarrow> (Inl ValueError, p)
      | (_, Inl e) \<Rightarrow> (Inl e, p)
      | (Some parts, Inr ds) \<Rightarrow>
          with_key rq t p (\<lambda>e.
            (case p of (d, additional) \<Rightarrow>
               (let d1 = dset t (task_info_of c parts e ds) d
                in (Inr (), d1, additional @ filter (\<lambda>x. x \<notin> set (dkeys d1)) ds)))))"

text \<open>All setscene dependencies of the tasks of the queue: what the waves can reach.\<close>

definition all_scene_deps :: "conf \<Rightarrow> runq \<Rightarrow> string set" where
  "all_scene_deps c rq = (\<Union>t \<in> set (dkeys rq). case getsetscenedeps c t of Inl e \<Rightarrow> {} | Inr ds \<Rightarrow> set ds)"

lemma finite_all_scene_deps [simp]: "finite (all_scene_deps c rq)"
  by (auto simp: all_scene_deps_def split: sum.splits)

interpretation sq_data: wave "sq_data_task c rq" "\<lambda>d. set (dkeys d)" "all_scene_deps c rq" for c rq
proof unfold_locales
  fix t p q assume r: "sq_data_task c rq t p = (Inr (), q)"
  obtain d a where p: "p = (d, a)" by fastforce
  obtain parts ds e where ds: "getsetscenedeps c t = Inr ds" "dget rq t = Some e"
    "q = (dset t (task_info_of c parts e ds) d, a @ filter (\<lambda>x. x \<notin> insert t (set (dkeys d))) ds)"
    using r by (auto simp: sq_data_task_def p with_key_def Let_def split: option.splits sum.splits simp del: set_map)
  have "t \<in> set (dkeys rq)" using ds(2) dget_in_dkeys [of t rq] by blast
  then have "set ds \<subseteq> all_scene_deps c rq" using ds(1) by (auto simp: all_scene_deps_def intro!: bexI [of _ t])
  then show "set (dkeys (fst q)) = insert t (set (dkeys (fst p))) \<and>
      set (snd q) \<subseteq> set (snd p) \<union> (all_scene_deps c rq - set (dkeys (fst p)))"
    using ds(3) by (auto simp: p simp del: set_map)
qed simp

definition sq_data_round ::
  "conf \<Rightarrow> runq \<Rightarrow> string list \<Rightarrow> dep_data \<Rightarrow> unit result \<times> dep_data \<times> string list"
where
  "sq_data_round c rq nxt d = foreach (sq_data_task c rq) nxt (d, [])"

function sq_data_waves :: "conf \<Rightarrow> runq \<Rightarrow> string list \<Rightarrow> dep_data \<Rightarrow> dep_data result" where
  "sq_data_waves c rq nxt d =
     (if nxt = [] then Inr d
      else (case sq_data_round c rq nxt d of
              (Inl e, d1, nw) \<Rightarrow> Inl e
            | (Inr _, d1, nw) \<Rightarrow> sq_data_waves c rq nw d1))"
  by pat_completeness auto
termination
  by (relation "measure (\<lambda>(c, rq, nxt, d). wave_measure (all_scene_deps c rq) nxt (set (dkeys d)))")
    (auto intro: sq_data.less simp: sq_data_round_def simp del: set_map)

declare sq_data_waves.simps [simp del]

definition sq_build_taskdepdata :: "conf \<Rightarrow> runq \<Rightarrow> string \<Rightarrow> dep_data result" where
  "sq_build_taskdepdata c rq task =
     bind_res (getsetscenedeps c task) (\<lambda>ds. sq_data_waves c rq (append_new task ds) [])"

section \<open>Changed hashes\<close>

definition update_entry :: "string \<Rightarrow> (run_entry \<Rightarrow> run_entry) \<Rightarrow> exec \<Rightarrow> unit result \<times> exec" where
  "update_entry t f s = with_key (x_rq s) t s (\<lambda>e. (Inr (), s\<lparr>x_rq := dset t (f e) (x_rq s)\<rparr>))"

text \<open>
  One report of a worker: it stays in the queue while its task runs; otherwise the new unified hash
  is taken for the task and for those deferred against it, and these are noted in the list.
\<close>

definition take_update :: "string \<times> string \<Rightarrow> string list \<times> exec \<Rightarrow> unit result \<times> string list \<times> exec" where
  "take_update u p =
     (case (u, p) of ((tid, uh), (todo, s)) \<Rightarrow>
        if tid \<in> set (runq_running s) \<and> tid \<notin> set (runq_complete s) then (Inr (), p)
        else
          (let s1 = s\<lparr>updated_taskhash_queue := remove_first u (updated_taskhash_queue s)\<rparr>
           in with_key (x_rq s1) tid (todo, s1) (\<lambda>e.
                if unihash e = Some uh then (Inr (), todo, s1)
                else
                  (let torehash = tid # map fst (filter (\<lambda>(d, t). t = tid) (sq_deferred s1))
                   in case foreach (\<lambda>h. update_entry h (\<lambda>e. e\<lparr>unihash := Some uh\<rparr>)) torehash s1 of
                        (r, s2) \<Rightarrow> (r, add_all torehash todo, s2)))))"

text \<open>All tasks that depend on the given ones.\<close>

definition revdep_step ::
  "runq \<Rightarrow> string \<Rightarrow> string list \<times> string list \<Rightarrow> unit result \<times> string list \<times> string list"
where
  "revdep_step rq t p =
     with_key rq t p (\<lambda>e. (Inr (), append_new t (fst p),
        add_all (filter (\<lambda>r. r \<notin> set (fst p)) (revdeps e)) (snd p)))"

definition all_revdeps :: "runq \<Rightarrow> string set" where
  "all_revdeps rq = (\<Union>(t, e) \<in> set rq. set (revdeps e))"

interpretation up: wave "revdep_step rq" set "all_revdeps rq" for rq
proof unfold_locales
  fix t p q assume r: "revdep_step rq t p = (Inr (), q)"
  then obtain e where e: "dget rq t = Some e" "q = (append_new t (fst p),
      add_all (filter (\<lambda>r. r \<notin> set (fst p)) (revdeps e)) (snd p))"
    by (auto simp: revdep_step_def with_key_def split: option.splits)
  have "set (revdeps e) \<subseteq> all_revdeps rq" using map_of_SomeD [OF e(1)] by (auto simp: all_revdeps_def)
  then show "set (fst q) = insert t (set (fst p)) \<and> set (snd q) \<subseteq> set (snd p) \<union> (all_revdeps rq - set (fst p))"
    by (auto simp: e(2))
qed (auto simp: all_revdeps_def)

text \<open>The code drops from a wave what the total already holds.\<close>

function revdep_waves :: "runq \<Rightarrow> string list \<Rightarrow> string list \<Rightarrow> string list result" where
  "revdep_waves rq nxt tot =
     (if nxt = [] then Inr tot
      else (case foreach (revdep_step rq) nxt (tot, []) of
              (Inl e, p) \<Rightarrow> Inl e
            | (Inr _, tot1, nw) \<Rightarrow> revdep_waves rq (filter (\<lambda>t. t \<notin> set tot1) nw) tot1))"
  by pat_completeness auto
termination
proof (relation "measure (\<lambda>(rq, nxt, tot). wave_measure (all_revdeps rq) nxt (set tot))", goal_cases)
  case (2 rq nxt tot r p u tot1 nw)
  have l: "set tot1 = set tot \<union> set nxt \<and> set nw \<subseteq> all_revdeps rq - set tot"
    using up.loop [of rq nxt "(tot, [])" "(tot1, nw)"] 2 by auto
  show ?case using 2(1) l by (auto intro!: wave_measure_less simp: all_revdeps_def)
qed simp

declare revdep_waves.simps [simp del]

definition dependents_of :: "runq \<Rightarrow> string list \<Rightarrow> string list result" where
  "dependents_of rq toprocess =
     bind_res (map_result (\<lambda>p. case dget rq p of None \<Rightarrow> Inl KeyError | Some e \<Rightarrow> Inr (revdeps e)) toprocess)
       (\<lambda>rss. revdep_waves rq (add_all (concat rss) []) [])"

text \<open>
  One task is hashed again.  \<open>rest\<close> is what is still to be hashed, \<open>nxt\<close> the next round, \<open>changed\<close>
  the tasks with a new hash.  A setscene task that ran or runs keeps its hash.
\<close>

record rehash =
  r_rest :: "string list"
  r_next :: "string list"
  r_changed :: "string list"
  r_exec :: exec

definition rehash_task :: "world \<Rightarrow> string \<Rightarrow> rehash \<Rightarrow> unit result \<times> rehash" where
  "rehash_task w tid r =
     (let s = r_exec r
      in with_key (x_rq s) tid r (\<lambda>e.
           (let keep = (unihash e = Some (new_unihash w tid) \<or> tid \<in> set (scenequeue_covered s) \<or> tid \<in> set (sq_live s));
                s1 = (if keep then s
                      else s\<lparr>x_rq := dset tid (e\<lparr>hash := Some (new_taskhash w tid), unihash := Some (new_unihash w tid)\<rparr>) (x_rq s)\<rparr>);
                rest = remove_from tid (r_rest r)
            in if tid \<notin> set (r_rest r) then (Inl KeyError, r)
               else (Inr (), r\<lparr>r_rest := rest,
                      r_next := filter (\<lambda>t. t \<in> set rest) (add_all (revdeps e) (r_next r)),
                      r_changed := (if keep then r_changed r else append_new tid (r_changed r)),
                      r_exec := s1\<rparr>))))"

text \<open>
  A task of the round is ready when none of its dependencies is still to be hashed; the code makes
  this test depend on whether another task, the last one looked at before, has dependencies.
\<close>

definition is_ready :: "runq \<Rightarrow> bool \<Rightarrow> string list \<Rightarrow> string \<Rightarrow> bool" where
  "is_ready rq other rest tid \<longleftrightarrow> \<not> (other \<and> set (depends_of rq tid) \<inter> set rest \<noteq> {})"

definition rehash_round :: "world \<Rightarrow> bool \<Rightarrow> rehash \<Rightarrow> unit result \<times> rehash" where
  "rehash_round w other r =
     (case map_result (\<lambda>t. case dget (x_rq (r_exec r)) t of None \<Rightarrow> Inl KeyError | Some e \<Rightarrow> Inr e) (r_next r) of
        Inl e \<Rightarrow> (Inl e, r)
      | Inr _ \<Rightarrow>
          foreach (rehash_task w)
            (filter (is_ready (x_rq (r_exec r)) other (r_rest r)) (r_next r)) (r\<lparr>r_next := []\<rparr>))"

lemma rehash_task_rest:
  assumes "rehash_task w t r = (Inr (), r')"
  shows "t \<in> set (r_rest r)" "r_rest r' = remove_from t (r_rest r)"
  using assms by (auto simp: rehash_task_def Let_def with_key_def split: option.splits if_splits)

lemma rehash_tasks_rest:
  "foreach (rehash_task w) ts r = (Inr (), r') \<Longrightarrow>
     length (r_rest r') + (if ts = [] then 0 else 1) \<le> length (r_rest r)"
proof (induction ts arbitrary: r)
  case (Cons t ts)
  obtain r1 where one: "rehash_task w t r = (Inr (), r1)" and rest: "foreach (rehash_task w) ts r1 = (Inr (), r')"
    using Cons.prems by (auto split: prod.splits sum.splits)
  have "length (r_rest r1) < length (r_rest r)"
    using rehash_task_rest [OF one] by (simp add: length_removeAll_less)
  then show ?case using Cons.IH [OF rest] by (auto split: if_splits)
qed simp

function rehash_loop :: "world \<Rightarrow> bool \<Rightarrow> rehash \<Rightarrow> unit result \<times> rehash" where
  "rehash_loop w other r =
     (if r_next r = [] then (Inr (), r)
      else (case rehash_round w other r of
              (Inl e, r1) \<Rightarrow> (Inl e, r1)
            | (Inr _, r1) \<Rightarrow> rehash_loop w other r1))"
  by pat_completeness auto
termination
proof (relation "measure (\<lambda>(w, other, r). 2 * length (r_rest r) + (if r_next r = [] then 0 else 1))", goal_cases)
  case (2 w other r x r1 u)
  obtain ts where ts: "foreach (rehash_task w) ts (r\<lparr>r_next := []\<rparr>) = (Inr (), r1)"
    using 2 by (auto simp: rehash_round_def split: sum.splits)
  show ?case
  proof (cases "ts = []")
    case True
    then show ?thesis using 2(1) ts by auto
  next
    case False
    then show ?thesis using rehash_tasks_rest [OF ts] 2(1) by auto
  qed
qed simp

declare rehash_loop.simps [simp del]

section \<open>Setscene tasks whose hash changed\<close>

text \<open>
  The real tasks that the setscene task covers are unsettled again; a completed one that did not
  run cannot be, and stops the build.
\<close>

fun unsettle :: "string list \<Rightarrow> exec \<Rightarrow> bool \<times> exec" where
  "unsettle [] s = (False, s)"
| "unsettle (dep # ds) s =
     (if dep \<in> set (runq_complete s) \<and> dep \<notin> set (runq_tasksrun s) then (True, s)
      else if dep \<notin> set (runq_complete s) \<and> dep \<notin> set (unskippable (sqd s))
      then unsettle ds (s\<lparr>tasks_scenequeue_done := remove_from dep (tasks_scenequeue_done s)\<rparr>)
      else unsettle ds s)"

definition reset_scene :: "conf \<Rightarrow> string \<Rightarrow> string \<Rightarrow> string \<Rightarrow> exec \<Rightarrow> exec" where
  "reset_scene c tid taskname taskfn s =
     s\<lparr>sq_buildable := remove_from tid (sq_buildable s), sq_running := remove_from tid (sq_running s),
       scenequeue_notcovered := remove_from tid (scenequeue_notcovered s),
       scenequeue_covered := remove_from tid (scenequeue_covered s),
       scenequeue_notneeded := remove_from tid (scenequeue_notneeded s),
       sqd := (sqd s)\<lparr>outrightfail := remove_from tid (outrightfail (sqd s)),
                sq_stamps := dset tid (short_stamp c taskname taskfn) (sq_stamps (sqd s))\<rparr>,
       stampcache := ddel tid (stampcache s), build_stamps := ddel tid (build_stamps s)\<rparr>"

text \<open>The tasks to look at again; \<open>None\<close> when the build stops.\<close>

fun migrate_tasks :: "conf \<Rightarrow> string list \<Rightarrow> exec \<Rightarrow> string list option result \<times> exec" where
  "migrate_tasks c [] s = (Inr (Some []), s)"
| "migrate_tasks c (tid # tids) s =
     (if tid \<in> set (runq_running s) \<or> tid \<in> set (sq_live s)
      then migrate_tasks c tids (s\<lparr>pending_migrations := remove_from tid (pending_migrations s)\<rparr>)
      else with_key (sq_covered_tasks (sqd s)) tid s (\<lambda>cov.
        if list_ex (\<lambda>d. d \<in> set (runq_running s) \<and> d \<notin> set (runq_complete s)) cov then migrate_tasks c tids s
        else (case unsettle cov (s\<lparr>pending_migrations := remove_from tid (pending_migrations s),
                      tasks_scenequeue_done := remove_from tid (tasks_scenequeue_done s)\<rparr>) of
                (True, s1) \<Rightarrow>
                  (Inr None, s1\<lparr>failed_tids := failed_tids s1 @ [tid], rq_state := RqCleanUp\<rparr>)
              | (False, s1) \<Rightarrow>
                  (case split_tid_mcfn tid of
                     None \<Rightarrow> (Inl ValueError, s1)
                   | Some (mc, fn, taskname, taskfn) \<Rightarrow>
                       bind_st (migrate_tasks c tids (reset_scene c tid taskname taskfn s1))
                         (\<lambda>r s2. (Inr (map_option ((#) tid) r), s2))))))"

fun requeue_scene :: "string list \<Rightarrow> exec \<Rightarrow> (string \<times> bool) list result \<times> exec" where
  "requeue_scene [] s = (Inr [], s)"
| "requeue_scene (tid # tids) s =
     with_key (sq_harddeps_rev (sqd s)) tid s (\<lambda>hs.
     with_key (sq_revdeps (sqd s)) tid s (\<lambda>rs.
       (let fail = list_ex (\<lambda>t. t \<in> set (scenequeue_notcovered s)) hs;
            s1 = (if \<not> fail \<and> set rs \<subseteq> settled_scene s \<or> rs = []
                  then s\<lparr>sq_buildable := append_new tid (sq_buildable s)\<rparr> else s)
        in bind_st (requeue_scene tids s1) (\<lambda>us s2. (Inr ((tid, fail) # us), s2)))))"

definition defer_again :: "conf \<Rightarrow> string \<Rightarrow> string \<Rightarrow> exec \<Rightarrow> unit result \<times> exec" where
  "defer_again c mc tid s =
     (if mc_from_tid tid \<noteq> mc then (Inr (), s)
      else case hash_index c (x_rq s) tid of
             Inl e \<Rightarrow> (Inl e, s)
           | Inr h \<Rightarrow>
               (case dget (sq_hashes (sqd s)) h of
                  Some t \<Rightarrow> (Inr (), if tid \<noteq> t then s\<lparr>sq_deferred := dset tid t (sq_deferred s)\<rparr> else s)
                | None \<Rightarrow> (Inr (), s)))"

definition restart_scene :: "conf \<Rightarrow> world \<Rightarrow> (string \<times> bool) list \<Rightarrow> exec \<Rightarrow> unit result \<times> exec" where
  "restart_scene c w us s =
     seq_st (if us = [] then (Inr (), s)
             else seq_st (foreach (\<lambda>mc. foreach (defer_again c mc) (sort (map fst us)))
                            (sort (multiconfigs (sqd s))) (s\<lparr>sqdone := False\<rparr>))
                    (update_scenequeue_data c w (map fst us)))
       (foreach (\<lambda>(tid, fail) s. if fail then sq_task_failoutright c w tid s else (Inr (), s)) us)"

definition after_change :: "exec \<Rightarrow> exec" where
  "after_change s = (count_covered s)\<lparr>sq_needed_harddeps := [], sq_harddep_deferred := [], holdoff_need_update := True\<rparr>"

definition migrate_pending :: "conf \<Rightarrow> world \<Rightarrow> bool \<Rightarrow> exec \<Rightarrow> unit result \<times> exec" where
  "migrate_pending c w changed s =
     bind_st (migrate_tasks c (pending_migrations s) s) (\<lambda>r s1.
       case r of
         None \<Rightarrow> (Inr (), s1)
       | Some tids \<Rightarrow>
           bind_st (requeue_scene tids s1) (\<lambda>us s2.
             seq_st (restart_scene c w us s2) (\<lambda>s3.
               (Inr (), if changed \<or> tids \<noteq> [] then after_change s3 else s3))))"

definition rehash_all :: "conf \<Rightarrow> world \<Rightarrow> exec \<Rightarrow> string list result \<times> exec" where
  "rehash_all c w s =
     (case foreach take_update (updated_taskhash_queue s) ([], s) of
        (Inl e, todo, s1) \<Rightarrow> (Inl e, s1)
      | (Inr _, todo, s1) \<Rightarrow>
          (case dependents_of (x_rq s1) todo of
             Inl e \<Rightarrow> (Inl e, s1)
           | Inr tot \<Rightarrow>
               (let rq = x_rq s1;
                    first = filter (\<lambda>p. set (depends_of rq p) \<inter> set tot = {}) tot;
                    other = (tot \<noteq> [] \<and> depends_of rq (last tot) \<noteq> [])
                in case rehash_loop w other \<lparr>r_rest = tot, r_next = first, r_changed = [], r_exec = s1\<rparr> of
                     (Inl e, r) \<Rightarrow> (Inl e, r_exec r)
                   | (Inr _, r) \<Rightarrow> (Inr (r_changed r), r_exec r))))"

definition process_possible_migrations :: "conf \<Rightarrow> world \<Rightarrow> exec \<Rightarrow> unit result \<times> exec" where
  "process_possible_migrations c w s =
     bind_st (rehash_all c w s) (\<lambda>changed s1.
       migrate_pending c w (changed \<noteq> [])
         (s1\<lparr>pending_migrations :=
            add_all (filter (\<lambda>t. t \<in> set (scene_tids c)) changed) (pending_migrations s1)\<rparr>))"

end
