(* ===== verification/Execute.thy ===== *)
theory Execute
  imports Migrate
begin

text \<open>
  \<open>RunQueueExecute.execute\<close> of \<open>poky/bitbake/lib/bb/runqueue.py\<close>, one pass of the build: it reads the
  workers' messages, takes changed hashes into account, starts or settles at most one setscene task,
  then starts, skips or completes at most one real task, and at the end decides whether the build is
  over.  \<open>run_queue\<close> is the part of \<open>RunQueue._execute_runqueue\<close> that drives it.  Sending a task to a
  worker process is not modelled beyond the bookkeeping.
\<close>

section \<open>Choosing a setscene task\<close>

text \<open>\<open>Continue\<close> goes to the next candidate, \<open>Return\<close> leaves \<open>execute\<close> with \<open>True\<close>.\<close>

datatype pick = Continue | Return | Start string

text \<open>The validation function of the configuration is asked about the task and what depends on it.\<close>

definition dep_part :: "conf \<Rightarrow> string \<Rightarrow> (string \<times> string \<times> string \<times> string) result" where
  "dep_part c dep =
     (case split_tid_mcfn dep of
        None \<Rightarrow> Inl ValueError
      | Some (mc, fn, taskname, taskfn) \<Rightarrow> Inr (dep, recipe c mc taskfn, taskname, fn))"

definition check_dependencies :: "conf \<Rightarrow> world \<Rightarrow> string \<Rightarrow> string list \<Rightarrow> exec \<Rightarrow> bool result" where
  "check_dependencies c w task taskdeps s =
     (case depvalidate w of
        None \<Rightarrow> Inr False
      | Some f \<Rightarrow>
          bind_res (map_result (dep_part c) (append_new task taskdeps))
            (\<lambda>taskdata. Inr (f task taskdata (scenequeue_notneeded s))))"

definition may_skip :: "conf \<Rightarrow> world \<Rightarrow> string \<Rightarrow> exec \<Rightarrow> bool result" where
  "may_skip c w t s =
     (if t \<in> set (unskippable (sqd s)) then Inr False
      else case dget (sq_revdeps (sqd s)) t of
             None \<Rightarrow> Inl KeyError
           | Some rs \<Rightarrow>
               if rs \<noteq> [] \<and> t \<notin> set (sq_needed_harddeps s) \<and> set rs \<subseteq> set (scenequeue_covered s)
               then check_dependencies c w t rs s else Inr False)"

definition skip_unneeded :: "conf \<Rightarrow> world \<Rightarrow> string \<Rightarrow> exec \<Rightarrow> pick result \<times> exec" where
  "skip_unneeded c w t s =
     bind_st (sq_task_skip c w t s) (\<lambda>_ s1.
       (Inr Return, s1\<lparr>scenequeue_notneeded := append_new t (scenequeue_notneeded s1),
                      sq_deferred := ddel t (sq_deferred s1)\<rparr>))"

definition enable_hard :: "string \<Rightarrow> string list \<Rightarrow> exec \<Rightarrow> pick \<times> exec" where
  "enable_hard t hs s =
     (let new = filter (\<lambda>d. d \<notin> set (sq_needed_harddeps s)) hs
      in (if new = [] then Continue else Return,
          s\<lparr>sq_buildable := add_all new (sq_buildable s), sq_needed_harddeps := add_all new (sq_needed_harddeps s),
            sq_harddep_deferred := append_new t (sq_harddep_deferred s)\<rparr>))"

text \<open>The last tests before a setscene task starts; the code's loop over the covered tasks has no effect.\<close>

definition last_checks :: "conf \<Rightarrow> world \<Rightarrow> string \<Rightarrow> exec \<Rightarrow> pick result \<times> exec" where
  "last_checks c w t s =
     (let fails = (\<lambda>s. bind_st (sq_task_failoutright c w t s) (\<lambda>_ s1. (Inr Return, s1)));
          rest = (\<lambda>s. if t \<in> set (outrightfail (sqd s)) then fails s else (Inr (Start t), s))
      in with_key (sq_covered_tasks (sqd s)) t s (\<lambda>_.
           if t \<in> set (dkeys (sq_deferred s)) then
             (let s1 = s\<lparr>sq_deferred := ddel t (sq_deferred s)\<rparr>
              in case validate_hashes c w [t] (x_rq s1) of
                   Inl e \<Rightarrow> (Inl e, s1)
                 | Inr valid \<Rightarrow> if valid = [] then fails s1 else rest s1)
           else rest s))"

definition try_scene :: "conf \<Rightarrow> world \<Rightarrow> string \<Rightarrow> exec \<Rightarrow> pick result \<times> exec" where
  "try_scene c w t s =
     (if (case dget (sq_deferred s) t of None \<Rightarrow> False | Some b \<Rightarrow> b \<notin> set (runq_complete s))
      then (Inr Continue, s)
      else case may_skip c w t s of
             Inl e \<Rightarrow> (Inl e, s)
           | Inr b \<Rightarrow>
               if b \<and> t \<notin> set (targets c) then skip_unneeded c w t s
               else case dget (sq_harddeps_rev (sqd s)) t of
                      None \<Rightarrow> last_checks c w t s
                    | Some hs \<Rightarrow>
                        if set hs \<subseteq> settled_scene s then last_checks c w t s
                        else (case enable_hard t hs s of (p, s1) \<Rightarrow> (Inr p, s1)))"

definition scene_candidate :: "string \<Rightarrow> exec \<Rightarrow> bool result" where
  "scene_candidate t s =
     (if t \<notin> set (sq_buildable s) \<or> t \<in> set (sq_running s) then Inr False
      else case dget (sq_stamps (sqd s)) t of
             None \<Rightarrow> Inl KeyError
           | Some f \<Rightarrow> Inr (f \<notin> snd ` set (build_stamps s) \<and> t \<notin> set (sq_harddep_deferred s)))"

text \<open>The loop counts at most one round over the setscene tasks, from where the last call stopped.\<close>

primrec pick_scene :: "nat \<Rightarrow> conf \<Rightarrow> world \<Rightarrow> exec \<Rightarrow> pick result \<times> exec" where
  "pick_scene 0 c w s = (Inr Continue, s)"
| "pick_scene (Suc n) c w s =
     (let t = scene_tids c ! scene_pos s;
          s0 = s\<lparr>scene_pos := Suc (scene_pos s) mod length (scene_tids c)\<rparr>
      in case scene_candidate t s0 of
           Inl e \<Rightarrow> (Inl e, s0)
         | Inr False \<Rightarrow> pick_scene n c w s0
         | Inr True \<Rightarrow>
             bind_st (try_scene c w t s0) (\<lambda>p s1.
               if p = Continue then pick_scene n c w s1 else (Inr p, s1)))"

section \<open>Starting a setscene task\<close>

text \<open>The bookkeeping of a started task.\<close>

definition note_stamp :: "conf \<Rightarrow> string \<Rightarrow> string \<Rightarrow> string \<Rightarrow> exec \<Rightarrow> exec" where
  "note_stamp c task taskname taskfn s =
     s\<lparr>build_stamps := dset task (short_stamp c taskname taskfn) (build_stamps s),
       build_stamps2 := build_stamps2 s @ [short_stamp c taskname taskfn]\<rparr>"

definition needs_fakeroot :: "conf \<Rightarrow> world \<Rightarrow> bool \<Rightarrow> string \<Rightarrow> string \<Rightarrow> string \<Rightarrow> bool" where
  "needs_fakeroot c w dry mc taskfn taskname \<longleftrightarrow>
     flagged c ''fakeroot'' mc taskfn taskname \<and> \<not> dry \<and> \<not> fakeworker_up w mc"

text \<open>The result says whether \<open>execute\<close> returns \<open>True\<close>; otherwise it goes on with the real tasks.\<close>

definition launch_scene :: "conf \<Rightarrow> world \<Rightarrow> string \<Rightarrow> string \<Rightarrow> string \<Rightarrow> string \<Rightarrow> exec \<Rightarrow> bool result \<times> exec" where
  "launch_scene c w task mc name taskfn s =
     (case sq_build_taskdepdata c (x_rq s) task of
        Inl e \<Rightarrow> (Inl e, s)
      | Inr _ \<Rightarrow>
          if needs_fakeroot c w (opt_dry_run c) mc taskfn name \<and> \<not> fakeworker_starts w then (Inl OSError, s)
          else
            (let s1 = note_stamp c task name taskfn s;
                 s2 = count_live (s1\<lparr>sq_running := append_new task (sq_running s1),
                                    sq_live := append_new task (sq_live s1)\<rparr>)
             in (Inr (can_start_task c s2), s2)))"

definition start_scene :: "conf \<Rightarrow> world \<Rightarrow> string \<Rightarrow> exec \<Rightarrow> bool result \<times> exec" where
  "start_scene c w task s =
     (case split_tid_mcfn task of
        None \<Rightarrow> (Inl ValueError, s)
      | Some (mc, fn, tn, taskfn) \<Rightarrow>
          (let name = tn @ ''_setscene'';
               fails = (\<lambda>s. bind_st (sq_task_failoutright c w task s) (\<lambda>_ s1. (Inr True, s1)))
           in bind_st (stamp_check c task tn True s) (\<lambda>current s1.
                if current then fails s1
                else if opt_force c \<and> task \<in> set (targets c) then fails s1
                else bind_st (stamp_check c task name False s1) (\<lambda>present s2.
                  if present then bind_st (sq_task_skip c w task s2) (\<lambda>_ s3. (Inr True, s3))
                  else if opt_skipsetscene c then fails s2
                  else launch_scene c w task mc name taskfn s2))))"

definition scene_part_of :: "conf \<Rightarrow> world \<Rightarrow> exec \<Rightarrow> bool result \<times> exec" where
  "scene_part_of c w s =
     (if sqdone s \<or> \<not> can_start_task c s then (Inr False, s)
      else bind_st (pick_scene (length (scene_tids c)) c w s) (\<lambda>p s1.
             case p of
               Continue \<Rightarrow> (Inr False, s1)
             | Return \<Rightarrow> (Inr True, s1)
             | Start t \<Rightarrow> start_scene c w t s1))"

section \<open>The summary of the setscene tasks\<close>

definition summarise_scenequeue_errors :: "conf \<Rightarrow> exec \<Rightarrow> bool" where
  "summarise_scenequeue_errors c s \<longleftrightarrow>
     sq_deferred s \<noteq> [] \<or> updated_taskhash_queue s \<noteq> [] \<or> holdoff_tasks s \<noteq> [] \<or>
     list_ex (\<lambda>tid. tid \<notin> settled_scene s \<or> tid \<notin> set (sq_buildable s) \<or> tid \<notin> set (sq_running s)) (scene_tids c) \<or>
     list_ex (\<lambda>(x, e). (x \<notin> set (tasks_covered s) \<and> x \<notin> set (tasks_notcovered s)) \<or>
                x \<notin> set (tasks_scenequeue_done s) \<or>
                (depends e = [] \<and> x \<notin> set (runq_buildable s))) (x_rq s)"

text \<open>\<open>None\<close> goes on with the real tasks.\<close>

definition scene_completion :: "conf \<Rightarrow> exec \<Rightarrow> bool \<times> exec" where
  "scene_completion c s =
     (if sq_live s = [] \<and> \<not> sqdone s \<and> sq_deferred s = [] \<and> updated_taskhash_queue s = [] \<and> holdoff_tasks s = []
      then if summarise_scenequeue_errors c s then (True, s\<lparr>rq_state := RqFailed\<rparr>)
           else if opt_setsceneonly c then (True, s\<lparr>rq_state := RqComplete\<rparr>)
           else if total (stats s) = 0 then (True, s\<lparr>sqdone := True, rq_state := RqComplete\<rparr>)
           else (False, s\<lparr>sqdone := True\<rparr>)
      else (False, s))"

section \<open>Running a real task\<close>

text \<open>What the scheduler reads of the executor.\<close>

definition view_of :: "exec \<Rightarrow> rq_view" where
  "view_of s = rq_view.make (runq_running s) (runq_complete s) (holdoff_tasks s) (tasks_covered s)
     (tasks_notcovered s) (active (stats s)) (build_stamps s)"

definition next_real_task :: "conf \<Rightarrow> world \<Rightarrow> exec \<Rightarrow> string option result \<times> exec" where
  "next_real_task c w s =
     (if opt_setsceneonly c then (Inr None, s)
      else case next_task (can_start_task c s) (pressure w) (thread_limit c) (x_rq s) (view_of s) (sched s) of
             (r, sch) \<Rightarrow> (r, s\<lparr>sched := sch\<rparr>))"

definition check_setscene_ignore_tasks :: "conf \<Rightarrow> string \<Rightarrow> exec \<Rightarrow> bool result \<times> exec" where
  "check_setscene_ignore_tasks c tid s =
     (case split_tid_mcfn tid of
        None \<Rightarrow> (Inl ValueError, s)
      | Some (mc, fn, taskname, taskfn) \<Rightarrow>
          if tid \<in> set (tasks_covered s) then (Inr False, s)
          else bind_st (stamp_check c tid taskname False s) (\<lambda>b s1.
            (Inr (\<not> b \<and> \<not> flagged c ''noexec'' mc taskfn taskname \<and>
                  \<not> check_setscene_enforce_ignore_tasks (recipe c mc taskfn) taskname (ignore_tasks c)), s1)))"

definition run_noexec :: "conf \<Rightarrow> world \<Rightarrow> string \<Rightarrow> string \<Rightarrow> string \<Rightarrow> exec \<Rightarrow> unit result \<times> exec" where
  "run_noexec c w task taskname taskfn s =
     (let s1 = s\<lparr>runq_running := append_new task (runq_running s), stats := taskActive (stats s)\<rparr>;
          s2 = (if opt_dry_run c \<or> scene_enforce c then s1
                else s1\<lparr>stamp_files := make_stamp_mcfn c (now w) taskname taskfn (stamp_files s1)\<rparr>)
      in task_complete c w task s2)"

definition launch_task ::
  "conf \<Rightarrow> world \<Rightarrow> dep_data \<Rightarrow> string \<Rightarrow> string \<Rightarrow> string \<Rightarrow> string \<Rightarrow> exec \<Rightarrow> bool result \<times> exec"
where
  "launch_task c w tab task mc taskname taskfn s =
     (case build_taskdepdata tab (x_rq s) task of
        Inl e \<Rightarrow> (Inl e, s)
      | Inr _ \<Rightarrow>
          if needs_fakeroot c w (opt_dry_run c \<or> scene_enforce c) mc taskfn taskname \<and> \<not> fakeworker_starts w
          then (Inr True, s\<lparr>rq_state := RqFailed, stats := taskFailed (stats s)\<rparr>)
          else
            (let s1 = note_stamp c task taskname taskfn s;
                 s2 = s1\<lparr>runq_running := append_new task (runq_running s1), stats := taskActive (stats s1)\<rparr>
             in (Inr (can_start_task c s2), s2)))"

text \<open>A task the scheduler chose, after the test of the tasks that may not run.\<close>

definition run_chosen :: "conf \<Rightarrow> world \<Rightarrow> dep_data \<Rightarrow> string \<Rightarrow> exec \<Rightarrow> bool result \<times> exec" where
  "run_chosen c w tab task s =
     (case split_tid_mcfn task of
        None \<Rightarrow> (Inl ValueError, s)
      | Some (mc, fn, taskname, taskfn) \<Rightarrow>
          if task \<in> set (tasks_covered s)
          then bind_st (task_skip c w task s) (\<lambda>_ s1. (Inr True, s1))
          else bind_st (stamp_check c task taskname False s) (\<lambda>current s1.
            if current
            then bind_st (task_skip c w task s1) (\<lambda>_ s2.
                   (Inr True, s2\<lparr>runq_tasksrun := append_new task (runq_tasksrun s2)\<rparr>))
            else if flagged c ''noexec'' mc taskfn taskname
            then bind_st (run_noexec c w task taskname taskfn s1) (\<lambda>_ s2. (Inr True, s2))
            else launch_task c w tab task mc taskname taskfn s1))"

definition run_task :: "conf \<Rightarrow> world \<Rightarrow> dep_data \<Rightarrow> string \<Rightarrow> exec \<Rightarrow> bool result \<times> exec" where
  "run_task c w tab task s =
     (if ignore_tasks c = None then run_chosen c w tab task s
      else bind_st (check_setscene_ignore_tasks c task s) (\<lambda>bad s1.
             if bad then (Inr True, task_fail c task s1) else run_chosen c w tab task s1))"

section \<open>The end of a pass\<close>

text \<open>\<open>Again\<close> is the \<open>True\<close> that asks for another call at once, \<open>WaitFds\<close> the list of the workers' pipes.\<close>

datatype retval = Again | WaitFds

definition final_checks :: "conf \<Rightarrow> exec \<Rightarrow> exec" where
  "final_checks c s =
     s\<lparr>rq_state :=
        (if summarise_scenequeue_errors c s \<or>
            list_ex (\<lambda>t. t \<notin> set (runq_buildable s) \<or> t \<notin> set (runq_running s) \<or> t \<notin> set (runq_complete s)) (dkeys (x_rq s))
         then RqFailed else RqComplete)\<rparr>"

definition end_of_pass :: "conf \<Rightarrow> world \<Rightarrow> wmsg list \<Rightarrow> exec \<Rightarrow> retval result \<times> exec" where
  "end_of_pass c w msgs s =
     (if 0 < active (stats s) \<or> sq_live s \<noteq> []
      then seq_st (read_workers c w msgs s) (\<lambda>s1. (Inr WaitFds, s1))
      else case sq_deferred s of
             _ # ds \<Rightarrow> (Inr Again, s\<lparr>sq_deferred := ds\<rparr>)
           | [] \<Rightarrow>
               if failed_tids s \<noteq> [] then (Inr Again, s\<lparr>rq_state := RqFailed\<rparr>)
               else (Inr Again, final_checks c s))"

definition real_part :: "conf \<Rightarrow> world \<Rightarrow> dep_data \<Rightarrow> exec \<Rightarrow> bool result \<times> exec" where
  "real_part c w tab s =
     bind_st (next_real_task c w s) (\<lambda>t s1.
       case t of None \<Rightarrow> (Inr False, s1) | Some task \<Rightarrow> run_task c w tab task s1)"

definition migrate_if_needed :: "conf \<Rightarrow> world \<Rightarrow> exec \<Rightarrow> unit result \<times> exec" where
  "migrate_if_needed c w s =
     (if updated_taskhash_queue s \<noteq> [] \<or> pending_migrations s \<noteq> []
      then process_possible_migrations c w s else (Inr (), s))"

text \<open>The pass up to its last statements; true when it has returned \<open>True\<close> before them.\<close>

definition pass_body :: "conf \<Rightarrow> world \<Rightarrow> dep_data \<Rightarrow> wmsg list \<Rightarrow> exec \<Rightarrow> bool result \<times> exec" where
  "pass_body c w tab msgs s =
     seq_st (read_workers c w msgs s) (\<lambda>s1.
     seq_st (migrate_if_needed c w s1) (\<lambda>s2.
     bind_st (scene_part_of c w s2) (\<lambda>b s3.
       if b then (Inr True, s3)
       else seq_st (update_holdofftasks c s3) (\<lambda>s4.
              case scene_completion c s4 of
                (True, s5) \<Rightarrow> (Inr True, s5)
              | (False, s5) \<Rightarrow> real_part c w tab s5))))"

definition execute :: "conf \<Rightarrow> world \<Rightarrow> dep_data \<Rightarrow> wmsg list \<Rightarrow> wmsg list \<Rightarrow> exec \<Rightarrow> retval result \<times> exec" where
  "execute c w tab msgs1 msgs2 s =
     bind_st (pass_body c w tab msgs1 s) (\<lambda>b s1. if b then (Inr Again, s1) else end_of_pass c w msgs2 s1)"

section \<open>The driver\<close>

definition init_exec :: "conf \<Rightarrow> world \<Rightarrow> runq \<Rightarrow> scheduler \<Rightarrow> files \<Rightarrow> unit result \<times> exec" where
  "init_exec c w rq sch fs =
     (let s = fresh_exec c rq sch fs
      in if number_tasks c \<le> 0 then (Inl Fatal, s)
         else seq_st (build_scenequeue_data c s) (\<lambda>s1.
                update_scenequeue_data c w (dkeys (sq_revdeps (sqd s1))) s1))"

text \<open>Without setscene tasks, every task is one that no setscene task covers.\<close>

definition start_running :: "conf \<Rightarrow> exec \<Rightarrow> exec" where
  "start_running c s =
     (let s1 = (if scene_tids c = []
                then (fold (\<lambda>(t, e) s. if depends e = [] then setbuildable t s else s) (x_rq s) s)
                       \<lparr>tasks_notcovered := add_all (dkeys (x_rq s)) (tasks_notcovered s), sqdone := True\<rparr>
                else s)
      in s1\<lparr>rq_state := RqRunning\<rparr>)"

datatype rq_return = Finished | Loop retval | Raised py_exc | TaskFailure "string list"

definition run_queue ::
  "conf \<Rightarrow> world \<Rightarrow> dep_data \<Rightarrow> wmsg list \<Rightarrow> wmsg list \<Rightarrow> wmsg list \<Rightarrow> exec \<Rightarrow> rq_return \<times> exec"
where
  "run_queue c w tab msgs1 msgs2 msgs3 s =
     (let s1 = (if rq_state s = RqSceneInit then start_running c s else s);
          r1 = (if rq_state s1 = RqRunning then execute c w tab msgs1 msgs2 s1 else (Inr Again, s1))
      in case r1 of
           (Inl e, s2) \<Rightarrow> (Raised e, s2\<lparr>rq_state := RqComplete\<rparr>)
         | (Inr v, s2) \<Rightarrow>
             (case (if rq_state s2 = RqCleanUp
                    then bind_st (finish c w msgs3 s2) (\<lambda>_ s3. (Inr (if 0 < live_tasks s2 then WaitFds else Again), s3))
                    else (Inr v, s2)) of
                (Inl e, s3) \<Rightarrow> (Raised e, s3\<lparr>rq_state := RqComplete\<rparr>)
              | (Inr v, s3) \<Rightarrow>
                  if rq_state s3 = RqFailed then (TaskFailure (failed_tids s3), s3)
                  else if rq_state s3 = RqComplete then (Finished, s3) else (Loop v, s3)))"

end
