(* ===== verification/ExecInv.thy ===== *)
theory ExecInv
  imports Execute
begin

text \<open>
  Invariants of a build: whatever the workers, the clock and the setscene tasks do, a task is
  started only after its dependencies are complete, a task whose dependencies are complete is
  known to be buildable, the tasks that run are counted, and never more than the configured number
  run at once.
\<close>

section \<open>The invariants\<close>

definition live_real :: "exec \<Rightarrow> string set" where
  "live_real s = set (runq_running s) - set (runq_complete s) - set (failed_tids s)"

text \<open>Tasks are started in dependency order.\<close>

definition dep_inv :: "exec \<Rightarrow> bool" where
  "dep_inv s \<longleftrightarrow> graph_ok (x_rq s) \<and> set (runq_complete s) \<subseteq> set (runq_running s) \<and>
     set (runq_running s) \<subseteq> set (runq_buildable s) \<and> set (runq_buildable s) \<subseteq> set (dkeys (x_rq s)) \<and>
     set (buildable_set (sched s)) \<subseteq> set (runq_buildable s) \<and>
     (\<forall>t \<in> set (runq_buildable s). deps_set (x_rq s) t \<subseteq> set (runq_complete s))"

text \<open>No task that could run is forgotten.\<close>

definition wake_inv :: "exec \<Rightarrow> bool" where
  "wake_inv s \<longleftrightarrow> (\<forall>t \<in> set (dkeys (x_rq s)). deps_set (x_rq s) t \<noteq> {} \<longrightarrow>
     deps_set (x_rq s) t \<subseteq> set (runq_complete s) \<longrightarrow> t \<in> set (runq_buildable s))"

text \<open>The failed tasks, those that run, and the counter of the latter, while the build goes on.\<close>

definition building :: "exec \<Rightarrow> bool" where
  "building s \<longleftrightarrow> rq_state s = RqSceneInit \<or> rq_state s = RqRunning"

definition count_inv :: "exec \<Rightarrow> bool" where
  "count_inv s \<longleftrightarrow> (building s \<longrightarrow>
     set (failed_tids s) \<subseteq> set (runq_running s) \<and> active (stats s) = int (card (live_real s)))"

definition run_inv :: "conf \<Rightarrow> exec \<Rightarrow> bool" where
  "run_inv c s \<longleftrightarrow> dep_inv s \<and> total (stats s) = int (length (x_rq s)) \<and>
     (ignore_tasks c = None \<longrightarrow> count_inv s \<and> (rq_state s = RqCleanUp \<longrightarrow> failed_tids s \<noteq> []))"

definition build_inv :: "conf \<Rightarrow> exec \<Rightarrow> bool" where
  "build_inv c s \<longleftrightarrow> run_inv c s \<and> wake_inv s"

text \<open>
  What every part of the build does but the start, the success and the failure of a real task: it
  may find tasks buildable, and may end the build.
\<close>

definition core_part :: "conf \<Rightarrow> exec \<Rightarrow> exec \<Rightarrow> bool" where
  "core_part c s t \<longleftrightarrow> same_graph (x_rq s) (x_rq t) \<and> runq_running t = runq_running s \<and>
     runq_complete t = runq_complete s \<and> active (stats t) = active (stats s) \<and>
     total (stats t) = total (stats s) \<and> live_real t = live_real s \<and>
     set (runq_buildable s) \<subseteq> set (runq_buildable t) \<and>
     (\<forall>x \<in> set (runq_buildable t) - set (runq_buildable s).
        x \<in> set (dkeys (x_rq s)) \<and> deps_set (x_rq s) x \<subseteq> set (runq_complete s)) \<and>
     set (buildable_set (sched t)) \<subseteq> set (buildable_set (sched s)) \<union> set (runq_buildable t) \<and>
     set (failed_tids s) \<subseteq> set (failed_tids t) \<and> (rq_state t = rq_state s \<or> rq_state t = RqCleanUp) \<and>
     (building t \<longrightarrow> failed_tids t = failed_tids s) \<and>
     (ignore_tasks c = None \<longrightarrow> rq_state t = RqCleanUp \<longrightarrow> rq_state s = RqCleanUp \<or> failed_tids t \<noteq> [])"

definition core_step :: "conf \<Rightarrow> exec \<Rightarrow> exec \<Rightarrow> bool" where
  "core_step c s t \<longleftrightarrow> core_part c s t \<and> length (sq_live t) \<le> length (sq_live s)"

definition core_more :: "conf \<Rightarrow> exec \<Rightarrow> exec \<Rightarrow> bool" where
  "core_more c s t \<longleftrightarrow> core_part c s t \<and> length (sq_live t) \<le> Suc (length (sq_live s))"

lemma core_part_refl [simp]: "core_part c s s"
  by (simp add: core_part_def)

lemma same_graph_ok: "same_graph rq rq' \<Longrightarrow> graph_ok rq' \<longleftrightarrow> graph_ok rq"
  by (simp add: same_graph_def graph_ok_def wf_dict_def del: set_map)

lemma core_partD:
  assumes "core_part c s t"
  shows "same_graph (x_rq s) (x_rq t)" "runq_running t = runq_running s" "runq_complete t = runq_complete s"
    and "active (stats t) = active (stats s)" "total (stats t) = total (stats s)" "live_real t = live_real s"
    and "set (runq_buildable s) \<subseteq> set (runq_buildable t)"
    and "x \<in> set (runq_buildable t) \<Longrightarrow> x \<notin> set (runq_buildable s) \<Longrightarrow>
      x \<in> set (dkeys (x_rq s)) \<and> deps_set (x_rq s) x \<subseteq> set (runq_complete s)"
    and "set (buildable_set (sched t)) \<subseteq> set (buildable_set (sched s)) \<union> set (runq_buildable t)"
    and "set (failed_tids s) \<subseteq> set (failed_tids t)" "rq_state t = rq_state s \<or> rq_state t = RqCleanUp"
    and "building t \<Longrightarrow> failed_tids t = failed_tids s"
    and "ignore_tasks c = None \<Longrightarrow> rq_state t = RqCleanUp \<Longrightarrow> rq_state s = RqCleanUp \<or> failed_tids t \<noteq> []"
proof -
  have all: "\<forall>x \<in> set (runq_buildable t) - set (runq_buildable s).
      x \<in> set (dkeys (x_rq s)) \<and> deps_set (x_rq s) x \<subseteq> set (runq_complete s)"
    and 1: "building t \<longrightarrow> failed_tids t = failed_tids s"
    and 2: "ignore_tasks c = None \<longrightarrow> rq_state t = RqCleanUp \<longrightarrow> rq_state s = RqCleanUp \<or> failed_tids t \<noteq> []"
    using assms unfolding core_part_def by - (elim conjE, assumption)+
  show "same_graph (x_rq s) (x_rq t)" "runq_running t = runq_running s" "runq_complete t = runq_complete s"
    "active (stats t) = active (stats s)" "total (stats t) = total (stats s)" "live_real t = live_real s"
    "set (runq_buildable s) \<subseteq> set (runq_buildable t)"
    "set (buildable_set (sched t)) \<subseteq> set (buildable_set (sched s)) \<union> set (runq_buildable t)"
    "set (failed_tids s) \<subseteq> set (failed_tids t)" "rq_state t = rq_state s \<or> rq_state t = RqCleanUp"
    using assms unfolding core_part_def by - (elim conjE, assumption)+
  show "x \<in> set (runq_buildable t) \<Longrightarrow> x \<notin> set (runq_buildable s) \<Longrightarrow>
      x \<in> set (dkeys (x_rq s)) \<and> deps_set (x_rq s) x \<subseteq> set (runq_complete s)"
    by (rule bspec [OF all]) (rule DiffI)
  show "building t \<Longrightarrow> failed_tids t = failed_tids s" by (rule mp [OF 1])
  show "ignore_tasks c = None \<Longrightarrow> rq_state t = RqCleanUp \<Longrightarrow> rq_state s = RqCleanUp \<or> failed_tids t \<noteq> []"
    by (rule mp [OF mp [OF 2]])
qed

lemma core_part_same:
  assumes "core_part c s t"
  shows "dkeys (x_rq t) = dkeys (x_rq s)" "deps_set (x_rq t) = deps_set (x_rq s)" "graph_ok (x_rq t) = graph_ok (x_rq s)"
  using core_partD(1) [OF assms] same_graph_ok [OF core_partD(1) [OF assms]]
  by (simp_all add: same_graph_def deps_set_def fun_eq_iff del: set_map)

lemma core_part_building: "core_part c s t \<Longrightarrow> building t \<Longrightarrow> building s"
  using core_partD(11) [of c s t] by (auto simp: building_def)

lemma core_part_trans:
  assumes l: "core_part c a b" and r: "core_part c b d"
  shows "core_part c a d"
proof -
  note l' = core_partD [OF l] and r' = core_partD [OF r] and k = core_part_same [OF l]
  have 1: "same_graph (x_rq a) (x_rq d)" using l'(1) r'(1) by (rule same_graph_trans)
  have 2: "x \<in> set (dkeys (x_rq a)) \<and> deps_set (x_rq a) x \<subseteq> set (runq_complete a)"
    if "x \<in> set (runq_buildable d) - set (runq_buildable a)" for x
    using l'(3) l'(8) [of x] r'(8) [of x] that unfolding k by auto
  have 3: "set (buildable_set (sched d)) \<subseteq> set (buildable_set (sched a)) \<union> set (runq_buildable d)"
    using l'(9) r'(7,9) by blast
  have 4: "failed_tids d = failed_tids a" if "building d"
    using r'(12) [OF that] l'(12) core_part_building [OF r that] by simp
  have 5: "rq_state a = RqCleanUp \<or> failed_tids d \<noteq> []" if "ignore_tasks c = None" "rq_state d = RqCleanUp"
    using r'(13) [OF that] l'(13) [OF that(1)] r'(10) by auto
  have 6: "rq_state d = rq_state a \<or> rq_state d = RqCleanUp" using l'(11) r'(11) by auto
  have 7: "set (runq_buildable a) \<subseteq> set (runq_buildable d)" "set (failed_tids a) \<subseteq> set (failed_tids d)"
    using l'(7,10) r'(7,10) by blast+
  show ?thesis unfolding core_part_def
    by (intro conjI 1 ballI 2 3 4 5 6 7 impI) (simp_all add: l'(2-6) r'(2-6))
qed

lemma core_step_refl [simp]: "core_step c s s"
  by (simp add: core_step_def)

lemma core_step_trans: "core_step c a b \<Longrightarrow> core_step c b d \<Longrightarrow> core_step c a d"
  unfolding core_step_def using core_part_trans by fastforce

lemma core_more_trans: "core_step c a b \<Longrightarrow> core_more c b d \<Longrightarrow> core_more c a d"
  unfolding core_step_def core_more_def using core_part_trans by fastforce

lemma core_step_more: "core_step c s t \<Longrightarrow> core_more c s t"
  by (simp add: core_step_def core_more_def)

interpretation core: frame "core_step c" for c
  by unfold_locales (simp, erule (1) core_step_trans)

lemma more_bind:
  "core_step c s (snd r) \<Longrightarrow> (\<And>a t. core_more c t (snd (f a t))) \<Longrightarrow> core_more c s (snd (bind_st r f))"
  by (cases r; cases "fst r") (auto simp: bind_st_def intro: core_more_trans core_step_more)

lemma core_part_wake: "core_part c s t \<Longrightarrow> wake_inv s \<Longrightarrow> wake_inv t"
  using core_partD(7) [of c s t] unfolding wake_inv_def
  by (simp add: core_part_same core_partD(3) del: set_map) blast

lemma core_part_run:
  assumes r: "core_part c s t" and i: "run_inv c s"
  shows "run_inv c t"
proof -
  note d = core_partD [OF r] and k = core_part_same [OF r]
  have i': "dep_inv s" "total (stats s) = int (length (x_rq s))"
    "ignore_tasks c = None \<Longrightarrow> count_inv s" "ignore_tasks c = None \<Longrightarrow> rq_state s = RqCleanUp \<Longrightarrow> failed_tids s \<noteq> []"
    using i by (simp_all add: run_inv_def)
  have "length (x_rq t) = length (x_rq s)" using k(1) by (metis length_map)
  moreover have "dep_inv t"
  proof -
    have "deps_set (x_rq s) x \<subseteq> set (runq_complete s) \<and> x \<in> set (dkeys (x_rq s))" if "x \<in> set (runq_buildable t)" for x
      using i'(1) d(8) [OF that] unfolding dep_inv_def by blast
    moreover have "set (runq_running s) \<subseteq> set (runq_buildable t)" "set (buildable_set (sched t)) \<subseteq> set (runq_buildable t)"
      using d(7,9) i'(1) unfolding dep_inv_def by blast+
    moreover have "graph_ok (x_rq s)" "set (runq_complete s) \<subseteq> set (runq_running s)"
      using i'(1) unfolding dep_inv_def by blast+
    ultimately show ?thesis unfolding dep_inv_def k d(2,3) by blast
  qed
  moreover have "count_inv t" if "ignore_tasks c = None"
    using i'(3) [OF that] core_part_building [OF r] d(12) unfolding count_inv_def d(2,4,6) by auto
  moreover have "failed_tids t \<noteq> []" if "ignore_tasks c = None" "rq_state t = RqCleanUp"
    using d(13) [OF that] i'(4) that d(10) by auto
  ultimately show ?thesis using d(5) i'(2) unfolding run_inv_def by simp
qed

lemma core_part_inv: "core_part c s t \<Longrightarrow> build_inv c s \<Longrightarrow> build_inv c t"
  unfolding build_inv_def using core_part_run core_part_wake by blast

lemmas core_defs = core_step_def core_part_def live_real_def building_def

lemma scene_core: "scene_step s t \<Longrightarrow> core_step c s t"
  by (simp add: scene_step_def run_part_def scene_part_def core_defs)

section \<open>The setscene side\<close>

lemma core_upd [simp]:
  "core_step c s (s\<lparr>sq_running := xs\<rparr>)" "core_step c s (s\<lparr>sq_deferred := d\<rparr>)" "core_step c s (s\<lparr>scene_pos := n\<rparr>)"
  "core_step c s (s\<lparr>scenequeue_notneeded := xs, sq_deferred := d\<rparr>)"
  "core_step c s (s\<lparr>scenequeue_covered := xs\<rparr>)" "core_step c s (s\<lparr>scenequeue_notcovered := xs\<rparr>)"
  "core_step c s (s\<lparr>sq_live := remove_from x (sq_live s)\<rparr>)" "core_step c s (count_live s)"
  "core_step c s (s\<lparr>updated_taskhash_queue := q\<rparr>)" "core_step c s (s\<lparr>pending_migrations := xs\<rparr>)"
  "core_step c s (s\<lparr>tasks_covered := xs, tasks_notcovered := ys\<rparr>)" "core_step c s (s\<lparr>holdoff_tasks := xs\<rparr>)"
  "core_step c s (s\<lparr>holdoff_need_update := b\<rparr>)" "core_step c s (s\<lparr>sqdone := b\<rparr>)"
  "core_step c s (s\<lparr>build_stamps2 := bs2, build_stamps := bs\<rparr>)" "core_step c s (s\<lparr>stampcache := ch\<rparr>)"
  "core_step c s (s\<lparr>sq_buildable := xs\<rparr>)" "core_step c s (s\<lparr>stamp_files := fs\<rparr>)"
  by (simp_all add: core_defs count_live_def updateActiveSetscene_def)

lemma core_scene [simp]:
  "core_step c s (snd (stamp_check c tid n b s))" "core_step c s (snd (scenequeue_updatecounters c w t b s))"
  "core_step c s (snd (sq_task_completeoutright c w t s))" "core_step c s (snd (sq_task_failoutright c w t s))"
  "core_step c s (snd (sq_task_skip c w t s))" "core_step c s (snd (update_scenequeue_data c w tids s))"
  "core_step c s (snd (defer_equal c s))"
  by (simp_all add: scene_core)

lemma sq_task_fail_core [simp]: "core_step c s (snd (sq_task_fail c w t s))"
  unfolding sq_task_fail_def
  by (rule core.seq [OF core_step_trans [OF core_upd(6) core_scene(2)]])
    (auto simp: sq_check_taskfail_def core_defs split: option.splits)

lemma skip_unneeded_core [simp]: "core_step c s (snd (skip_unneeded c w t s))"
  unfolding skip_unneeded_def by (rule core.bind) simp_all

lemma last_checks_core [simp]: "core_step c s (snd (last_checks c w t s))"
proof -
  let ?fails = "\<lambda>s. bind_st (sq_task_failoutright c w t s) (\<lambda>_ s1. (Inr Return, s1))"
  let ?rest = "\<lambda>s. if t \<in> set (outrightfail (sqd s)) then ?fails s else (Inr (Start t), s)"
  have f: "core_step c s (snd (?fails s))" for s by (rule core.bind) simp_all
  then have r: "core_step c s (snd (?rest s))" for s by simp
  have d: "core_step c s (snd (?fails (s\<lparr>sq_deferred := q\<rparr>)))" "core_step c s (snd (?rest (s\<lparr>sq_deferred := q\<rparr>)))" for q
    by (rule core_step_trans [OF core_upd(2) f], rule core_step_trans [OF core_upd(2) r])
  show ?thesis unfolding last_checks_def Let_def
    by (rule core.key) (use r [of s] d in \<open>simp split: sum.split\<close>)
qed

lemma enable_hard_core [simp]: "core_step c s (snd (enable_hard t hs s))"
  by (simp add: enable_hard_def Let_def core_defs)

lemma try_scene_core [simp]: "core_step c s (snd (try_scene c w t s))"
proof -
  have e: "core_step c s (snd (case enable_hard t hs s of (p, s1) \<Rightarrow> (Inr p, s1)))" for hs
    using enable_hard_core [of c s t hs] by (cases "enable_hard t hs s") simp
  show ?thesis unfolding try_scene_def
    by (rule core.choice, simp, cases "may_skip c w t s", simp, cases "dget (sq_harddeps_rev (sqd s)) t")
      (simp_all add: e)
qed

lemma pick_scene_core [simp]: "core_step c s (snd (pick_scene n c w s))"
proof (induction n arbitrary: s)
  case (Suc n)
  let ?s = "s\<lparr>scene_pos := Suc (scene_pos s) mod length (scene_tids c)\<rparr>"
  have "core_step c ?s (snd (pick_scene n c w ?s))" by (rule Suc.IH)
  then have one: "core_step c s (snd (pick_scene n c w ?s))" by (rule core_step_trans [OF core_upd(3)])
  have "core_step c ?s (snd (bind_st (try_scene c w t ?s) (\<lambda>p s1. if p = Continue then pick_scene n c w s1 else (Inr p, s1))))" for t
    by (rule core.bind) (simp_all add: Suc.IH)
  then have "core_step c s (snd (bind_st (try_scene c w t ?s) (\<lambda>p s1. if p = Continue then pick_scene n c w s1 else (Inr p, s1))))" for t
    by (rule core_step_trans [OF core_upd(3)])
  with one show ?case by (auto simp: Let_def split: sum.splits bool.splits)
qed simp

text \<open>At most one setscene task is started.\<close>

lemma launch_scene_core: "core_more c s (snd (launch_scene c w t mc n fn s))"
  by (simp add: launch_scene_def Let_def core_more_def core_defs note_stamp_def count_live_def
      updateActiveSetscene_def append_new_def split: sum.splits)

lemma start_scene_core: "core_more c s (snd (start_scene c w t s))"
proof (cases "split_tid_mcfn t")
  case (Some p)
  obtain mc fn tn taskfn where p: "p = (mc, fn, tn, taskfn)" by (cases p) auto
  let ?fails = "\<lambda>s. bind_st (sq_task_failoutright c w t s) (\<lambda>_ s1. (Inr True, s1))"
  let ?skips = "\<lambda>s. bind_st (sq_task_skip c w t s) (\<lambda>_ s3. (Inr True, s3))"
  have fails: "core_more c s (snd (?fails s))" and skips: "core_more c s (snd (?skips s))" for s
    by (rule core_step_more, rule core.bind, simp_all)+
  have "core_more c s1 (snd (bind_st (stamp_check c t (tn @ ''_setscene'') False s1) (\<lambda>present s2.
      if present then ?skips s2 else if opt_skipsetscene c then ?fails s2
      else launch_scene c w t mc (tn @ ''_setscene'') taskfn s2)))" for s1
    by (rule more_bind) (simp_all add: fails skips launch_scene_core)
  then show ?thesis unfolding start_scene_def Let_def Some p
    by (simp, intro more_bind) (simp_all add: fails)
qed (simp add: start_scene_def core_step_more)

lemma scene_part_core: "core_more c s (snd (scene_part_of c w s))"
proof -
  have "core_more c s (snd (bind_st (pick_scene n c w s) (\<lambda>p s1. case p of
      Continue \<Rightarrow> (Inr False, s1) | Return \<Rightarrow> (Inr True, s1) | Start t \<Rightarrow> start_scene c w t s1)))" for n
    by (rule more_bind [OF pick_scene_core]) (simp add: core_step_more start_scene_core split: pick.split)
  then show ?thesis by (simp add: scene_part_of_def core_step_more)
qed

section \<open>Changed hashes\<close>

lemma update_entry_core [simp]:
  assumes "\<And>e. depends (f e) = depends e" "\<And>e. revdeps (f e) = revdeps e"
  shows "core_step c s (snd (update_entry t f s))"
  unfolding update_entry_def with_key_def
  by (auto split: option.splits simp: core_defs intro!: same_graph_dset [OF _ assms])

lemma take_update_core: "core_step c (snd p) (snd (snd (take_update u p)))"
proof -
  obtain tid uh todo s where u: "u = (tid, uh)" "p = (todo, s)" by (cases u, cases p) auto
  let ?s = "s\<lparr>updated_taskhash_queue := remove_first (tid, uh) (updated_taskhash_queue s)\<rparr>"
  have "core_step c ?s (snd (foreach (\<lambda>h. update_entry h (\<lambda>e. e\<lparr>unihash := Some uh\<rparr>)) hs ?s))" for hs
    by (intro core.loop update_entry_core) simp_all
  then have "core_step c s (snd (foreach (\<lambda>h. update_entry h (\<lambda>e. e\<lparr>unihash := Some uh\<rparr>)) hs ?s))" for hs
    by (rule core_step_trans [OF core_upd(9)])
  then have c: "core_step c s (snd (snd (case foreach (\<lambda>h. update_entry h (\<lambda>e. e\<lparr>unihash := Some uh\<rparr>)) hs ?s of
      (r, s2) \<Rightarrow> (r, add_all hs todo, s2))))" for hs
  proof -
    obtain r t where rt: "foreach (\<lambda>h. update_entry h (\<lambda>e. e\<lparr>unihash := Some uh\<rparr>)) hs ?s = (r, t)" by fastforce
    show ?thesis using rt \<open>\<And>hs. core_step c s (snd (foreach (\<lambda>h. update_entry h (\<lambda>e. e\<lparr>unihash := Some uh\<rparr>)) hs ?s))\<close> [of hs]
      by simp
  qed
  have up: "core_step c s ?s" by (rule core_upd)
  show ?thesis unfolding take_update_def u prod.case Let_def with_key_def
    by (auto simp: up simp del: foreach.simps split: option.split intro!: c)
qed

lemma take_updates_core: "core_step c (snd p) (snd (snd (foreach take_update us p)))"
  by (rule foreach_rel [where R = "\<lambda>p q. core_step c (snd p) (snd q)"])
    (auto intro: core_step_trans take_update_core)

lemma rehash_task_core: "core_step c (r_exec r) (r_exec (snd (rehash_task w t r)))"
proof -
  have "core_step c s (s\<lparr>x_rq := dset t (e\<lparr>hash := h, unihash := u\<rparr>) (x_rq s)\<rparr>)" if "dget (x_rq s) t = Some e" for s e h u
    using same_graph_dset [OF that] by (simp add: core_defs)
  then show ?thesis by (auto simp: rehash_task_def Let_def with_key_def split: option.splits)
qed

lemma rehash_round_core: "core_step c (r_exec r) (r_exec (snd (rehash_round w b r)))"
proof -
  have "core_step c (r_exec q) (r_exec (snd (foreach (rehash_task w) ts q)))" for ts q
    by (rule foreach_rel [where R = "\<lambda>p q. core_step c (r_exec p) (r_exec q)"])
      (auto intro: core_step_trans rehash_task_core)
  from this [of "r\<lparr>r_next := []\<rparr>"] show ?thesis by (simp add: rehash_round_def split: sum.splits)
qed

lemma rehash_loop_core: "core_step c (r_exec r) (r_exec (snd (rehash_loop w b r)))"
proof (induction w b r rule: rehash_loop.induct)
  case (1 w b r)
  obtain q r1 where q: "rehash_round w b r = (q, r1)" by fastforce
  have one: "core_step c (r_exec r) (r_exec r1)" using rehash_round_core [of c r w b] q by simp
  show ?case
  proof (cases "r_next r = []")
    case False
    show ?thesis
    proof (cases q)
      case (Inr u)
      then have "core_step c (r_exec r1) (r_exec (snd (rehash_loop w b r1)))" using 1 [OF False] q by simp
      then show ?thesis using core_step_trans [OF one] q Inr False by (simp add: rehash_loop.simps [of w b r])
    qed (use one q False in \<open>simp add: rehash_loop.simps [of w b r]\<close>)
  qed (simp add: rehash_loop.simps)
qed

lemma rehash_all_core: "core_step c s (snd (rehash_all c w s))"
proof -
  obtain r todo s1 where t: "foreach take_update (updated_taskhash_queue s) ([], s) = (r, todo, s1)"
    by (metis prod.exhaust)
  have one: "core_step c s s1" using take_updates_core [of c "([], s)"] t by (metis snd_conv)
  have loop: "core_step c s1 (r_exec (snd (rehash_loop w b \<lparr>r_rest = x, r_next = y, r_changed = z, r_exec = s1\<rparr>)))" for b x y z
    using rehash_loop_core [of c "\<lparr>r_rest = x, r_next = y, r_changed = z, r_exec = s1\<rparr>" w b] by simp
  show ?thesis using t one core_step_trans [OF one loop]
    by (auto simp: rehash_all_def Let_def split: sum.splits prod.splits) (metis snd_conv)+
qed

lemma unsettle_core: "core_step c s (snd (unsettle ds s))"
proof (induction ds arbitrary: s)
  case (Cons d ds)
  have "core_step c s (s\<lparr>tasks_scenequeue_done := xs\<rparr>)" for xs by (simp add: core_defs)
  from core_step_trans [OF this Cons.IH] Cons.IH [of s] show ?case by simp
qed simp

lemma reset_scene_core: "core_step c s (reset_scene c tid n fn s)"
  by (simp add: reset_scene_def core_defs)

lemma migrate_tasks_core: "core_step c s (snd (migrate_tasks c tids s))"
proof (induction tids arbitrary: s)
  case (Cons tid tids)
  show ?case
  proof (cases "tid \<in> set (runq_running s) \<or> tid \<in> set (sq_live s)")
    case True
    then show ?thesis using core_step_trans [OF core_upd(10) Cons.IH] by simp
  next
    case False
    let ?s = "s\<lparr>pending_migrations := remove_from tid (pending_migrations s),
        tasks_scenequeue_done := remove_from tid (tasks_scenequeue_done s)\<rparr>"
    have s0: "core_step c s ?s" by (simp add: core_defs)
    have un: "core_step c s (snd (unsettle cov ?s))" for cov by (rule core_step_trans [OF s0 unsettle_core])
    have stop: "core_step c s (t\<lparr>failed_tids := failed_tids t @ [tid], rq_state := RqCleanUp\<rparr>)" if "core_step c s t" for t
    proof -
      have "tid \<notin> set (runq_running t)"
        using that False core_partD(2) [of c s t] by (simp add: core_step_def)
      then have "core_step c t (t\<lparr>failed_tids := failed_tids t @ [tid], rq_state := RqCleanUp\<rparr>)"
        by (auto simp: core_defs)
      with that show ?thesis by (rule core_step_trans)
    qed
    have go: "core_step c t (snd (bind_st (migrate_tasks c tids (reset_scene c tid n fn t))
        (\<lambda>r s2. (Inr (map_option ((#) tid) r), s2))))" for n fn t
      by (rule core.bind) (simp_all add: core_step_trans [OF reset_scene_core Cons.IH])
    have "core_step c s (snd (case unsettle cov ?s of
                (True, s1) \<Rightarrow> (Inr None, s1\<lparr>failed_tids := failed_tids s1 @ [tid], rq_state := RqCleanUp\<rparr>)
              | (False, s1) \<Rightarrow> (case split_tid_mcfn tid of
                     None \<Rightarrow> (Inl ValueError, s1)
                   | Some (mc, fn, taskname, taskfn) \<Rightarrow>
                       bind_st (migrate_tasks c tids (reset_scene c tid taskname taskfn s1))
                         (\<lambda>r s2. (Inr (map_option ((#) tid) r), s2)))))" for cov
    proof -
      obtain b t where bt: "unsettle cov ?s = (b, t)" by fastforce
      have "core_step c s t" using un [of cov] bt by simp
      note t = this
      show ?thesis
      proof (cases b)
        case True
        then show ?thesis using stop [OF t] bt by simp
      next
        case no: False
        show ?thesis
        proof (cases "split_tid_mcfn tid")
          case None
          then show ?thesis using t bt no by simp
        next
          case (Some p)
          obtain mc fn tn taskfn where "p = (mc, fn, tn, taskfn)" by (cases p) auto
          then show ?thesis using Some bt no core_step_trans [OF t go] by simp
        qed
      qed
    qed
    then have "core_step c s (snd (if P cov then migrate_tasks c tids s else (case unsettle cov ?s of
                (True, s1) \<Rightarrow> (Inr None, s1\<lparr>failed_tids := failed_tids s1 @ [tid], rq_state := RqCleanUp\<rparr>)
              | (False, s1) \<Rightarrow> (case split_tid_mcfn tid of
                     None \<Rightarrow> (Inl ValueError, s1)
                   | Some (mc, fn, taskname, taskfn) \<Rightarrow>
                       bind_st (migrate_tasks c tids (reset_scene c tid taskname taskfn s1))
                         (\<lambda>r s2. (Inr (map_option ((#) tid) r), s2))))))" for P cov
      by (intro core.choice Cons.IH)
    then show ?thesis unfolding migrate_tasks.simps if_not_P [OF False] by (rule core.key)
  qed
qed simp

lemma requeue_scene_core: "core_step c s (snd (requeue_scene tids s))"
proof (induction tids arbitrary: s)
  case (Cons tid tids)
  have "core_step c s (snd (bind_st (requeue_scene tids (if P then s\<lparr>sq_buildable := xs\<rparr> else s))
      (\<lambda>us s2. (Inr ((tid, b) # us), s2))))" for P xs b
    by (rule core.after [of c s "if P then s\<lparr>sq_buildable := xs\<rparr> else s"], simp, rule core.bind) (simp_all add: Cons.IH)
  then show ?case unfolding requeue_scene.simps Let_def by (intro core.key)
qed simp

lemma defer_again_core: "core_step c s (snd (defer_again c mc tid s))"
  by (auto simp: defer_again_def split: sum.splits option.splits)

lemma restart_scene_core: "core_step c s (snd (restart_scene c w us s))"
proof -
  have "core_step c s (snd (seq_st (foreach (\<lambda>mc. foreach (defer_again c mc) (sort (map fst us)))
           (sort (multiconfigs (sqd s))) (s\<lparr>sqdone := False\<rparr>)) (update_scenequeue_data c w (map fst us))))"
    by (rule core.seq [OF core.after [OF core_upd(14)]]) (auto intro!: core.loop defer_again_core)
  then show ?thesis unfolding restart_scene_def
    by (intro core.seq core.loop) auto
qed

lemma after_change_core: "core_step c s (after_change s)"
  by (simp add: after_change_def count_covered_def updateCovered_def core_defs)

lemma process_possible_migrations_core [simp]: "core_step c s (snd (process_possible_migrations c w s))"
proof -
  have m: "core_step c s (snd (migrate_pending c w b s))" for b s
    unfolding migrate_pending_def
    by (rule core.bind [OF migrate_tasks_core])
      (auto split: option.splits intro!: core.rules requeue_scene_core restart_scene_core after_change_core)
  show ?thesis unfolding process_possible_migrations_def
    by (rule core.bind [OF rehash_all_core]) (rule core.after [OF core_upd(10) m])
qed

section \<open>Covered tasks and the scheduler\<close>

lemma setbuildable_core:
  "x \<in> set (dkeys (x_rq s)) \<Longrightarrow> deps_set (x_rq s) x \<subseteq> set (runq_complete s) \<Longrightarrow> core_step c s (setbuildable x s)"
  by (auto simp: setbuildable_def newbuildable_def core_defs)

lemma make_buildable_core [simp]: "core_step c s (snd (make_buildable x s))"
  by (auto simp: make_buildable_def with_key_def deps_set_def depends_of_def dget_in_dkeys
      split: option.split intro!: setbuildable_core simp del: set_map)

lemma hold_task_core [simp]: "core_step c s (snd (hold_task x s))"
  by (simp add: hold_task_def core.key)

lemma hold_unsettled_core: "core_step c s (snd (hold_unsettled c s))"
  unfolding hold_unsettled_def Let_def
  by (rule core.seq [OF core.after [OF core_upd(12) core.loop]]) simp_all

lemma update_holdofftasks_core: "core_step c s (snd (update_holdofftasks c s))"
proof -
  have "core_step c s (snd (seq_st (foreach make_buildable ts s)
      (\<lambda>s1. hold_unsettled c (s1\<lparr>tasks_covered := cov, tasks_notcovered := nc\<rparr>))))" for ts cov nc
    by (rule core.seq [OF core.loop]) (auto intro: core_step_trans [OF core_upd(11) hold_unsettled_core])
  then show ?thesis by (auto simp: update_holdofftasks_def Let_def split: sum.split)
qed

lemma pick_best_mem:
  "pick_best v s sb ts best = Inr (Some p) \<Longrightarrow> fst p \<in> set ts \<or> best = Some p"
proof (induction ts arbitrary: best)
  case (Cons t ts)
  have "\<exists>b. pick_best v s sb ts b = Inr (Some p) \<and> (b = best \<or> (\<exists>n. b = Some (t, n)))"
    using Cons.prems by (auto simp: bind_res_Inr_iff split: option.splits if_splits)
  then obtain b where b: "pick_best v s sb ts b = Inr (Some p)" "b = best \<or> (\<exists>n. b = Some (t, n))" by blast
  with Cons.IH [OF b(1)] show ?case by auto
qed simp

lemma index_then_pick_result:
  assumes "index_then_pick rq v sb ts s = (r, s')"
  shows "buildable_set s' = buildable_set s" "r = Inr (Some t) \<Longrightarrow> t \<in> set ts"
  using assms pick_best_mem [of v _ sb ts None]
  by (auto simp: index_then_pick_def Let_def bind_res_Inr_iff split: prod.splits sum.splits if_splits)

lemma pick_candidate_result:
  assumes "(case cands of
      [tid] \<Rightarrow> (case single_buildable v s sb tid of
         Inl e \<Rightarrow> (Inl e, s) | Inr (Some r) \<Rightarrow> (Inr r, s) | Inr None \<Rightarrow> index_then_pick rq v sb [] s)
    | _ \<Rightarrow> index_then_pick rq v sb cands s) = (r, s')"
  shows "buildable_set s' = buildable_set s \<and> (r = Inr (Some t) \<longrightarrow> t \<in> set cands)"
proof (cases "\<exists>x. cands = [x]")
  case True
  then obtain x where x: "cands = [x]" by blast
  show ?thesis
  proof (cases "single_buildable v s sb x")
    case (Inr q)
    show ?thesis
    proof (cases q)
      case None
      then show ?thesis using assms x Inr index_then_pick_result [of rq v sb "[]" s r s'] by auto
    next
      case (Some y)
      have "y = None \<or> y = Some x"
        using Inr Some by (auto simp: single_buildable_def bind_res_Inr_iff split: option.splits if_splits)
      then show ?thesis using assms x Inr Some by auto
    qed
  qed (use assms x in auto)
next
  case False
  then have "index_then_pick rq v sb cands s = (r, s')" using assms by (auto split: list.splits)
  then show ?thesis using index_then_pick_result by blast
qed

lemma next_task_result:
  assumes "next_task b ex flag rq v sch = (r, sch')"
  shows "set (buildable_set sch') \<subseteq> set (buildable_set sch)"
    and "r = Inr (Some t) \<Longrightarrow> b \<and> t \<in> set (buildable_set sch) \<and> t \<notin> set (rq_view.runq_running v)"
proof -
  let ?s0 = "sch\<lparr>buildable_set := filter (\<lambda>t. t \<notin> set (rq_view.runq_running v)) (buildable_set sch)\<rparr>"
  have c: "set (candidates v ?s0) \<subseteq> set (buildable_set sch) - set (rq_view.runq_running v)"
    by (auto simp: candidates_def)
  let ?count = "count_running flag (filter (\<lambda>t. t \<notin> set (rq_view.runq_complete v)) (rq_view.runq_running v))
      (skip_maxthread ?s0, [])"
  have "set (buildable_set sch') \<subseteq> set (buildable_set sch) \<and> (r = Inr (Some t) \<longrightarrow> b \<and> t \<in> set (candidates v ?s0))"
  proof (cases "\<not> b \<or> candidates v ?s0 = [] \<or> (stats_active v \<noteq> 0 \<and> ex) \<or> (\<exists>e. ?count = Inl e)")
    case True
    then show ?thesis using assms
      by (cases b) (auto simp: next_task_def next_buildable_task_def Let_def split: if_splits)
  next
    case False
    then obtain sm sb where "?count = Inr (sm, sb)" by (cases ?count) auto
    with False assms show ?thesis
      using pick_candidate_result [where cands = "candidates v ?s0" and v = v and sb = sb and rq = rq
          and s = "?s0\<lparr>skip_maxthread := sm\<rparr>" and r = r and s' = sch' and t = t]
      by (auto simp: next_task_def next_buildable_task_def Let_def)
  qed
  then show "set (buildable_set sch') \<subseteq> set (buildable_set sch)"
    "r = Inr (Some t) \<Longrightarrow> b \<and> t \<in> set (buildable_set sch) \<and> t \<notin> set (rq_view.runq_running v)"
    using c by blast+
qed

lemma next_real_task_result:
  assumes "next_real_task c w s = (r, t)"
  shows "core_step c s t" "sq_live t = sq_live s"
    and "r = Inr (Some x) \<Longrightarrow> can_start_task c t \<and> x \<in> set (buildable_set (sched s)) \<and> x \<notin> set (runq_running t)"
proof -
  show one: "core_step c s t" and "sq_live t = sq_live s"
    using assms next_task_result(1) [of "can_start_task c s" "pressure w" "thread_limit c" "x_rq s" "view_of s" "sched s"]
    by (auto simp: next_real_task_def core_defs split: if_splits prod.splits)
  show "r = Inr (Some x) \<Longrightarrow> can_start_task c t \<and> x \<in> set (buildable_set (sched s)) \<and> x \<notin> set (runq_running t)"
    using assms next_task_result(2) [of "can_start_task c s" "pressure w" "thread_limit c" "x_rq s" "view_of s" "sched s"]
    by (auto simp: next_real_task_def view_of_def rq_view.make_def can_start_task_def live_tasks_def split: if_splits prod.splits)
qed

section \<open>Real tasks that end\<close>

lemma undefer_core: "core_step c (snd p) (snd (snd (undefer c w t x p)))"
proof -
  obtain f s where p: "p = (f, s)" by fastforce
  have "core_step c s (snd (update_scenequeue_data c w [x] (s\<lparr>sq_deferred := d\<rparr>)))" for d
    by (rule core.after [OF core_upd(2)]) (rule core_scene)
  then have "core_step c s s1" if "update_scenequeue_data c w [x] (s\<lparr>sq_deferred := d\<rparr>) = (r, s1)" for d r s1
    using that by (metis snd_conv)
  then show ?thesis by (auto simp: p undefer_def with_key_def split: option.splits prod.splits sum.splits)
qed

lemma undefer_all_core: "core_step c s (snd (undefer_all c w t s))"
proof -
  have "core_step c (snd p) (snd (snd (foreach (undefer c w t) xs p)))" for xs p
    by (rule foreach_rel [where R = "\<lambda>p q. core_step c (snd p) (snd q)"])
      (auto intro: undefer_core core_step_trans)
  from this [of "(None, s)" "sort (dkeys (sq_deferred s))"] show ?thesis
    by (cases "foreach (undefer c w t) (sort (dkeys (sq_deferred s))) (None, s)") (simp add: undefer_all_def)
qed

lemma wake_revdep_core [simp]: "core_step c s (snd (wake_revdep x s))"
  by (auto simp: wake_revdep_def with_key_def deps_set_def depends_of_def dget_in_dkeys
      split: option.split intro!: setbuildable_core simp del: set_map)

lemma wake_revdep_wakes:
  assumes "wake_revdep x s = (Inr (), t)" "set (runq_running s) \<subseteq> set (runq_buildable s)"
    "deps_set (x_rq s) x \<subseteq> set (runq_complete s)"
  shows "x \<in> set (runq_buildable t)"
proof (cases "x \<in> set (runq_running s) \<or> x \<in> set (runq_buildable s)")
  case False
  then obtain e where "dget (x_rq s) x = Some e"
    using assms(1) by (auto simp: wake_revdep_def with_key_def split: option.splits)
  then show ?thesis using assms(1,3) False
    by (auto simp: wake_revdep_def with_key_def setbuildable_def deps_set_def depends_of_def)
qed (use assms in \<open>auto simp: wake_revdep_def\<close>)

text \<open>
  What the messages keep: the invariants, and the number of live tasks does not grow; the build is
  not complete when it was not, unless a worker died.
\<close>

definition keeps :: "conf \<Rightarrow> bool \<Rightarrow> exec \<Rightarrow> exec \<Rightarrow> bool" where
  "keeps c died s t \<longleftrightarrow> (build_inv c s \<longrightarrow> build_inv c t \<and> same_graph (x_rq s) (x_rq t) \<and> live_tasks t \<le> live_tasks s \<and>
     (\<not> died \<longrightarrow> rq_state t = RqComplete \<longrightarrow> rq_state s = RqComplete))"

lemma keeps_trans: "keeps c d a b \<Longrightarrow> keeps c d b e \<Longrightarrow> keeps c d a e"
  unfolding keeps_def using same_graph_trans [of "x_rq a" "x_rq b" "x_rq e"] by auto

lemma core_live: "core_step c s t \<Longrightarrow> live_tasks t \<le> live_tasks s"
  using core_partD(4) [of c s t] by (simp add: core_step_def live_tasks_def)

lemma core_phase: "core_step c s t \<Longrightarrow> rq_state t = RqComplete \<Longrightarrow> rq_state s = RqComplete"
  using core_partD(11) [of c s t] by (auto simp: core_step_def)

lemma core_graph: "core_step c s t \<Longrightarrow> same_graph (x_rq s) (x_rq t)"
  using core_partD(1) unfolding core_step_def by blast

lemma core_inv: "core_step c s t \<Longrightarrow> build_inv c s \<Longrightarrow> build_inv c t"
  using core_part_inv unfolding core_step_def by blast

lemma core_keeps: "core_step c s t \<Longrightarrow> keeps c d s t"
  using core_live core_phase core_inv core_graph unfolding keeps_def by blast

text \<open>After a task is complete, what depends on it is looked at, so that nothing is forgotten.\<close>

lemma completeoutright_result:
  assumes i: "dep_inv s" "wake_inv s" and t: "t \<in> set (runq_running s)"
  defines "s0 \<equiv> s\<lparr>runq_complete := append_new t (runq_complete s)\<rparr>"
  shows "core_step c s0 (snd (task_completeoutright c w t s))" "wake_inv (snd (task_completeoutright c w t s))"
proof -
  have sub: "set (runq_running s) \<subseteq> set (runq_buildable s)" "set (runq_buildable s) \<subseteq> set (dkeys (x_rq s))"
    and ok: "graph_ok (x_rq s)" using i(1) unfolding dep_inv_def by blast+
  obtain e where e: "dget (x_rq s) t = Some e" using sub t dget_in_dkeys [of t "x_rq s"] by blast
  then have rv: "revdeps e = revdeps_of (x_rq s) t" by (simp add: revdeps_of_def)
  obtain r s1 where loop: "foreach wake_revdep (revdeps e) s0 = (r, s1)" by fastforce
  have one: "core_step c s0 s1"
    using core.loop [of "revdeps e" c wake_revdep s0] loop by simp
  then have p1: "core_part c s0 s1" by (simp add: core_step_def)
  have ran: "r = Inr ()"
  proof -
    have "fst (foreach wake_revdep rs s) = Inr ()" if "set rs \<subseteq> set (dkeys (x_rq s))" for rs s
      using that
    proof (induction rs arbitrary: s)
      case (Cons x rs)
      then obtain e where e: "dget (x_rq s) x = Some e" using dget_in_dkeys [of x "x_rq s"] by auto
      then show ?case using Cons by (auto simp: wake_revdep_def setbuildable_def simp del: set_map)
    qed simp
    moreover have "set (revdeps e) \<subseteq> set (dkeys (x_rq s0))"
      using ok unfolding rv s0_def graph_ok_def by simp
    ultimately show ?thesis using loop by (metis fst_conv)
  qed
  have woken: "x \<in> set (runq_buildable s1)"
    if "x \<in> set (revdeps e)" "deps_set (x_rq s) x \<subseteq> insert t (set (runq_complete s))" for x
  proof -
    let ?R = "\<lambda>u. set (runq_running u) \<subseteq> set (runq_buildable u) \<and> x_rq u = x_rq s \<and> runq_complete u = runq_complete s0"
    have step: "?R u \<Longrightarrow> ?R (snd (wake_revdep y u))" "x \<in> set (runq_buildable u) \<Longrightarrow> x \<in> set (runq_buildable (snd (wake_revdep y u)))" for y u
      by (auto simp: wake_revdep_def with_key_def setbuildable_def split: option.splits)
    have "x \<in> set (runq_buildable s1)" if "foreach wake_revdep rs u = (Inr (), s1)" "x \<in> set rs" "?R u" for rs u
      using that
    proof (induction rs arbitrary: u)
      case (Cons y rs)
      obtain v where v: "wake_revdep y u = (Inr (), v)" "foreach wake_revdep rs v = (Inr (), s1)"
        using Cons.prems(1) by (auto split: prod.splits sum.splits)
      have R: "?R v" using step(1) [OF Cons.prems(3), of y] v(1) by simp
      show ?case
      proof (cases "x = y")
        case True
        have "x \<in> set (runq_buildable v)"
          using wake_revdep_wakes [of x u v] v(1) Cons.prems(3) \<open>deps_set (x_rq s) x \<subseteq> _\<close> True
          by (simp add: s0_def)
        moreover have "x \<in> set (runq_buildable (snd (foreach wake_revdep rs v)))"
          by (rule foreach_inv [where I = "\<lambda>u. x \<in> set (runq_buildable u)"]) (use calculation step(2) in auto)
        ultimately show ?thesis using v(2) by simp
      next
        case False
        then show ?thesis using Cons.IH [OF v(2) _ R] Cons.prems(2) by simp
      qed
    qed simp
    from this [of "revdeps e" s0] loop ran that(1) sub(1) show ?thesis by (simp add: s0_def)
  qed
  have wake: "wake_inv s1" unfolding wake_inv_def
  proof (intro ballI impI)
    fix x assume x: "x \<in> set (dkeys (x_rq s1))" "deps_set (x_rq s1) x \<noteq> {}"
      and d: "deps_set (x_rq s1) x \<subseteq> set (runq_complete s1)"
    note k = core_part_same [OF p1] core_partD(3) [OF p1]
    have d': "deps_set (x_rq s) x \<subseteq> insert t (set (runq_complete s))" using d unfolding k by (simp add: s0_def)
    show "x \<in> set (runq_buildable s1)"
    proof (cases "t \<in> deps_set (x_rq s) x")
      case True
      then have "x \<in> set (revdeps e)" using ok unfolding rv graph_ok_def deps_set_def by blast
      then show ?thesis using woken d' by blast
    next
      case False
      then have "x \<in> set (runq_buildable s)"
        using i(2) x d' unfolding wake_inv_def k by (auto simp: s0_def simp del: set_map)
      then show ?thesis using core_partD(7) [OF p1] by (auto simp: s0_def)
    qed
  qed
  have eq: "task_completeoutright c w t s = undefer_all c w t s1"
    using e loop ran by (simp add: task_completeoutright_def Let_def s0_def)
  have "core_step c s1 (snd (undefer_all c w t s1))" by (rule undefer_all_core)
  then show "core_step c s0 (snd (task_completeoutright c w t s))" "wake_inv (snd (task_completeoutright c w t s))"
    unfolding eq using core_step_trans [OF one] core_part_wake wake unfolding core_step_def by blast+
qed

lemmas stat_defs = taskActive_def taskCompleted_def taskFailed_def taskSkipped_def

text \<open>A task that ran or failed leaves the live tasks.\<close>

lemma finite_live [simp]: "finite (live_real s)"
  by (simp add: live_real_def)

definition live_msg :: "conf \<Rightarrow> string \<Rightarrow> exec \<Rightarrow> bool" where
  "live_msg c t s \<longleftrightarrow> t \<in> set (runq_running s) \<and> (ignore_tasks c = None \<longrightarrow> building s \<longrightarrow> t \<in> live_real s)"

lemma count_less:
  assumes "count_inv s" "building s \<Longrightarrow> t \<in> live_real s" "building s' \<Longrightarrow> building s"
    "live_real s' = live_real s - {t}" "active (stats s') = active (stats s) - 1"
    "building s \<Longrightarrow> set (failed_tids s') \<subseteq> set (runq_running s')"
  shows "count_inv s'"
proof -
  have "Suc (card (live_real s - {t})) = card (live_real s)" if "building s"
    by (rule card_Suc_Diff1 [OF finite_live assms(2) [OF that]])
  then show ?thesis using assms unfolding count_inv_def by (metis add_diff_cancel_left' of_nat_Suc)
qed

lemma task_complete_run:
  assumes i: "build_inv c s" and t: "live_msg c t s"
  shows "run_inv c (s\<lparr>stats := taskCompleted (stats s), runq_complete := append_new t (runq_complete s)\<rparr>)"
    (is "run_inv c ?s")
proof -
  have "dep_inv ?s" using i t unfolding build_inv_def run_inv_def dep_inv_def live_msg_def by auto
  moreover have "count_inv ?s" if "ignore_tasks c = None"
    by (rule count_less [of s t])
      (use i t that in \<open>auto simp: build_inv_def run_inv_def live_msg_def live_real_def building_def stat_defs count_inv_def\<close>)
  ultimately show ?thesis using i unfolding build_inv_def run_inv_def by (simp add: stat_defs)
qed

lemma task_complete_keeps:
  assumes t: "live_msg c t s"
  shows "keeps c d s (snd (task_complete c w t s))"
proof -
  let ?s1 = "s\<lparr>stats := taskCompleted (stats s)\<rparr>" and ?v = "snd (task_complete c w t s)"
  let ?s0 = "?s1\<lparr>runq_complete := append_new t (runq_complete ?s1)\<rparr>"
  obtain r u where u: "task_completeoutright c w t ?s1 = (r, u)" by fastforce
  have tail: "core_step c u ?v" using u by (cases r) (simp_all add: task_complete_def core_defs)
  have "build_inv c ?v \<and> same_graph (x_rq s) (x_rq ?v) \<and> live_tasks ?v \<le> live_tasks s \<and> (rq_state ?v = RqComplete \<longrightarrow> rq_state s = RqComplete)"
    if i: "build_inv c s"
  proof -
    have "dep_inv ?s1" "wake_inv ?s1" "t \<in> set (runq_running ?s1)"
      using i t by (simp_all add: build_inv_def run_inv_def dep_inv_def wake_inv_def live_msg_def)
    from completeoutright_result [OF this, of c w] u have core: "core_step c ?s0 u" and wake: "wake_inv u" by simp_all
    have "run_inv c u"
      using core_part_run [of c ?s0 u] core task_complete_run [OF i t] by (simp add: core_step_def)
    with wake have inv: "build_inv c ?v" by (intro core_inv [OF tail]) (simp add: build_inv_def)
    have all: "core_step c ?s0 ?v" using core tail by (rule core_step_trans)
    have "live_tasks ?s0 \<le> live_tasks s" by (simp add: live_tasks_def stat_defs)
    with inv core_live [OF all] core_phase [OF all] core_graph [OF all] show ?thesis
      by (simp add: setbuildable_def)
  qed
  then show ?thesis by (simp add: keeps_def)
qed

lemma task_fail_keeps:
  assumes t: "live_msg c t s \<or> ignore_tasks c \<noteq> None"
  shows "keeps c d s (task_fail c t s)"
proof -
  have "build_inv c (task_fail c t s)" if i: "build_inv c s"
  proof -
    have "dep_inv (task_fail c t s)" "wake_inv (task_fail c t s)"
      using i by (auto simp: build_inv_def run_inv_def dep_inv_def wake_inv_def task_fail_def Let_def)
    moreover have "count_inv (task_fail c t s)" if "ignore_tasks c = None"
      by (rule count_less [of s t])
        (use i t that in \<open>auto simp: build_inv_def run_inv_def live_msg_def live_real_def building_def stat_defs count_inv_def
          task_fail_def Let_def split: if_splits\<close>)
    ultimately show ?thesis using i
      by (auto simp: build_inv_def run_inv_def task_fail_def Let_def stat_defs)
  qed
  then show ?thesis by (auto simp: keeps_def task_fail_def Let_def live_tasks_def stat_defs)
qed

section \<open>Messages\<close>

fun msg_ok :: "wmsg \<Rightarrow> exec \<Rightarrow> bool" where
  "msg_ok (ExitCode t st) s \<longleftrightarrow> t \<in> set (sq_live s) \<or> t \<in> live_real s"
| "msg_ok _ s \<longleftrightarrow> True"

text \<open>The workers report the exit of tasks that run, each once.\<close>

fun msgs_ok :: "conf \<Rightarrow> world \<Rightarrow> wmsg list \<Rightarrow> exec \<Rightarrow> bool" where
  "msgs_ok c w [] s \<longleftrightarrow> True"
| "msgs_ok c w (m # ms) s \<longleftrightarrow> msg_ok m s \<and> msgs_ok c w ms (snd (process_msg c w m s))"

lemma release_stamp_core [simp]: "core_step c s (snd (release_stamp t s))"
  by (simp add: release_stamp_def split: option.split)

lemma release_stamp_live:
  "sq_live (snd (release_stamp t s)) = sq_live s" "live_real (snd (release_stamp t s)) = live_real s"
  "runq_running (snd (release_stamp t s)) = runq_running s"
  by (simp_all add: release_stamp_def live_real_def split: option.split)

lemma scene_end_core:
  "core_step c s (snd (seq_st (if st \<noteq> 0 then sq_task_fail c w t s else sq_task_complete c w t s)
     (\<lambda>s2. (Inr (), count_live (s2\<lparr>sq_live := remove_from t (sq_live s2)\<rparr>)))))"
  by (rule core.seq) (auto simp: sq_task_complete_def intro: core_step_trans [OF core_upd(7) core_upd(8)])

lemma waitpid_keeps:
  assumes "t \<in> set (sq_live s) \<or> t \<in> live_real s"
  shows "keeps c d s (snd (runqueue_process_waitpid c w t st s))"
proof -
  obtain r u where u: "release_stamp t s = (r, u)" by fastforce
  have s: "core_step c s u" "sq_live u = sq_live s" "live_real u = live_real s"
    using release_stamp_core [of c s t] release_stamp_live [of t s] u by simp_all
  show ?thesis
  proof (cases r)
    case (Inr x)
    show ?thesis
    proof (cases "t \<in> set (sq_live u)")
      case True
      then show ?thesis using u Inr core_keeps [OF core_step_trans [OF s(1) scene_end_core [of c u st w t]]]
        by (simp add: runqueue_process_waitpid_def)
    next
      case False
      then have "live_msg c t u" using assms s by (auto simp: live_msg_def live_real_def)
      then have "keeps c d u (if st \<noteq> 0 then task_fail c t u else snd (task_complete c w t u))"
        using task_fail_keeps task_complete_keeps by simp
      then show ?thesis using u Inr False keeps_trans [OF core_keeps [OF s(1)]]
        by (simp add: runqueue_process_waitpid_def split: if_splits)
    qed
  qed (use u s core_keeps in \<open>simp add: runqueue_process_waitpid_def\<close>)
qed

lemma finish_now_keeps: "keeps c True s (finish_now s)"
  by (auto simp: keeps_def finish_now_def build_inv_def run_inv_def dep_inv_def wake_inv_def count_inv_def
      building_def live_tasks_def)

lemma process_msg_keeps:
  assumes "msg_ok m s"
  shows "keeps c (m = WorkerDied) s (snd (process_msg c w m s))"
proof (cases m)
  case (ExitCode t st)
  then show ?thesis using assms waitpid_keeps by (simp add: process_msg_def core_keeps)
qed (simp_all add: process_msg_def core_keeps finish_now_keeps)

lemma keeps_more: "keeps c d s t \<Longrightarrow> (d \<Longrightarrow> d') \<Longrightarrow> keeps c d' s t"
  by (auto simp: keeps_def)

lemma read_workers_keeps: "msgs_ok c w ms s \<Longrightarrow> keeps c (WorkerDied \<in> set ms) s (snd (read_workers c w ms s))"
proof (induction ms arbitrary: s)
  case Nil
  show ?case by (simp add: read_workers_def core_keeps)
next
  case (Cons m ms)
  obtain r u where u: "process_msg c w m s = (r, u)" by fastforce
  have one: "keeps c (WorkerDied \<in> set (m # ms)) s u"
    using process_msg_keeps [of m s c w] Cons.prems u by (auto intro: keeps_more)
  show ?case
  proof (cases r)
    case (Inr x)
    then have "keeps c (WorkerDied \<in> set (m # ms)) u (snd (read_workers c w ms u))"
      using Cons u by (auto intro: keeps_more)
    then show ?thesis using keeps_trans [OF one] u Inr by (simp add: read_workers_def)
  qed (use one u in \<open>simp add: read_workers_def\<close>)
qed

section \<open>A real task that starts\<close>

text \<open>A task the scheduler may choose.\<close>

definition chosen :: "string \<Rightarrow> exec \<Rightarrow> bool" where
  "chosen t s \<longleftrightarrow> t \<in> set (runq_buildable s) \<and> t \<notin> set (runq_running s)"

lemma core_chosen: "core_step c s u \<Longrightarrow> chosen t s \<Longrightarrow> chosen t u"
  using core_partD(2,7) [of c s u] by (auto simp: core_step_def chosen_def)

text \<open>
  What the rest of a pass keeps: the invariants, the limit on live tasks; the build does not become
  complete.
\<close>

definition within :: "conf \<Rightarrow> exec \<Rightarrow> exec \<Rightarrow> bool" where
  "within c s t \<longleftrightarrow> (build_inv c s \<longrightarrow> build_inv c t \<and> same_graph (x_rq s) (x_rq t) \<and>
     (live_tasks s < number_tasks c \<longrightarrow> live_tasks t \<le> number_tasks c) \<and>
     (rq_state t = RqComplete \<longrightarrow> rq_state s = RqComplete))"

lemma keeps_within: "keeps c False s t \<Longrightarrow> within c s t"
  by (auto simp: keeps_def within_def)

lemma core_within: "core_step c s t \<Longrightarrow> within c s t"
  using core_keeps keeps_within by blast

lemma within_trans: "keeps c False a b \<Longrightarrow> within c b d \<Longrightarrow> within c a d"
  unfolding within_def keeps_def using same_graph_trans [of "x_rq a" "x_rq b" "x_rq d"] by auto

lemma within_core: "within c a b \<Longrightarrow> core_step c b d \<Longrightarrow> within c a d"
  using core_inv [of c b d] core_live [of c b d] core_phase [of c b d] core_graph [of c b d]
    same_graph_trans [of "x_rq a" "x_rq b" "x_rq d"] unfolding within_def by auto

lemma start_inv:
  assumes i: "build_inv c s" and t: "chosen t s"
  defines "s' \<equiv> s\<lparr>runq_running := append_new t (runq_running s), stats := taskActive (stats s)\<rparr>"
  shows "build_inv c s'" "live_msg c t s'"
proof -
  have sub: "set (runq_complete s) \<subseteq> set (runq_running s)"
    using i by (auto simp: build_inv_def run_inv_def dep_inv_def)
  have "dep_inv s'" "wake_inv s'"
    using i t by (auto simp: build_inv_def run_inv_def dep_inv_def wake_inv_def s'_def chosen_def)
  moreover have live: "t \<notin> live_real s \<and> live_real s' = insert t (live_real s)"
    if "ignore_tasks c = None" "building s"
  proof -
    have "t \<notin> set (failed_tids s)" using i t that by (auto simp: build_inv_def run_inv_def count_inv_def chosen_def)
    then show ?thesis using t sub by (auto simp: live_real_def s'_def chosen_def)
  qed
  then have "count_inv s'" if "ignore_tasks c = None"
    using i that by (auto simp: build_inv_def run_inv_def count_inv_def s'_def building_def stat_defs)
  ultimately show "build_inv c s'"
    using i by (auto simp: build_inv_def run_inv_def s'_def stat_defs)
  show "live_msg c t s'" using live by (auto simp: live_msg_def s'_def building_def)
qed

lemma start_live:
  "live_tasks (s\<lparr>runq_running := xs, stats := taskActive (stats s)\<rparr>) = live_tasks s + 1"
  by (simp add: live_tasks_def stat_defs)

lemma run_noexec_within:
  assumes t: "chosen t s"
  shows "within c s (snd (run_noexec c w t n fn s))"
proof -
  let ?s1 = "s\<lparr>runq_running := append_new t (runq_running s), stats := taskActive (stats s)\<rparr>"
  let ?s2 = "if opt_dry_run c \<or> scene_enforce c then ?s1
      else ?s1\<lparr>stamp_files := make_stamp_mcfn c (now w) n fn (stamp_files ?s1)\<rparr>"
  have s2: "core_step c ?s1 ?s2" by simp
  have "build_inv c (snd (task_complete c w t ?s2)) \<and> same_graph (x_rq ?s2) (x_rq (snd (task_complete c w t ?s2))) \<and>
      live_tasks (snd (task_complete c w t ?s2)) \<le> live_tasks ?s2 \<and>
      (rq_state (snd (task_complete c w t ?s2)) = RqComplete \<longrightarrow> rq_state ?s2 = RqComplete)"
    if i: "build_inv c s"
  proof -
    have "live_msg c t ?s2" using start_inv(2) [OF i t] by (simp add: live_msg_def live_real_def building_def)
    moreover have "build_inv c ?s2" using core_inv [OF s2] start_inv(1) [OF i t] by blast
    ultimately show ?thesis using task_complete_keeps [of c t ?s2 False w] by (simp add: keeps_def)
  qed
  moreover have "live_tasks ?s2 = live_tasks s + 1" "rq_state ?s2 = rq_state s" "x_rq ?s2 = x_rq s"
    by (simp_all add: live_tasks_def stat_defs)
  ultimately show ?thesis unfolding within_def run_noexec_def Let_def by fastforce
qed

lemma task_skip_within:
  assumes t: "chosen t s"
  shows "within c s (snd (task_skip c w t s))"
proof -
  let ?s1 = "setbuildable t (s\<lparr>runq_running := append_new t (runq_running s)\<rparr>)"
  let ?s0 = "?s1\<lparr>runq_complete := append_new t (runq_complete ?s1)\<rparr>"
  let ?v = "snd (task_skip c w t s)"
  obtain r u where u: "task_completeoutright c w t ?s1 = (r, u)" by fastforce
  have tail: "core_step c u ?v" using u by (cases r) (simp_all add: task_skip_def core_defs stat_defs)
  have "build_inv c ?v \<and> same_graph (x_rq s) (x_rq ?v) \<and> live_tasks ?v \<le> live_tasks s \<and> (rq_state ?v = RqComplete \<longrightarrow> rq_state s = RqComplete)"
    if i: "build_inv c s"
  proof -
    have d: "dep_inv s" "wake_inv s" using i by (simp_all add: build_inv_def run_inv_def)
    have s1: "dep_inv ?s1" "wake_inv ?s1" "t \<in> set (runq_running ?s1)"
      using d t by (auto simp: dep_inv_def wake_inv_def setbuildable_def newbuildable_def chosen_def)
    from completeoutright_result [OF this, of c w] u have core: "core_step c ?s0 u" and wake: "wake_inv u" by simp_all
    have "dep_inv ?s0" using s1(1,3) by (auto simp: dep_inv_def)
    moreover have "live_real ?s0 = live_real s"
      using t by (auto simp: live_real_def setbuildable_def chosen_def)
    then have "count_inv ?s0" if "ignore_tasks c = None"
      using i that by (auto simp: build_inv_def run_inv_def count_inv_def setbuildable_def building_def)
    ultimately have "run_inv c ?s0" using i by (auto simp: build_inv_def run_inv_def setbuildable_def)
    then have "run_inv c u" using core_part_run [of c ?s0 u] core by (simp add: core_step_def)
    with wake have inv: "build_inv c ?v" by (intro core_inv [OF tail]) (simp add: build_inv_def)
    have all: "core_step c ?s0 ?v" using core tail by (rule core_step_trans)
    have "live_tasks ?s0 \<le> live_tasks s" "rq_state ?s0 = rq_state s" by (simp_all add: live_tasks_def setbuildable_def)
    with inv core_live [OF all] core_phase [OF all] core_graph [OF all] show ?thesis
      by (simp add: setbuildable_def)
  qed
  then show ?thesis by (auto simp: within_def)
qed

lemma note_stamp_core [simp]: "core_step c s (note_stamp c t n fn s)"
  by (simp add: note_stamp_def core_defs)

lemma launch_task_within:
  assumes t: "chosen t s"
  shows "within c s (snd (launch_task c w tab t mc n fn s))"
proof -
  have "build_inv c (s\<lparr>rq_state := RqFailed, stats := taskFailed (stats s)\<rparr>)" if "build_inv c s"
    using that by (auto simp: build_inv_def run_inv_def dep_inv_def wake_inv_def count_inv_def building_def stat_defs)
  then have fails: "within c s (s\<lparr>rq_state := RqFailed, stats := taskFailed (stats s)\<rparr>)"
    by (auto simp: within_def live_tasks_def stat_defs)
  let ?s = "note_stamp c t n fn s"
  have t': "chosen t ?s" using core_chosen [OF note_stamp_core t] .
  have "within c ?s (?s\<lparr>runq_running := append_new t (runq_running ?s), stats := taskActive (stats ?s)\<rparr>)"
    using start_inv(1) [OF _ t'] start_live [of ?s] by (auto simp: within_def)
  then have "within c s (?s\<lparr>runq_running := append_new t (runq_running ?s), stats := taskActive (stats ?s)\<rparr>)"
    by (rule within_trans [OF core_keeps [OF note_stamp_core]])
  with fails show ?thesis by (simp add: launch_task_def Let_def core_within split: sum.split)
qed

lemma within_bind:
  assumes "core_step c s (snd r)" "chosen t s" "\<And>a u. chosen t u \<Longrightarrow> within c u (snd (f a u))"
  shows "within c s (snd (bind_st r f))"
proof (cases r)
  case (Pair q u)
  then have "core_step c s u" using assms(1) by simp
  then show ?thesis using Pair core_chosen [OF _ assms(2)] assms(3) within_trans [OF core_keeps] core_within
    by (cases q) auto
qed

lemma bind_core_within:
  assumes "within c s (snd r)" "\<And>a u. core_step c u (snd (f a u))"
  shows "within c s (snd (bind_st r f))"
  using assms by (cases r; cases "fst r") (auto intro: within_core)

lemma run_chosen_within: "chosen t s \<Longrightarrow> within c s (snd (run_chosen c w tab t s))"
proof (cases "split_tid_mcfn t")
  case (Some p)
  assume t: "chosen t s"
  obtain mc fn n taskfn where p: "p = (mc, fn, n, taskfn)" by (cases p) auto
  have "within c u (snd (bind_st (task_skip c w t u) (\<lambda>_ s2.
      (Inr True, s2\<lparr>runq_tasksrun := append_new t (runq_tasksrun s2)\<rparr>))))" if "chosen t u" for u
    by (rule bind_core_within [OF task_skip_within [OF that]]) (simp add: core_defs)
  moreover have "within c u (snd (bind_st (run_noexec c w t n taskfn u) (\<lambda>_ s2. (Inr True, s2))))"
    "within c u (snd (bind_st (task_skip c w t u) (\<lambda>_ s2. (Inr True, s2))))" if "chosen t u" for u
    by (rule bind_core_within [OF run_noexec_within [OF that]] bind_core_within [OF task_skip_within [OF that]], simp)+
  ultimately show ?thesis using t launch_task_within
    unfolding run_chosen_def Some p by (simp, intro impI within_bind) auto
qed (simp add: run_chosen_def core_within)

lemma check_ignore_core [simp]: "core_step c s (snd (check_setscene_ignore_tasks c t s))"
  by (auto simp: check_setscene_ignore_tasks_def split: option.split intro!: core.bind)

lemma run_task_within: "chosen t s \<Longrightarrow> within c s (snd (run_task c w tab t s))"
proof -
  assume t: "chosen t s"
  have "within c s (snd (bind_st (check_setscene_ignore_tasks c t s) (\<lambda>bad s1.
      if bad then (Inr True, task_fail c t s1) else run_chosen c w tab t s1)))" if "ignore_tasks c \<noteq> None"
    by (rule within_bind [OF check_ignore_core t])
      (use that in \<open>auto simp: run_chosen_within intro: keeps_within task_fail_keeps\<close>)
  then show ?thesis using run_chosen_within [OF t] by (simp add: run_task_def)
qed

section \<open>A pass\<close>

definition pass_inv :: "conf \<Rightarrow> exec \<Rightarrow> bool" where
  "pass_inv c s \<longleftrightarrow> build_inv c s \<and> live_tasks s \<le> number_tasks c"

definition bounded :: "conf \<Rightarrow> bool \<Rightarrow> exec \<Rightarrow> exec \<Rightarrow> bool" where
  "bounded c d s t \<longleftrightarrow> (pass_inv c s \<longrightarrow> pass_inv c t \<and> same_graph (x_rq s) (x_rq t) \<and>
     (\<not> d \<longrightarrow> rq_state t = RqComplete \<longrightarrow> rq_state s = RqComplete))"

lemma bounded_trans: "bounded c d a b \<Longrightarrow> bounded c d b e \<Longrightarrow> bounded c d a e"
  unfolding bounded_def using same_graph_trans by blast

lemma keeps_bounded: "keeps c d s t \<Longrightarrow> bounded c d s t"
  by (auto simp: keeps_def bounded_def pass_inv_def)

lemma core_bounded: "core_step c s t \<Longrightarrow> bounded c d s t"
  by (intro keeps_bounded core_keeps)

lemma bounded_seq:
  "bounded c d s (snd r) \<Longrightarrow> (\<And>u. fst r = Inr () \<Longrightarrow> u = snd r \<Longrightarrow> bounded c d u (snd (f u))) \<Longrightarrow> bounded c d s (snd (seq_st r f))"
  by (cases r; cases "fst r") (auto simp: seq_st_def intro: bounded_trans)

lemma scene_part_bounded: "bounded c d s (snd (scene_part_of c w s))"
proof (cases "sqdone s \<or> \<not> can_start_task c s")
  case True
  then show ?thesis by (simp add: scene_part_of_def core_bounded)
next
  case False
  have m: "core_more c s (snd (scene_part_of c w s))" (is "core_more c s ?t") by (rule scene_part_core)
  then have p: "core_part c s ?t" by (simp add: core_more_def)
  have "live_tasks ?t \<le> number_tasks c" "rq_state ?t = RqComplete \<Longrightarrow> rq_state s = RqComplete"
    using m False core_partD(4,11) [OF p] by (auto simp: core_more_def live_tasks_def can_start_task_def)
  then show ?thesis using core_part_inv [OF p] core_partD(1) [OF p] by (auto simp: bounded_def pass_inv_def)
qed

lemma real_part_bounded: "bounded c d s (snd (real_part c w tab s))"
proof -
  obtain r u where u: "next_real_task c w s = (r, u)" by fastforce
  note nx = next_real_task_result [OF u]
  show ?thesis
  proof (cases "\<exists>x. r = Inr (Some x)")
    case True
    then obtain x where x: "r = Inr (Some x)" by blast
    have "bounded c d u (snd (run_task c w tab x u))" if i: "pass_inv c s"
    proof -
      have "x \<in> set (runq_buildable s)" using nx(3) [OF x] i by (auto simp: pass_inv_def build_inv_def run_inv_def dep_inv_def)
      then have "chosen x u" using nx(3) [OF x] core_partD(7) [of c s u] nx(1) by (auto simp: chosen_def core_step_def)
      from run_task_within [OF this, of c w tab] show ?thesis
        using nx(3) [OF x] by (auto simp: within_def bounded_def pass_inv_def can_start_task_def)
    qed
    then show ?thesis using u x bounded_trans [OF core_bounded [OF nx(1)]]
      by (auto simp: real_part_def bounded_def)
  next
    case False
    then have "snd (real_part c w tab s) = u"
      using u by (cases r) (auto simp: real_part_def split: option.split)
    then show ?thesis using core_bounded [OF nx(1)] by simp
  qed
qed

lemma migrate_if_needed_core: "core_step c s (snd (migrate_if_needed c w s))"
  by (simp add: migrate_if_needed_def)

text \<open>The end of the setscene tasks may end the build, when only they are wanted or there is no task.\<close>

lemma scene_completion_bounded:
  assumes "d \<or> \<not> opt_setsceneonly c \<and> dkeys (x_rq s) \<noteq> []"
  shows "bounded c d s (snd (scene_completion c s))"
proof -
  have inv: "pass_inv c s \<Longrightarrow> pass_inv c (s\<lparr>rq_state := ph\<rparr>)" "pass_inv c s \<Longrightarrow> pass_inv c (s\<lparr>sqdone := b, rq_state := ph\<rparr>)"
    if "ph = RqFailed \<or> ph = RqComplete" for ph b
    using that by (auto simp: pass_inv_def build_inv_def run_inv_def dep_inv_def wake_inv_def count_inv_def building_def
        live_real_def live_tasks_def simp del: set_map)
  have "pass_inv c s \<Longrightarrow> pass_inv c (s\<lparr>sqdone := True\<rparr>)"
    using core_bounded [OF core_upd(14) [of c s True]] by (simp add: bounded_def)
  moreover have "total (stats s) \<noteq> 0" if "pass_inv c s" "dkeys (x_rq s) \<noteq> []"
    using that by (auto simp: pass_inv_def build_inv_def run_inv_def)
  ultimately show ?thesis using assms inv
    by (auto simp: scene_completion_def bounded_def simp del: set_map)
qed

definition all_done :: "exec \<Rightarrow> bool" where
  "all_done s \<longleftrightarrow> set (dkeys (x_rq s)) \<subseteq> set (runq_complete s)"

lemma pass_body_bounded:
  assumes m: "msgs_ok c w ms s" and d: "WorkerDied \<in> set ms \<or> opt_setsceneonly c \<or> dkeys (x_rq s) = [] \<Longrightarrow> d"
  shows "bounded c d s (snd (pass_body c w tab ms s))"
proof -
  have sc: "bounded c d u (snd (case scene_completion c u of (True, s5) \<Rightarrow> (Inr True, s5) | (False, s5) \<Rightarrow> real_part c w tab s5))"
    if "dkeys (x_rq u) = dkeys (x_rq s)" for u
  proof -
    obtain b v where v: "scene_completion c u = (b, v)" by fastforce
    have "bounded c d u v" using scene_completion_bounded [of d c u] d v that by auto
    then show ?thesis using v bounded_trans [OF _ real_part_bounded] by (cases b) auto
  qed
  have "bounded c d s (snd (pass_body c w tab ms s))" if i: "pass_inv c s"
  proof -
    let ?good = "\<lambda>u. bounded c d s u"
    have step: "?good u \<Longrightarrow> (dkeys (x_rq u) = dkeys (x_rq s) \<Longrightarrow> bounded c d u v) \<Longrightarrow> ?good v" for u v
      using i bounded_trans [of c d s u v] by (auto simp: bounded_def same_graph_def)
    obtain r1 s1 where 1: "read_workers c w ms s = (r1, s1)" by fastforce
    obtain r2 s2 where 2: "migrate_if_needed c w s1 = (r2, s2)" by fastforce
    obtain r3 s3 where 3: "scene_part_of c w s2 = (r3, s3)" by fastforce
    obtain r4 s4 where 4: "update_holdofftasks c s3 = (r4, s4)" by fastforce
    have g1: "?good s1" using keeps_bounded [OF keeps_more [OF read_workers_keeps [OF m], of d]] d 1 by simp
    have g2: "?good s2" using bounded_trans [OF g1 core_bounded [OF migrate_if_needed_core [of c s1 w]]] 2 by simp
    have g3: "?good s3" using bounded_trans [OF g2 scene_part_bounded [of c d s2 w]] 3 by simp
    have g4: "?good s4" using bounded_trans [OF g3 core_bounded [OF update_holdofftasks_core [of c s3]]] 4 by simp
    have g5: "?good (snd (case scene_completion c s4 of (True, s5) \<Rightarrow> (Inr True, s5) | (False, s5) \<Rightarrow> real_part c w tab s5))"
      using step [OF g4 sc] by simp
    show ?thesis using 1 2 3 4 g1 g2 g3 g4 g5
      by (cases r1; cases r2; cases r3; cases r4) (auto simp: pass_body_def)
  qed
  then show ?thesis by (auto simp: bounded_def)
qed

lemma phase_inv: "pass_inv c s \<Longrightarrow> ph = RqFailed \<or> ph = RqComplete \<Longrightarrow> pass_inv c (s\<lparr>rq_state := ph\<rparr>)"
  by (auto simp: pass_inv_def build_inv_def run_inv_def dep_inv_def wake_inv_def count_inv_def building_def
      live_real_def live_tasks_def simp del: set_map)

lemma end_of_pass_result:
  assumes m: "msgs_ok c w ms s" and i: "pass_inv c s" and t: "t = snd (end_of_pass c w ms s)"
  shows "pass_inv c t" "same_graph (x_rq s) (x_rq t)"
    and "WorkerDied \<notin> set ms \<Longrightarrow> rq_state t = RqComplete \<Longrightarrow> rq_state s = RqComplete \<or> all_done t"
proof -
  have r: "bounded c (WorkerDied \<in> set ms) s (snd (seq_st (read_workers c w ms s) (\<lambda>s1. (Inr WaitFds, s1))))"
    using keeps_bounded [OF read_workers_keeps [OF m]] by (cases "read_workers c w ms s"; cases "fst (read_workers c w ms s)") auto
  have f: "rq_state (final_checks c s) = RqComplete \<Longrightarrow> all_done (final_checks c s)"
    by (auto simp: final_checks_def all_done_def list_ex_iff simp del: set_map split: if_splits)
  have d: "bounded c False s (s\<lparr>sq_deferred := ds\<rparr>)" for ds by (rule core_bounded) simp
  show "pass_inv c t" "same_graph (x_rq s) (x_rq t)"
    "WorkerDied \<notin> set ms \<Longrightarrow> rq_state t = RqComplete \<Longrightarrow> rq_state s = RqComplete \<or> all_done t"
    using r d f i phase_inv [OF i] unfolding t
    by (auto simp: end_of_pass_def bounded_def final_checks_def split: list.split)
qed

section \<open>The driver\<close>

lemma start_running_result:
  assumes i: "pass_inv c s" and ph: "rq_state s = RqSceneInit"
  shows "pass_inv c (start_running c s)" "same_graph (x_rq s) (x_rq (start_running c s))"
    "rq_state (start_running c s) = RqRunning"
proof -
  have wf: "wf_dict (x_rq s)" using i by (auto simp: pass_inv_def build_inv_def run_inv_def dep_inv_def graph_ok_def)
  let ?f = "\<lambda>(t, e) s. if depends e = [] then setbuildable t s else s"
  have "core_step c u (fold ?f es u)" if "set es \<subseteq> set (x_rq s)" "x_rq u = x_rq s" for es u
    using that
  proof (induction es arbitrary: u)
    case (Cons p es)
    obtain t e where p: "p = (t, e)" by fastforce
    have g: "dget (x_rq u) t = Some e" using Cons.prems wf by (auto simp: p wf_dict_def)
    then have one: "core_step c u (?f p u)"
      by (auto simp: p deps_set_def depends_of_def dget_in_dkeys intro!: setbuildable_core simp del: set_map)
    have "core_step c (?f p u) (fold ?f es (?f p u))"
      by (rule Cons.IH) (use Cons.prems in \<open>auto simp: p setbuildable_def\<close>)
    with one show ?case by (simp add: core_step_trans)
  qed simp
  from this [of "x_rq s" s] have f: "core_step c s (fold ?f (x_rq s) s)" by simp
  have "core_step c u (u\<lparr>tasks_notcovered := xs, sqdone := b\<rparr>)" for u xs b by (simp add: core_defs)
  from core_step_trans [OF f this]
  have c: "core_step c s (if scene_tids c = []
      then (fold ?f (x_rq s) s)\<lparr>tasks_notcovered := add_all (dkeys (x_rq s)) (tasks_notcovered s), sqdone := True\<rparr> else s)"
    (is "core_step c s ?t") by simp
  then have p: "core_part c s ?t" by (simp only: core_step_def)
  have eq: "start_running c s = ?t\<lparr>rq_state := RqRunning\<rparr>" by (simp only: start_running_def Let_def)
  show "rq_state (start_running c s) = RqRunning" "same_graph (x_rq s) (x_rq (start_running c s))"
    unfolding eq using core_graph [OF c] by simp_all
  have "rq_state (fold ?f es u) = rq_state u" for es :: runq and u
    by (induction es arbitrary: u) (auto simp: setbuildable_def)
  then have "building ?t" using ph by (simp add: building_def)
  moreover have "pass_inv c ?t" using core_bounded [OF c] i unfolding bounded_def by blast
  ultimately show "pass_inv c (start_running c s)" unfolding eq
    by (auto simp: pass_inv_def build_inv_def run_inv_def dep_inv_def wake_inv_def count_inv_def building_def
        live_real_def live_tasks_def simp del: set_map)
qed

text \<open>The messages of one call come from tasks that run.\<close>

definition honest ::
  "conf \<Rightarrow> world \<Rightarrow> dep_data \<Rightarrow> wmsg list \<Rightarrow> wmsg list \<Rightarrow> wmsg list \<Rightarrow> exec \<Rightarrow> bool"
where
  "honest c w tab msgs1 msgs2 msgs3 s \<longleftrightarrow>
     (let s1 = (if rq_state s = RqSceneInit then start_running c s else s)
      in if rq_state s1 = RqRunning
         then msgs_ok c w msgs1 s1 \<and>
              (case pass_body c w tab msgs1 s1 of (Inr False, s2) \<Rightarrow> msgs_ok c w msgs2 s2 | _ \<Rightarrow> True) \<and>
              (let s2 = snd (execute c w tab msgs1 msgs2 s1) in rq_state s2 = RqCleanUp \<longrightarrow> msgs_ok c w msgs3 s2)
         else msgs_ok c w msgs3 s1)"

lemma execute_result:
  assumes i: "pass_inv c s" and m: "msgs_ok c w m1 s"
    and m2: "case pass_body c w tab m1 s of (Inr False, s2) \<Rightarrow> msgs_ok c w m2 s2 | _ \<Rightarrow> True"
    and t: "t = snd (execute c w tab m1 m2 s)"
  shows "pass_inv c t" "same_graph (x_rq s) (x_rq t)"
    and "WorkerDied \<notin> set m1 \<union> set m2 \<Longrightarrow> \<not> opt_setsceneonly c \<Longrightarrow> rq_state t = RqComplete \<Longrightarrow>
      rq_state s = RqComplete \<or> all_done t"
proof -
  obtain r u where u: "pass_body c w tab m1 s = (r, u)" by fastforce
  have b: "bounded c True s u" using pass_body_bounded [OF m, of True tab] u by simp
  have b': "rq_state u = RqComplete \<longrightarrow> rq_state s = RqComplete \<or> dkeys (x_rq s) = []"
    if "WorkerDied \<notin> set m1" "\<not> opt_setsceneonly c"
    using pass_body_bounded [OF m, of "dkeys (x_rq s) = []" tab] that u i by (auto simp: bounded_def)
  have iu: "pass_inv c u" "same_graph (x_rq s) (x_rq u)" using b i by (auto simp: bounded_def)
  have "pass_inv c t \<and> same_graph (x_rq s) (x_rq t) \<and> (WorkerDied \<notin> set m1 \<union> set m2 \<longrightarrow> \<not> opt_setsceneonly c \<longrightarrow>
      rq_state t = RqComplete \<longrightarrow> rq_state s = RqComplete \<or> all_done t)"
  proof (cases "r = Inr False")
    case True
    then have e: "t = snd (end_of_pass c w m2 u)" and m2': "msgs_ok c w m2 u" using u m2 t by (auto simp: execute_def)
    have g: "same_graph (x_rq s) (x_rq t)" using same_graph_trans [OF iu(2) end_of_pass_result(2) [OF m2' iu(1) e]] .
    then have "dkeys (x_rq s) = [] \<longrightarrow> all_done t" by (simp add: all_done_def same_graph_def)
    then show ?thesis using end_of_pass_result [OF m2' iu(1) e] g b' by auto
  next
    case False
    then have "t = u" using u t by (cases r) (auto simp: execute_def split: if_splits)
    moreover have "dkeys (x_rq s) = [] \<longrightarrow> all_done u" using iu(2) by (simp add: all_done_def same_graph_def)
    ultimately show ?thesis using iu b' by auto
  qed
  then show "pass_inv c t" "same_graph (x_rq s) (x_rq t)"
    "WorkerDied \<notin> set m1 \<union> set m2 \<Longrightarrow> \<not> opt_setsceneonly c \<Longrightarrow> rq_state t = RqComplete \<Longrightarrow>
      rq_state s = RqComplete \<or> all_done t"
    by blast+
qed

lemma finish_result:
  assumes i: "pass_inv c s" and m: "msgs_ok c w ms s" and ph: "rq_state s = RqCleanUp"
    and t: "t = snd (finish c w ms s)"
  shows "pass_inv c t" "same_graph (x_rq s) (x_rq t)"
    and "WorkerDied \<notin> set ms \<Longrightarrow> ignore_tasks c = None \<Longrightarrow> rq_state t \<noteq> RqComplete"
proof -
  have s: "s\<lparr>rq_state := RqCleanUp\<rparr> = s" using ph by simp
  have r: "bounded c (WorkerDied \<in> set ms) s (snd (read_workers c w ms s))"
    by (rule keeps_bounded [OF read_workers_keeps [OF m]])
  have "ignore_tasks c = None \<Longrightarrow> failed_tids s \<noteq> []" using i ph by (auto simp: pass_inv_def build_inv_def run_inv_def)
  then show "pass_inv c t" "same_graph (x_rq s) (x_rq t)"
    "WorkerDied \<notin> set ms \<Longrightarrow> ignore_tasks c = None \<Longrightarrow> rq_state t \<noteq> RqComplete"
    using r i ph phase_inv [OF i] unfolding t finish_def s Let_def
    by (auto simp: bounded_def finish_now_def)
qed

lemma run_queue_result:
  assumes i: "pass_inv c s" and ph: "rq_state s \<noteq> RqComplete" and h: "honest c w tab m1 m2 m3 s"
    and r: "run_queue c w tab m1 m2 m3 s = (v, t)" and v: "\<And>e. v \<noteq> Raised e"
  shows "pass_inv c t" "same_graph (x_rq s) (x_rq t)"
    and "v = Finished \<Longrightarrow> WorkerDied \<notin> set m1 \<union> set m2 \<union> set m3 \<Longrightarrow> \<not> opt_setsceneonly c \<Longrightarrow>
      ignore_tasks c = None \<Longrightarrow> all_done t"
    and "\<exists>y. v = Loop y \<Longrightarrow> rq_state t \<noteq> RqComplete"
proof -
  define s1 where "s1 = (if rq_state s = RqSceneInit then start_running c s else s)"
  have s1: "pass_inv c s1" "same_graph (x_rq s) (x_rq s1)" "rq_state s1 \<noteq> RqComplete"
    using start_running_result [OF i] i ph by (auto simp: s1_def)
  obtain q s2 where q: "(if rq_state s1 = RqRunning then execute c w tab m1 m2 s1 else (Inr Again, s1)) = (q, s2)" by fastforce
  have s2: "pass_inv c s2 \<and> same_graph (x_rq s1) (x_rq s2) \<and> (WorkerDied \<notin> set m1 \<union> set m2 \<longrightarrow> \<not> opt_setsceneonly c \<longrightarrow>
      rq_state s2 = RqComplete \<longrightarrow> all_done s2) \<and> (rq_state s2 = RqCleanUp \<longrightarrow> msgs_ok c w m3 s2)"
  proof (cases "rq_state s1 = RqRunning")
    case True
    then have e: "s2 = snd (execute c w tab m1 m2 s1)" using q by simp
    have hh: "msgs_ok c w m1 s1" "case pass_body c w tab m1 s1 of (Inr False, s2) \<Rightarrow> msgs_ok c w m2 s2 | _ \<Rightarrow> True"
      "rq_state s2 = RqCleanUp \<longrightarrow> msgs_ok c w m3 s2"
      using h True unfolding honest_def Let_def s1_def [symmetric] e by simp_all
    show ?thesis
      using execute_result [OF s1(1) hh(1,2) e] hh(3) s1(3) by blast
  next
    case False
    then have "msgs_ok c w m3 s1" using h unfolding honest_def Let_def s1_def [symmetric] by simp
    then show ?thesis
      using False q s1 by simp
  qed
  have "pass_inv c t \<and> same_graph (x_rq s) (x_rq t) \<and>
      (v = Finished \<longrightarrow> WorkerDied \<notin> set m1 \<union> set m2 \<union> set m3 \<longrightarrow> \<not> opt_setsceneonly c \<longrightarrow>
        ignore_tasks c = None \<longrightarrow> all_done t) \<and> ((\<exists>y. v = Loop y) \<longrightarrow> rq_state t \<noteq> RqComplete)"
  proof (cases "rq_state s2 = RqCleanUp")
    case True
    have f: "pass_inv c (snd (finish c w m3 s2))" "same_graph (x_rq s2) (x_rq (snd (finish c w m3 s2)))"
      "WorkerDied \<notin> set m3 \<Longrightarrow> ignore_tasks c = None \<Longrightarrow> rq_state (snd (finish c w m3 s2)) \<noteq> RqComplete"
      using finish_result [OF _ _ True refl, of c w m3] s2 True by blast+
    have "t = snd (finish c w m3 s2) \<and> (v = Finished \<longrightarrow> rq_state t = RqComplete) \<and> ((\<exists>y. v = Loop y) \<longrightarrow> rq_state t \<noteq> RqComplete)"
      using r q v True unfolding run_queue_def Let_def s1_def [symmetric]
      by (cases "finish c w m3 s2"; cases "fst (finish c w m3 s2)"; cases q) (auto split: if_splits)
    then show ?thesis using f same_graph_trans [OF same_graph_trans [OF s1(2)] f(2)] s2 by auto
  next
    case False
    have "t = s2 \<and> (v = Finished \<longrightarrow> rq_state t = RqComplete) \<and> ((\<exists>y. v = Loop y) \<longrightarrow> rq_state t \<noteq> RqComplete)"
      using r q v False unfolding run_queue_def Let_def s1_def [symmetric]
      by (cases q) (auto split: if_splits)
    then show ?thesis using s2 same_graph_trans [OF s1(2), of "x_rq s2"] by auto
  qed
  then show "pass_inv c t" "same_graph (x_rq s) (x_rq t)"
    "v = Finished \<Longrightarrow> WorkerDied \<notin> set m1 \<union> set m2 \<union> set m3 \<Longrightarrow> \<not> opt_setsceneonly c \<Longrightarrow>
      ignore_tasks c = None \<Longrightarrow> all_done t"
    "\<exists>y. v = Loop y \<Longrightarrow> rq_state t \<noteq> RqComplete"
    by blast+
qed

end
