(* ===== verification/Build.thy ===== *)
theory Build
  imports ExecInv
begin

text \<open>
  Whole builds: the states that repeated calls of \<open>RunQueue.execute_runqueue\<close> reach, with any
  answers of the workers, and what holds in all of them.
\<close>

section \<open>The start\<close>

lemma start_upd [simp]:
  "core_step c s (s\<lparr>sqd := d\<rparr>)" "core_step c s (s\<lparr>tasks_scenequeue_done := xs\<rparr>)"
  "core_step c s (s\<lparr>sqd := d, sq_deferred := q, sq_buildable := xs\<rparr>)"
  by (simp_all add: core_defs)

lemma unskip_task_core: "core_step c s (snd (unskip_task c t s))"
proof (cases "dget (x_rq s) t")
  case (Some e)
  let ?s = "if depends e = [] then setbuildable t s else s"
  have one: "core_step c s ?s"
    using Some by (auto simp: deps_set_def depends_of_def dget_in_dkeys intro!: setbuildable_core simp del: set_map)
  show ?thesis using core_step_trans [OF one start_upd(1)] Some
    by (simp add: unskip_task_def Let_def del: start_upd)
qed (simp add: unskip_task_def with_key_def)

lemma unskip_loop_core: "core_step c s (snd (unskip_loop c s))"
proof (induction c s rule: unskip_loop.induct)
  case (1 c s)
  obtain r s1 where r: "unskip_round c s = (r, s1)" by fastforce
  have one: "core_step c s s1"
    using core.loop [of "rev (sort (unskippable (sqd s)))" c "unskip_task c" s] unskip_task_core r
    by (simp add: unskip_round_def)
  show ?case
  proof (cases "(\<exists>e. r = Inl e) \<or> set (unskippable (sqd s1)) = set (unskippable (sqd s))")
    case True
    then show ?thesis using one r by (cases r) (auto simp: unskip_loop.simps [of c s])
  next
    case False
    then obtain u where u: "r = Inr u" by (cases r) auto
    have "core_step c s1 (snd (unskip_loop c s1))" using 1 r u False by simp
    then show ?thesis using core_step_trans [OF one] r u False by (simp add: unskip_loop.simps [of c s])
  qed
qed

lemma build_scenequeue_core: "core_step c s (snd (build_scenequeue_data c s))"
proof -
  obtain r s1 where u: "unskip_loop c (s\<lparr>sqd := start_unskippable c (x_rq s)\<rparr>) = (r, s1)" by fastforce
  have one: "core_step c s s1"
    using core_step_trans [OF start_upd(1) unskip_loop_core] u by (metis snd_conv)
  define s2 where "s2 = s1\<lparr>tasks_scenequeue_done :=
      add_all (filter (\<lambda>t. t \<notin> set (scene_tids c)) (unskippable (sqd s1))) (tasks_scenequeue_done s1)\<rparr>"
  have two: "core_step c s s2" unfolding s2_def by (rule core_step_trans [OF one start_upd(2)])
  have three: "core_step c s (s2\<lparr>sqd := d\<rparr>)" "core_step c s (snd (defer_equal c (s2\<lparr>sqd := d, sq_deferred := q, sq_buildable := xs\<rparr>)))"
    for d q xs
    by (rule core_step_trans [OF two start_upd(1)])
      (rule core_step_trans [OF core_step_trans [OF two start_upd(3)] core_scene(7)])
  have "snd (build_scenequeue_data c s) \<in> {s, s1, s2} \<or> (\<exists>d. snd (build_scenequeue_data c s) = s2\<lparr>sqd := d\<rparr>) \<or>
      (\<exists>d q xs. snd (build_scenequeue_data c s) = snd (defer_equal c (s2\<lparr>sqd := d, sq_deferred := q, sq_buildable := xs\<rparr>)))"
    unfolding build_scenequeue_data_def u Let_def s2_def
    by (cases r) (auto split: prod.split sum.split)
  then show ?thesis using one two three by auto
qed

lemma fresh_inv:
  assumes "graph_ok rq" "buildable_set sch = []" "0 \<le> number_tasks c"
  shows "pass_inv c (fresh_exec c rq sch fs)"
  using assms by (auto simp: pass_inv_def build_inv_def run_inv_def dep_inv_def wake_inv_def count_inv_def
      live_real_def live_tasks_def fresh_exec_def init_stats_def simp del: set_map)

lemma init_exec_result:
  assumes "init_exec c w rq sch fs = (Inr (), s)" "graph_ok rq" "buildable_set sch = []"
  shows "pass_inv c s" "same_graph rq (x_rq s)" "rq_state s \<noteq> RqComplete"
proof -
  let ?f = "fresh_exec c rq sch fs"
  have n: "0 < number_tasks c" using assms(1) by (auto simp: init_exec_def Let_def split: if_splits)
  have "core_step c ?f (snd (seq_st (build_scenequeue_data c ?f)
      (\<lambda>s1. update_scenequeue_data c w (dkeys (sq_revdeps (sqd s1))) s1)))"
    by (rule core.seq [OF build_scenequeue_core]) (rule core_scene)
  then have core: "core_step c ?f s" using assms(1) n by (simp add: init_exec_def Let_def)
  have "pass_inv c ?f" by (rule fresh_inv [OF assms(2,3)]) (use n in simp)
  then show "pass_inv c s" using core_bounded [OF core] unfolding bounded_def by blast
  show "same_graph rq (x_rq s)" using core_graph [OF core] by (simp add: fresh_exec_def)
  show "rq_state s \<noteq> RqComplete" using core_phase [OF core] by (auto simp: fresh_exec_def)
qed

section \<open>Reachable states\<close>

inductive reached :: "conf \<Rightarrow> runq \<Rightarrow> dep_data \<Rightarrow> exec \<Rightarrow> bool" for c rq tab where
  start: "init_exec c w rq sch fs = (Inr (), s) \<Longrightarrow> graph_ok rq \<Longrightarrow> buildable_set sch = [] \<Longrightarrow> reached c rq tab s"
| pass: "reached c rq tab s \<Longrightarrow> honest c w tab msgs1 msgs2 msgs3 s \<Longrightarrow>
     run_queue c w tab msgs1 msgs2 msgs3 s = (Loop v, t) \<Longrightarrow> reached c rq tab t"

lemma reached_inv: "reached c rq tab s \<Longrightarrow> pass_inv c s \<and> same_graph rq (x_rq s) \<and> rq_state s \<noteq> RqComplete"
proof (induction rule: reached.induct)
  case (start w sch fs s)
  then show ?case using init_exec_result by blast
next
  case (pass s w m1 m2 m3 v t)
  have i: "pass_inv c s" and ph: "rq_state s \<noteq> RqComplete" using pass.IH by blast+
  note r = run_queue_result [OF i ph pass.hyps(2,3)]
  have "pass_inv c t \<and> same_graph (x_rq s) (x_rq t) \<and> rq_state t \<noteq> RqComplete" using r(1,2,4) by simp
  then show ?case using pass.IH same_graph_trans by blast
qed

text \<open>
  C2: in every state of a build, the complete tasks are among the started ones, these among the
  buildable ones, and every buildable task has its dependencies complete, and a task that has
  dependencies, all complete, is buildable: nothing starts too early, and nothing that could start is forgotten.
\<close>

theorem dependency_order:
  assumes "reached c rq tab s"
  shows "set (runq_complete s) \<subseteq> set (runq_running s) \<and> set (runq_running s) \<subseteq> set (runq_buildable s) \<and>
    set (runq_buildable s) \<subseteq> set (dkeys rq) \<and>
    (\<forall>t \<in> set (runq_buildable s). set (depends_of rq t) \<subseteq> set (runq_complete s)) \<and>
    (\<forall>t \<in> set (dkeys rq). depends_of rq t \<noteq> [] \<longrightarrow> set (depends_of rq t) \<subseteq> set (runq_complete s) \<longrightarrow>
      t \<in> set (runq_buildable s))"
proof -
  have i: "dep_inv s" "wake_inv s" "same_graph rq (x_rq s)"
    using reached_inv [OF assms] by (auto simp: pass_inv_def build_inv_def run_inv_def)
  then have k: "dkeys (x_rq s) = dkeys rq" "depends_of (x_rq s) = depends_of rq" by (auto simp: same_graph_def)
  show ?thesis using i(1,2) unfolding dep_inv_def wake_inv_def deps_set_def k set_empty by blast
qed



text \<open>
  C25: the build changes no edge of the graph of tasks, whatever hashes change: the run queue
  of every state has the tasks and dependencies it was made with, and dependencies and reverse
  dependencies agree.
\<close>

theorem graph_kept:
  assumes "reached c rq tab s"
  shows "graph_ok (x_rq s) \<and> dkeys (x_rq s) = dkeys rq \<and> depends_of (x_rq s) = depends_of rq \<and>
    revdeps_of (x_rq s) = revdeps_of rq"
  using reached_inv [OF assms] by (auto simp: same_graph_def pass_inv_def build_inv_def run_inv_def dep_inv_def)

section \<open>A build\<close>

text \<open>
  The build of the four tasks of \<open>rq_scene\<close>; no setscene task is available, so all are run, one
  after the other.
\<close>

definition world0 :: world where
  "world0 = \<lparr>now = 10, hashvalidate = None, depvalidate = None, pressure = False, fakeworker_up = (\<lambda>_. False),
     fakeworker_starts = True, new_taskhash = (\<lambda>t. t), new_unihash = (\<lambda>t. t)\<rparr>"

definition start_scene_build :: "unit result \<times> exec" where
  "start_scene_build = init_exec conf_scene world0 rq_scene (basic_init (\<lambda>t. t) [] rq_scene) (\<lambda>_. None)"

definition tab_scene :: dep_data where
  "tab_scene = (case build_taskdepdata_cache conf_scene rq_scene of Inl e \<Rightarrow> [] | Inr t \<Rightarrow> t)"

text \<open>Calls of the driver with these messages, as long as they are honest and the driver goes on.\<close>

fun replay :: "conf \<Rightarrow> world \<Rightarrow> dep_data \<Rightarrow> wmsg list list \<Rightarrow> exec \<Rightarrow> exec option" where
  "replay c w tab [] s = Some s"
| "replay c w tab (ms # mss) s =
     (if honest c w tab ms [] [] s
      then (case run_queue c w tab ms [] [] s of (Loop v, t) \<Rightarrow> replay c w tab mss t | _ \<Rightarrow> None) else None)"

lemma replay_reached: "replay c w tab mss s = Some t \<Longrightarrow> reached c rq tab s \<Longrightarrow> reached c rq tab t"
  by (induction mss arbitrary: s) (auto split: if_splits prod.splits rq_return.splits intro: reached.pass)

definition half_way :: "exec option" where
  "half_way = replay conf_scene world0 tab_scene [[], [], [], [ExitCode ''b:sysroot'' 0]] (snd start_scene_build)"

lemma start_ok: "fst start_scene_build = Inr ()"
  by code_simp

lemma half_way_state:
  "map_option (\<lambda>s. (rq_state s, runq_buildable s, runq_running s, runq_complete s, failed_tids s)) half_way =
     Some (RqRunning, [''b:sysroot'', ''a:compile''], [''b:sysroot'', ''a:compile''], [''b:sysroot''], [])"
  by code_simp

definition nearly_done :: "exec option" where
  "nearly_done = replay conf_scene world0 tab_scene
     [[], [], [], [ExitCode ''b:sysroot'' 0], [ExitCode ''a:compile'' 0], [ExitCode ''a:sysroot'' 0]] (snd start_scene_build)"

lemma nearly_done_state:
  "map_option (\<lambda>s. (honest conf_scene world0 tab_scene [ExitCode ''a:build'' 0] [] [] s,
      case run_queue conf_scene world0 tab_scene [ExitCode ''a:build'' 0] [] [] s of (v, t) \<Rightarrow> (v, runq_complete t))) nearly_done =
     Some (True, Finished, [''b:sysroot'', ''a:compile'', ''a:sysroot'', ''a:build''])"
  by code_simp

lemma start_reached: "reached conf_scene rq_scene tab_scene (snd start_scene_build)"
proof (rule reached.start)
  show "init_exec conf_scene world0 rq_scene (basic_init (\<lambda>t. t) [] rq_scene) (\<lambda>_. None) = (Inr (), snd start_scene_build)"
    using start_ok unfolding start_scene_build_def by (metis prod.collapse)
qed (simp_all add: rq_scene_ok(1) basic_init_def)

lemma half_way_reached:
  obtains s where "half_way = Some s" "reached conf_scene rq_scene tab_scene s" "rq_state s = RqRunning"
    "runq_buildable s = [''b:sysroot'', ''a:compile'']" "runq_running s = [''b:sysroot'', ''a:compile'']"
    "runq_complete s = [''b:sysroot'']" "failed_tids s = []"
proof -
  obtain s where s: "half_way = Some s" using half_way_state by (cases half_way) auto
  then have "reached conf_scene rq_scene tab_scene s"
    using replay_reached start_reached unfolding half_way_def by blast
  then show ?thesis using that [OF s] half_way_state unfolding s by simp
qed

theorem dependency_order_witness:
  "\<exists>s. reached conf_scene rq_scene tab_scene s \<and> runq_running s = [''b:sysroot'', ''a:compile''] \<and>
     set (depends_of rq_scene ''a:compile'') \<subseteq> set (runq_complete s) \<and>
     \<not> set (depends_of rq_scene ''a:sysroot'') \<subseteq> set (runq_complete s)"
proof -
  obtain s where s: "reached conf_scene rq_scene tab_scene s" "runq_buildable s = [''b:sysroot'', ''a:compile'']"
    "runq_running s = [''b:sysroot'', ''a:compile'']" "runq_complete s = [''b:sysroot'']"
    by (rule half_way_reached)
  have d: "depends_of rq_scene ''a:sysroot'' = [''a:compile'']" by (simp add: depends_of_def rq_scene_def)
  show ?thesis using dependency_order [OF s(1)] s by (intro exI [of _ s]) (simp add: d)
qed



theorem graph_kept_witness:
  "\<exists>s. reached conf_scene rq_scene tab_scene s \<and> runq_complete s = [''b:sysroot''] \<and>
     revdeps_of (x_rq s) ''b:sysroot'' = [''a:compile'']"
proof -
  obtain s where s: "reached conf_scene rq_scene tab_scene s" "runq_complete s = [''b:sysroot'']"
    by (rule half_way_reached)
  have "revdeps_of rq_scene ''b:sysroot'' = [''a:compile'']" by (simp add: revdeps_of_def rq_scene_def)
  then show ?thesis using graph_kept [OF s(1)] s by (intro exI [of _ s]) simp
qed

end
