(* ===== verification/Rehash.thy ===== *)
theory Rehash
  imports Build
begin

text \<open>
  What \<open>process_possible_migrations\<close> of \<open>poky/bitbake/lib/bb/runqueue.py\<close> computes when unified hashes
  change: all tasks that depend on a changed one, directly or not, are hashed again, each once and
  after its dependencies.
\<close>

section \<open>The dependents\<close>

text \<open>The reverse dependencies of a set of tasks.\<close>

definition ups :: "runq \<Rightarrow> string set \<Rightarrow> string set" where
  "ups rq A = (\<Union>t \<in> A. set (revdeps_of rq t))"

lemma ups_empty [simp]: "ups rq {} = {}"
  by (simp add: ups_def)

lemma ups_insert [simp]: "ups rq (insert t A) = set (revdeps_of rq t) \<union> ups rq A"
  by (simp add: ups_def)

lemma ups_Un [simp]: "ups rq (A \<union> B) = ups rq A \<union> ups rq B"
  by (auto simp: ups_def)

lemma ups_mono: "A \<subseteq> B \<Longrightarrow> ups rq A \<subseteq> ups rq B"
  by (auto simp: ups_def)

lemma ups_keys: "graph_ok rq \<Longrightarrow> ups rq A \<subseteq> set (dkeys rq)"
  unfolding ups_def graph_ok_def by blast

lemma revdep_loop:
  assumes "set nxt \<subseteq> set (dkeys rq)" "distinct tot"
  shows "\<exists>tot1 nw. foreach (revdep_step rq) nxt (tot, acc) = (Inr (), tot1, nw) \<and> distinct tot1 \<and>
    set tot1 = set tot \<union> set nxt \<and> set nw \<subseteq> set acc \<union> ups rq (set nxt) \<and>
    set acc \<union> (ups rq (set nxt) - set tot1) \<subseteq> set nw"
  using assms
proof (induction nxt arbitrary: tot acc)
  case (Cons t nxt)
  obtain e where e: "dget rq t = Some e" using Cons.prems(1) dget_in_dkeys [of t rq] by auto
  then have rv: "set (revdeps e) = set (revdeps_of rq t)" by (simp add: revdeps_of_def)
  let ?acc = "add_all (filter (\<lambda>r. r \<notin> set tot) (revdeps e)) acc"
  obtain tot1 nw where r: "foreach (revdep_step rq) nxt (append_new t tot, ?acc) = (Inr (), tot1, nw)"
    "distinct tot1" "set tot1 = set (append_new t tot) \<union> set nxt"
    "set nw \<subseteq> set ?acc \<union> ups rq (set nxt)" "set ?acc \<union> (ups rq (set nxt) - set tot1) \<subseteq> set nw"
    using Cons.IH [of "append_new t tot" ?acc] Cons.prems by auto
  have "foreach (revdep_step rq) (t # nxt) (tot, acc) = (Inr (), tot1, nw)"
    using e r(1) by (simp add: revdep_step_def)
  moreover have "set acc \<union> (ups rq (set (t # nxt)) - set tot1) \<subseteq> set nw" using r(3,5) rv by auto
  moreover have "set nw \<subseteq> set acc \<union> ups rq (set (t # nxt))" using r(4) rv by auto
  ultimately show ?case using r(2,3) by auto
qed simp

text \<open>The waves end with the least set that contains the first wave and is closed under reverse dependencies.\<close>

lemma revdep_waves_result:
  assumes "graph_ok rq" "set nxt \<subseteq> set (dkeys rq)" "distinct tot"
    and "set nxt \<union> set tot \<subseteq> A" "ups rq A \<subseteq> A" "ups rq (set tot) \<subseteq> set tot \<union> set nxt"
  shows "\<exists>tot'. revdep_waves rq nxt tot = Inr tot' \<and> distinct tot' \<and> set nxt \<union> set tot \<subseteq> set tot' \<and>
    set tot' \<subseteq> A \<and> ups rq (set tot') \<subseteq> set tot'"
  using assms
proof (induction rq nxt tot rule: revdep_waves.induct)
  case (1 rq nxt tot)
  show ?case
  proof (cases "nxt = []")
    case True
    then show ?thesis using "1.prems" by (simp add: revdep_waves.simps)
  next
    case False
    obtain tot1 nw where r: "foreach (revdep_step rq) nxt (tot, []) = (Inr (), tot1, nw)" "distinct tot1"
      "set tot1 = set tot \<union> set nxt" "set nw \<subseteq> ups rq (set nxt)" "ups rq (set nxt) - set tot1 \<subseteq> set nw"
      using revdep_loop [OF "1.prems"(2,3), of "[]"] by auto
    let ?nw = "filter (\<lambda>t. t \<notin> set tot1) nw"
    have up: "ups rq (set nxt) \<subseteq> A" using ups_mono [of "set nxt" A rq] "1.prems"(4,5) by blast
    have keys: "set ?nw \<subseteq> set (dkeys rq)"
      using r(4) ups_keys [OF "1.prems"(1), of "set nxt"] by auto
    have A: "set ?nw \<union> set tot1 \<subseteq> A" using r(3,4) up "1.prems"(4) by auto
    have closed: "ups rq (set tot1) \<subseteq> set tot1 \<union> set ?nw"
      using r(5) "1.prems"(6) unfolding r(3) ups_Un by auto
    obtain tot' where "revdep_waves rq ?nw tot1 = Inr tot'" "distinct tot'" "set ?nw \<union> set tot1 \<subseteq> set tot'"
      "set tot' \<subseteq> A" "ups rq (set tot') \<subseteq> set tot'"
      using "1.IH" [OF False r(1) [symmetric] refl refl "1.prems"(1) keys r(2) A "1.prems"(5) closed] by blast
    then show ?thesis using False r(1,3) by (intro exI [of _ tot']) (auto simp: revdep_waves.simps [of rq nxt])
  qed
qed

text \<open>\<open>dependents_of\<close> finds exactly the tasks with one of the given tasks among their dependencies' closure.\<close>

definition dependents :: "runq \<Rightarrow> string set \<Rightarrow> string set" where
  "dependents rq P = {x. \<exists>p \<in> P. (x, p) \<in> (dep_rel rq)\<^sup>+}"

lemma dep_rel_ups:
  assumes "graph_ok rq" shows "x \<in> set (revdeps_of rq t) \<longleftrightarrow> (x, t) \<in> dep_rel rq"
  using assms by (simp add: graph_ok_def dep_rel_def)

lemma dependents_of_result:
  assumes ok: "graph_ok rq" and P: "set todo \<subseteq> set (dkeys rq)"
  shows "\<exists>tot. dependents_of rq todo = Inr tot \<and> distinct tot \<and> set tot = dependents rq (set todo)"
proof -
  let ?f = "\<lambda>p. case dget rq p of None \<Rightarrow> Inl KeyError | Some e \<Rightarrow> Inr (revdeps e)"
  have m: "map_result ?f ts = Inr (map (revdeps_of rq) ts)" if "set ts \<subseteq> set (dkeys rq)" for ts
    using that
  proof (induction ts)
    case (Cons t ts)
    then obtain e where "dget rq t = Some e" using dget_in_dkeys [of t rq] by auto
    then show ?case using Cons by (simp add: revdeps_of_def)
  qed simp
  let ?D = "dependents rq (set todo)" and ?seed = "add_all (concat (map (revdeps_of rq) todo)) []"
  have seed: "set ?seed = ups rq (set todo)" by (auto simp: ups_def)
  have closed: "ups rq ?D \<subseteq> ?D"
    unfolding ups_def dependents_def using dep_rel_ups [OF ok] by (blast intro: trancl_into_trancl2)
  have "set ?seed \<subseteq> set (dkeys rq)" using ups_keys [OF ok] unfolding seed .
  moreover have "set ?seed \<union> set [] \<subseteq> ?D"
    unfolding seed ups_def dependents_def using dep_rel_ups [OF ok] by auto
  ultimately obtain tot where tot: "revdep_waves rq ?seed [] = Inr tot" "distinct tot" "set ?seed \<subseteq> set tot"
    "set tot \<subseteq> ?D" "ups rq (set tot) \<subseteq> set tot"
    using revdep_waves_result [OF ok, of ?seed "[]" ?D] closed by auto
  have "?D \<subseteq> set tot"
  proof
    fix x assume "x \<in> ?D"
    then obtain p where p: "p \<in> set todo" "(x, p) \<in> (dep_rel rq)\<^sup>+" by (auto simp: dependents_def)
    from p(2) show "x \<in> set tot"
    proof (induction rule: converse_trancl_induct)
      case (base y)
      then have "y \<in> ups rq (set todo)" using p(1) unfolding ups_def by (blast intro: dep_rel_ups [OF ok, THEN iffD2])
      then show ?case using tot(3) unfolding seed by blast
    next
      case (step y z)
      then have "y \<in> ups rq (set tot)" unfolding ups_def by (blast intro: dep_rel_ups [OF ok, THEN iffD2])
      then show ?case using tot(5) by blast
    qed
  qed
  then have "set tot = ?D" using tot(4) by blast
  then show ?thesis using tot(1,2) m [OF P] by (auto simp: dependents_of_def)
qed

section \<open>Hashing them again\<close>

text \<open>A task keeps its hash when the new one is equal, or when its setscene task ran or runs.\<close>

definition keeps_hash :: "world \<Rightarrow> exec \<Rightarrow> string \<Rightarrow> bool" where
  "keeps_hash w s x \<longleftrightarrow> map_option unihash (dget (x_rq s) x) = Some (Some (new_unihash w x)) \<or>
     x \<in> set (scenequeue_covered s) \<or> x \<in> set (sq_live s)"

definition rehashed :: "world \<Rightarrow> exec \<Rightarrow> string set \<Rightarrow> string \<Rightarrow> run_entry option" where
  "rehashed w s X x = map_option (\<lambda>e. if x \<in> X \<and> \<not> keeps_hash w s x
     then e\<lparr>hash := Some (new_taskhash w x), unihash := Some (new_unihash w x)\<rparr> else e) (dget (x_rq s) x)"

text \<open>The state after the tasks of \<open>X\<close> are handled.\<close>

definition handled :: "world \<Rightarrow> exec \<Rightarrow> string set \<Rightarrow> rehash \<Rightarrow> bool" where
  "handled w s X r \<longleftrightarrow> (\<exists>rq. r_exec r = s\<lparr>x_rq := rq\<rparr> \<and> same_graph (x_rq s) rq \<and>
     (\<forall>x. dget rq x = rehashed w s X x)) \<and> set (r_changed r) = {x \<in> X. \<not> keeps_hash w s x} \<and>
     sorted_wrt (\<lambda>x y. y \<notin> set (depends_of (x_rq s) x)) (r_changed r)"

lemma handled_graph:
  assumes "handled w s X r"
  shows "dkeys (x_rq (r_exec r)) = dkeys (x_rq s)" "depends_of (x_rq (r_exec r)) = depends_of (x_rq s)"
    "revdeps_of (x_rq (r_exec r)) = revdeps_of (x_rq s)"
  using assms by (auto simp: handled_def same_graph_def)

lemma rehash_task_handled:
  assumes h: "handled w s X r" and t: "t \<in> set (r_rest r)" "t \<notin> X" "t \<in> set (dkeys (x_rq s))"
    "\<And>x. x \<in> X \<Longrightarrow> t \<notin> set (depends_of (x_rq s) x)"
  shows "\<exists>r'. rehash_task w t r = (Inr (), r') \<and> handled w s (insert t X) r' \<and>
    r_rest r' = remove_from t (r_rest r) \<and>
    r_next r' = filter (\<lambda>x. x \<in> set (r_rest r')) (add_all (revdeps_of (x_rq s) t) (r_next r))"
proof -
  obtain rq where rq: "r_exec r = s\<lparr>x_rq := rq\<rparr>" "same_graph (x_rq s) rq" "\<And>x. dget rq x = rehashed w s X x"
    and ch: "set (r_changed r) = {x \<in> X. \<not> keeps_hash w s x}"
    and ord: "sorted_wrt (\<lambda>x y. y \<notin> set (depends_of (x_rq s) x)) (r_changed r)"
    using h by (auto simp: handled_def)
  obtain e where e: "dget (x_rq s) t = Some e" using t(3) dget_in_dkeys [of t "x_rq s"] by auto
  have et: "dget rq t = Some e" using rq(3) [of t] e t(2) by (simp add: rehashed_def)
  have rv: "revdeps e = revdeps_of (x_rq s) t" using e by (simp add: revdeps_of_def)
  define keep where "keep \<longleftrightarrow> keeps_hash w s t"
  let ?e = "e\<lparr>hash := Some (new_taskhash w t), unihash := Some (new_unihash w t)\<rparr>"
  let ?rq = "if keep then rq else dset t ?e rq"
  let ?r = "r\<lparr>r_rest := remove_from t (r_rest r),
      r_next := filter (\<lambda>x. x \<in> set (remove_from t (r_rest r))) (add_all (revdeps e) (r_next r)),
      r_changed := if keep then r_changed r else append_new t (r_changed r), r_exec := s\<lparr>x_rq := ?rq\<rparr>\<rparr>"
  have k: "keep \<longleftrightarrow> unihash e = Some (new_unihash w t) \<or> t \<in> set (scenequeue_covered s) \<or> t \<in> set (sq_live s)"
    using e by (simp add: keep_def keeps_hash_def)
  have run: "rehash_task w t r = (Inr (), ?r)"
    using t(1) et k by (auto simp: rehash_task_def Let_def rq(1))
  have "same_graph rq (dset t ?e rq)" by (rule same_graph_dset [OF et]) simp_all
  then have g: "same_graph (x_rq s) ?rq" using rq(2) same_graph_trans by auto
  have "dget ?rq x = rehashed w s (insert t X) x" for x
    using rq(3) [of x] e by (auto simp: rehashed_def keep_def)
  moreover have "sorted_wrt (\<lambda>x y. y \<notin> set (depends_of (x_rq s) x)) (r_changed ?r)"
    using ord ch t(4) by (auto simp: append_new_def sorted_wrt_append)
  ultimately have "handled w s (insert t X) ?r"
    using g ch t(2) unfolding handled_def by (auto simp: keep_def)
  with run rv show ?thesis by (intro exI [of _ ?r]) simp
qed

lemma rehash_tasks_handled:
  assumes "handled w s X r" "set ts \<subseteq> set (r_rest r)" "set ts \<inter> X = {}" "set (r_rest r) \<subseteq> set (dkeys (x_rq s))"
    "distinct ts" "distinct (r_next r)" "set (r_next r) \<subseteq> set (r_rest r)"
    "\<And>x. x \<in> set ts \<union> X \<Longrightarrow> set (depends_of (x_rq s) x) \<inter> set (r_rest r) = {}"
  shows "\<exists>r'. foreach (rehash_task w) ts r = (Inr (), r') \<and> handled w s (set ts \<union> X) r' \<and>
    set (r_rest r') = set (r_rest r) - set ts \<and> distinct (r_next r') \<and> set (r_next r') \<subseteq> set (r_rest r') \<and>
    (set (r_next r) \<union> ups (x_rq s) (set ts)) \<inter> set (r_rest r') \<subseteq> set (r_next r')"
  using assms
proof (induction ts arbitrary: X r)
  case (Cons t ts)
  have t: "t \<in> set (r_rest r)" "t \<notin> X" "t \<in> set (dkeys (x_rq s))"
    "\<And>x. x \<in> X \<Longrightarrow> t \<notin> set (depends_of (x_rq s) x)"
    using Cons.prems(2,3,4) Cons.prems(8) by (auto simp del: set_map)
  obtain r1 where r1: "rehash_task w t r = (Inr (), r1)" "handled w s (insert t X) r1"
    "r_rest r1 = remove_from t (r_rest r)"
    "r_next r1 = filter (\<lambda>x. x \<in> set (r_rest r1)) (add_all (revdeps_of (x_rq s) t) (r_next r))"
    using rehash_task_handled [OF Cons.prems(1) t] by blast
  obtain r' where r': "foreach (rehash_task w) ts r1 = (Inr (), r')" "handled w s (set ts \<union> insert t X) r'"
    "set (r_rest r') = set (r_rest r1) - set ts" "distinct (r_next r')" "set (r_next r') \<subseteq> set (r_rest r')"
    "(set (r_next r1) \<union> ups (x_rq s) (set ts)) \<inter> set (r_rest r') \<subseteq> set (r_next r')"
  proof -
    have n: "set (r_next r1) = (set (revdeps_of (x_rq s) t) \<union> set (r_next r)) \<inter> set (r_rest r1)"
      unfolding r1(4) by auto
    have "set ts \<subseteq> set (r_rest r1)" "set ts \<inter> insert t X = {}" "set (r_rest r1) \<subseteq> set (dkeys (x_rq s))"
      using Cons.prems(2-5) r1(3) by (auto simp del: set_map)
    moreover have "distinct ts" "distinct (r_next r1)" "set (r_next r1) \<subseteq> set (r_rest r1)"
      using Cons.prems(5,6) n by (auto simp: r1(4))
    moreover have "set (depends_of (x_rq s) x) \<inter> set (r_rest r1) = {}" if "x \<in> set ts \<union> insert t X" for x
      using Cons.prems(8) [of x] that r1(3) by auto
    ultimately show ?thesis using Cons.IH [OF r1(2)] that by blast
  qed
  have "set (r_next r1) = (set (revdeps_of (x_rq s) t) \<union> set (r_next r)) \<inter> set (r_rest r1)"
    unfolding r1(4) by auto
  then have "(set (r_next r) \<union> ups (x_rq s) (set (t # ts))) \<inter> set (r_rest r') \<subseteq> set (r_next r')"
    using r'(3,6) by auto
  then show ?case using r1(1,3) r' by auto
qed auto


text \<open>Between two rounds the tasks that are ready are in the next one, and the others of it are dropped.\<close>

definition rehash_inv :: "world \<Rightarrow> exec \<Rightarrow> string set \<Rightarrow> rehash \<Rightarrow> bool" where
  "rehash_inv w s T r \<longleftrightarrow> handled w s (T - set (r_rest r)) r \<and> set (r_rest r) \<subseteq> T \<and> distinct (r_next r) \<and>
     set (r_next r) \<subseteq> set (r_rest r) \<and>
     (\<forall>t \<in> set (r_rest r). set (depends_of (x_rq s) t) \<inter> set (r_rest r) = {} \<longrightarrow> t \<in> set (r_next r)) \<and>
     (\<forall>t \<in> T - set (r_rest r). set (depends_of (x_rq s) t) \<inter> set (r_rest r) = {})"

lemma rehash_round_inv:
  assumes ok: "graph_ok (x_rq s)" and T: "T \<subseteq> set (dkeys (x_rq s))" and inv: "rehash_inv w s T r"
  shows "\<exists>r'. rehash_round w True r = (Inr (), r') \<and> rehash_inv w s T r'"
proof -
  have h: "handled w s (T - set (r_rest r)) r" and rest: "set (r_rest r) \<subseteq> T" and nd: "distinct (r_next r)"
    and nx: "set (r_next r) \<subseteq> set (r_rest r)"
    and free: "\<And>t. t \<in> set (r_rest r) \<Longrightarrow> set (depends_of (x_rq s) t) \<inter> set (r_rest r) = {} \<Longrightarrow> t \<in> set (r_next r)"
    and past: "\<And>t. t \<in> T - set (r_rest r) \<Longrightarrow> set (depends_of (x_rq s) t) \<inter> set (r_rest r) = {}"
    using inv by (auto simp: rehash_inv_def)
  let ?rq = "x_rq (r_exec r)"
  let ?f = "\<lambda>t. case dget ?rq t of None \<Rightarrow> Inl KeyError | Some e \<Rightarrow> Inr e"
  define ts where "ts = filter (is_ready ?rq True (r_rest r)) (r_next r)"
  have m: "\<exists>es. map_result ?f ts = Inr es" if "set ts \<subseteq> set (dkeys ?rq)" for ts
    using that
  proof (induction ts)
    case (Cons t ts)
    then obtain e where "dget ?rq t = Some e" using dget_in_dkeys [of t ?rq] by auto
    then show ?case using Cons by auto
  qed simp
  have keys: "set (r_rest r) \<subseteq> set (dkeys (x_rq s))" using rest T by blast
  then have "set (r_next r) \<subseteq> set (dkeys ?rq)" using nx unfolding handled_graph(1) [OF h] by blast
  then have round: "rehash_round w True r = foreach (rehash_task w) ts (r\<lparr>r_next := []\<rparr>)"
    using m [of "r_next r"] by (auto simp: rehash_round_def ts_def)
  have ts: "set ts = {t \<in> set (r_next r). set (depends_of (x_rq s) t) \<inter> set (r_rest r) = {}}"
    using handled_graph(2) [OF h] by (auto simp: ts_def is_ready_def)
  have "handled w s (T - set (r_rest r)) (r\<lparr>r_next := []\<rparr>)" using h by (simp add: handled_def)
  moreover have sub: "set ts \<subseteq> set (r_rest r)" using ts nx by blast
  moreover have "set ts \<inter> (T - set (r_rest r)) = {}" "distinct ts" using sub nd by (auto simp: ts_def)
  moreover have settled: "set (depends_of (x_rq s) x) \<inter> set (r_rest r) = {}" if "x \<in> set ts \<union> (T - set (r_rest r))" for x
    using that past [of x] unfolding ts by blast
  ultimately obtain r' where r': "foreach (rehash_task w) ts (r\<lparr>r_next := []\<rparr>) = (Inr (), r')"
    "handled w s (set ts \<union> (T - set (r_rest r))) r'" "set (r_rest r') = set (r_rest r) - set ts"
    "distinct (r_next r')" "set (r_next r') \<subseteq> set (r_rest r')"
    "ups (x_rq s) (set ts) \<inter> set (r_rest r') \<subseteq> set (r_next r')"
    using rehash_tasks_handled [of w s "T - set (r_rest r)" "r\<lparr>r_next := []\<rparr>" ts] keys
    by (auto simp del: set_map)
  have T': "set ts \<union> (T - set (r_rest r)) = T - set (r_rest r')"
    using r'(3) sub rest by blast
  have "t \<in> set (r_next r')" if t: "t \<in> set (r_rest r')" "set (depends_of (x_rq s) t) \<inter> set (r_rest r') = {}" for t
  proof -
    have "t \<in> set (r_rest r)" "t \<notin> set ts" using t(1) unfolding r'(3) by blast+
    then have "set (depends_of (x_rq s) t) \<inter> set (r_rest r) \<noteq> {}" using free [of t] unfolding ts by blast
    then obtain d where "d \<in> set (depends_of (x_rq s) t)" "d \<in> set ts" using t(2) unfolding r'(3) by blast
    then have "t \<in> ups (x_rq s) (set ts)"
      using dep_rel_ups [OF ok, of t d] unfolding ups_def dep_rel_def by blast
    then show ?thesis using r'(6) t(1) by blast
  qed
  moreover have "handled w s (T - set (r_rest r')) r'" using r'(2) unfolding T' .
  moreover have "set (r_rest r') \<subseteq> T" using r'(3) rest by blast
  moreover have "set (depends_of (x_rq s) t) \<inter> set (r_rest r') = {}" if "t \<in> T - set (r_rest r')" for t
    using settled [of t] that r'(3) unfolding T' by blast
  ultimately have "rehash_inv w s T r'" using r'(4,5) unfolding rehash_inv_def by blast
  then show ?thesis using round r'(1) by auto
qed

text \<open>With no dependency loop a round is empty only at the end.\<close>

lemma ready_exists:
  assumes "acyclic (dep_rel rq)" "t \<in> A"
  shows "\<exists>t \<in> A. set (depends_of rq t) \<inter> A = {}"
  using assms
proof (induction t rule: dep_rel_induct)
  case (less t)
  then show ?case by (auto simp: deps_set_def)
qed

lemma rehash_loop_inv:
  assumes "graph_ok (x_rq s)" "acyclic (dep_rel (x_rq s))" "T \<subseteq> set (dkeys (x_rq s))" "rehash_inv w s T r"
  shows "\<exists>r'. rehash_loop w True r = (Inr (), r') \<and> handled w s T r'"
  using assms(4)
proof (induction w "True" r rule: rehash_loop.induct)
  case (1 w r)
  show ?case
  proof (cases "r_next r = []")
    case True
    have "set (r_rest r) = {}"
      using "1.prems" True ready_exists [OF assms(2), of _ "set (r_rest r)"] by (fastforce simp: rehash_inv_def)
    then show ?thesis using "1.prems" True by (auto simp: rehash_inv_def rehash_loop.simps [of w True r])
  next
    case False
    obtain r1 where r1: "rehash_round w True r = (Inr (), r1)" "rehash_inv w s T r1"
      using rehash_round_inv [OF assms(1,3) "1.prems"] by blast
    show ?thesis using "1.hyps" [OF False r1(1) [symmetric] refl r1(2)] False r1(1)
      by (simp add: rehash_loop.simps [of w True r])
  qed
qed

section \<open>The whole step\<close>

lemma update_entries_keys:
  assumes "foreach (\<lambda>h. update_entry h f) hs s = (Inr (), s')"
  shows "set hs \<subseteq> set (dkeys (x_rq s)) \<and> set (dkeys (x_rq s')) = set (dkeys (x_rq s))"
  using assms
proof (induction hs arbitrary: s)
  case (Cons h hs)
  obtain s1 where s1: "update_entry h f s = (Inr (), s1)" "foreach (\<lambda>h. update_entry h f) hs s1 = (Inr (), s')"
    using Cons.prems by (auto split: prod.splits sum.splits)
  obtain e where e: "dget (x_rq s) h = Some e" "s1 = s\<lparr>x_rq := dset h (f e) (x_rq s)\<rparr>"
    using s1(1) by (auto simp: update_entry_def with_key_def split: option.splits)
  have h: "h \<in> set (dkeys (x_rq s))" using e(1) dget_in_dkeys [of h "x_rq s"] by simp
  then have "set (dkeys (x_rq s1)) = set (dkeys (x_rq s))" unfolding e(2) by (auto simp: set_dkeys_dset simp del: set_map)
  then show ?case using Cons.IH [OF s1(2)] h by (simp del: set_map)
qed simp

lemma take_update_keys:
  assumes "take_update u (todo, s) = (Inr (), todo', s')" "set todo \<subseteq> set (dkeys (x_rq s))"
  shows "set todo' \<subseteq> set (dkeys (x_rq s'))"
proof -
  obtain tid uh where u: "u = (tid, uh)" by (cases u)
  let ?s = "s\<lparr>updated_taskhash_queue := remove_first u (updated_taskhash_queue s)\<rparr>"
  let ?hs = "tid # map fst (filter (\<lambda>(d, t). t = tid) (sq_deferred s))"
  have q: "x_rq ?s = x_rq s" by simp
  have "(todo' = todo \<and> x_rq s' = x_rq s) \<or>
      (foreach (\<lambda>h. update_entry h (\<lambda>e. e\<lparr>unihash := Some uh\<rparr>)) ?hs ?s = (Inr (), s') \<and> todo' = add_all ?hs todo)"
    using assms(1) by (auto simp: take_update_def u Let_def with_key_def simp del: foreach.simps
      split: if_splits option.splits prod.splits)
  then show ?thesis
  proof
    assume r: "foreach (\<lambda>h. update_entry h (\<lambda>e. e\<lparr>unihash := Some uh\<rparr>)) ?hs ?s = (Inr (), s') \<and>
      todo' = add_all ?hs todo"
    have "set ?hs \<subseteq> set (dkeys (x_rq s)) \<and> set (dkeys (x_rq s')) = set (dkeys (x_rq s))"
      using update_entries_keys [OF conjunct1 [OF r]] unfolding q .
    moreover have "set todo' = set ?hs \<union> set todo" unfolding conjunct2 [OF r] by (simp only: set_add_all)
    ultimately show ?thesis using assms(2) by blast
  qed (use assms(2) in \<open>simp del: set_map\<close>)
qed

lemma take_updates_keys:
  "foreach take_update us (todo, s) = (Inr (), todo', s') \<Longrightarrow> set todo \<subseteq> set (dkeys (x_rq s)) \<Longrightarrow>
     set todo' \<subseteq> set (dkeys (x_rq s'))"
proof (induction us arbitrary: todo s)
  case (Cons u us)
  obtain todo1 s1 where one: "take_update u (todo, s) = (Inr (), todo1, s1)"
    "foreach take_update us (todo1, s1) = (Inr (), todo', s')"
    using Cons.prems(1) by (auto split: prod.splits sum.splits)
  show ?case using Cons.IH [OF one(2) take_update_keys [OF one(1) Cons.prems(2)]] .
qed simp

lemma rehash_from:
  assumes ok: "graph_ok (x_rq s)" and ac: "acyclic (dep_rel (x_rq s))" and P: "set todo \<subseteq> set (dkeys (x_rq s))"
    and tot: "distinct tot" "set tot = dependents (x_rq s) (set todo)"
  defines "first \<equiv> filter (\<lambda>p. set (depends_of (x_rq s) p) \<inter> set tot = {}) tot"
    and "other \<equiv> tot \<noteq> [] \<and> depends_of (x_rq s) (last tot) \<noteq> []"
  shows "\<exists>r. rehash_loop w other \<lparr>r_rest = tot, r_next = first, r_changed = [], r_exec = s\<rparr> = (Inr (), r) \<and>
    handled w s (set tot) r"
proof -
  let ?r = "\<lparr>r_rest = tot, r_next = first, r_changed = [], r_exec = s\<rparr>"
  have none: "handled w s {} ?r"
    by (auto simp: handled_def rehashed_def same_graph_def intro!: exI [of _ "x_rq s"] option.map_ident [symmetric])
  show ?thesis
  proof (cases "tot = []")
    case True
    then show ?thesis using none by (simp add: first_def rehash_loop.simps)
  next
    case False
    then have "last tot \<in> dependents (x_rq s) (set todo)" using last_in_set tot(2) by blast
    then have "\<exists>d. (last tot, d) \<in> dep_rel (x_rq s)" unfolding dependents_def by (blast elim: converse_tranclE)
    then have other: "other = True" using False by (auto simp: other_def dep_rel_def)
    have "x \<in> set (dkeys (x_rq s))" if "x \<in> set tot" for x
    proof -
      obtain d where "(x, d) \<in> dep_rel (x_rq s)" using \<open>x \<in> set tot\<close> tot(2) unfolding dependents_def
        by (blast elim: converse_tranclE)
      then have "x \<in> ups (x_rq s) {d}" using dep_rel_ups [OF ok] by (simp add: ups_def)
      then show ?thesis using ups_keys [OF ok] by blast
    qed
    moreover have "rehash_inv w s (set tot) ?r"
      using none tot(1) by (auto simp: rehash_inv_def first_def)
    ultimately show ?thesis unfolding other using rehash_loop_inv [OF ok ac, of "set tot" w ?r] by blast
  qed
qed

text \<open>
  C17: when workers have reported new unified hashes, \<open>todo\<close> are the tasks that take one.  Then exactly
  the tasks that depend on one of them, directly or not, are hashed again, and the hashes of all others
  stay: a task gets the hash and the unified hash that the signature generator now computes, unless the
  unified hash is the same or its setscene task ran or runs.  The tasks that changed are returned, each
  after those of its dependencies that changed.  Nothing else of the executor is touched and the loop
  ends without an exception.
\<close>
theorem rehash_dependents:
  assumes "graph_ok (x_rq s)" "acyclic (dep_rel (x_rq s))"
    and "foreach take_update (updated_taskhash_queue s) ([], s) = (Inr (), todo, s1)"
  shows "\<exists>ch rq. rehash_all c w s = (Inr ch, s1\<lparr>x_rq := rq\<rparr>) \<and>
    set ch = {x \<in> dependents (x_rq s1) (set todo). \<not> keeps_hash w s1 x} \<and>
    sorted_wrt (\<lambda>x y. y \<notin> set (depends_of (x_rq s1) x)) ch \<and>
    (\<forall>x. dget rq x = rehashed w s1 (dependents (x_rq s1) (set todo)) x)"
proof -
  have "core_step c s s1" using take_updates_core [of c "([], s)" "updated_taskhash_queue s"] assms(3) by simp
  then have g: "same_graph (x_rq s) (x_rq s1)" by (simp add: core_defs)
  then have ok: "graph_ok (x_rq s1)" and ac: "acyclic (dep_rel (x_rq s1))"
    using assms(1,2) same_graph_ok [OF g] by (simp_all add: same_graph_def dep_rel_def)
  have todo: "set todo \<subseteq> set (dkeys (x_rq s1))" using take_updates_keys [OF assms(3)] by simp
  obtain tot where tot: "dependents_of (x_rq s1) todo = Inr tot" "distinct tot"
    "set tot = dependents (x_rq s1) (set todo)"
    using dependents_of_result [OF ok todo] by blast
  obtain r where r: "rehash_loop w (tot \<noteq> [] \<and> depends_of (x_rq s1) (last tot) \<noteq> [])
      \<lparr>r_rest = tot, r_next = filter (\<lambda>p. set (depends_of (x_rq s1) p) \<inter> set tot = {}) tot,
        r_changed = [], r_exec = s1\<rparr> = (Inr (), r)" "handled w s1 (set tot) r"
    using rehash_from [OF ok ac todo tot(2,3)] by blast
  have "rehash_all c w s = (Inr (r_changed r), r_exec r)"
    using assms(3) tot(1) r(1) by (simp add: rehash_all_def Let_def)
  then show ?thesis using r(2) unfolding handled_def tot(3) by auto
qed


definition scene_update :: exec where
  "scene_update = exec_scene\<lparr>updated_taskhash_queue := [(''b:sysroot'', ''9'')]\<rparr>"

theorem rehash_dependents_witness:
  "\<exists>ch rq. fst (rehash_all conf_scene world0 scene_update) = Inr ch \<and>
     x_rq (snd (rehash_all conf_scene world0 scene_update)) = rq \<and> ''a:compile'' \<in> set ch \<and>
     map_option unihash (dget rq ''a:compile'') = Some (Some ''a:compile'') \<and>
     map_option unihash (dget rq ''b:sysroot'') = Some (Some ''9'')"
proof -
  let ?r = "foreach take_update (updated_taskhash_queue scene_update) ([], scene_update)"
  let ?s1 = "snd (snd ?r)" and ?todo = "fst (snd ?r)"
  have r: "?r = (Inr (), ?todo, ?s1)"
  proof -
    have "fst ?r = Inr ()" by code_simp
    then show ?thesis by (metis prod.collapse)
  qed
  have q: "x_rq scene_update = rq_scene" by (simp add: scene_update_def exec_scene_def fresh_exec_def)
  have todo: "?todo = [''b:sysroot'']" by code_simp
  have deps: "depends_of (x_rq ?s1) ''a:compile'' = [''b:sysroot'']"
    "depends_of (x_rq ?s1) ''b:sysroot'' = []" by code_simp+
  have live: "scenequeue_covered ?s1 = []" "sq_live ?s1 = []" by code_simp+
  have uni: "map_option unihash (dget (x_rq ?s1) ''a:compile'') = Some (Some ''3'')"
    "map_option unihash (dget (x_rq ?s1) ''b:sysroot'') = Some (Some ''9'')" by code_simp+
  have d: "''a:compile'' \<in> dependents (x_rq ?s1) {''b:sysroot''}"
    "''b:sysroot'' \<notin> dependents (x_rq ?s1) {''b:sysroot''}"
    using deps by (auto simp: dependents_def dep_rel_def elim: converse_tranclE)
  have k: "\<not> keeps_hash world0 ?s1 ''a:compile''" using uni live by (auto simp: keeps_hash_def world0_def)
  obtain ch rq where c: "rehash_all conf_scene world0 scene_update = (Inr ch, ?s1\<lparr>x_rq := rq\<rparr>)"
    "set ch = {x \<in> dependents (x_rq ?s1) {''b:sysroot''}. \<not> keeps_hash world0 ?s1 x}"
    "\<And>x. dget rq x = rehashed world0 ?s1 (dependents (x_rq ?s1) {''b:sysroot''}) x"
    using rehash_dependents [OF _ _ r, of conf_scene world0] rq_scene_ok unfolding q todo by auto
  have "''a:compile'' \<in> set ch" using c(2) d(1) k by blast
  moreover have "map_option unihash (dget rq ''a:compile'') = Some (Some ''a:compile'')"
    using c(3) [of "''a:compile''"] d(1) k uni(1) by (auto simp: rehashed_def world0_def)
  moreover have "map_option unihash (dget rq ''b:sysroot'') = Some (Some ''9'')"
    using c(3) [of "''b:sysroot''"] d(2) uni(2) by (auto simp: rehashed_def)
  ultimately show ?thesis unfolding c(1) by simp
qed

end
