(* ===== verification/Expand.thy ===== *)
theory Expand
  imports Prelude
begin

text \<open>
  The textual side of the datastore (\<open>poky/bitbake/lib/bb/data_smart.py\<close>): its regular expressions, the
  values that variables and flags have, and the substitution of \<open>${NAME}\<close> and \<open>${@code}\<close>
  (\<open>VariableParse\<close>).  A substitution reads variables, so it passes a state of any type along;
  the theory of the datastore instantiates it.  Python code in a value is a parameter.
\<close>

section \<open>References to variables\<close>

text \<open>\<open>re.sub\<close> replaces the matches found in the original text; a \<open>piece\<close> is a character or a match.\<close>

datatype piece = Plain char | Match string

definition ref_char :: "char \<Rightarrow> bool" where
  "ref_char c \<longleftrightarrow> is_letter c \<or> is_digit c \<or> c \<in> set ''-_+./~:''"

text \<open>\<open>\${[a-zA-Z0-9\-_+./~:]+}\<close> at the start of a text: the name and the rest.\<close>

definition var_ref :: "string \<Rightarrow> (string \<times> string) option" where
  "var_ref s =
     (case s of
        d # b # t \<Rightarrow>
          (let name = takeWhile ref_char t
           in case dropWhile ref_char t of
                c # rest \<Rightarrow> if d = CHR ''$'' \<and> b = CHR ''{'' \<and> name \<noteq> [] \<and> c = CHR ''}'' then Some (name, rest) else None
              | [] \<Rightarrow> None)
      | _ \<Rightarrow> None)"

lemma var_ref_shorter: "var_ref s = Some (name, rest) \<Longrightarrow> length rest < length s"
proof -
  assume s: "var_ref s = Some (name, rest)"
  then obtain d b t c where t: "s = d # b # t" "dropWhile ref_char t = c # rest"
    by (auto simp: var_ref_def Let_def split: list.splits if_splits)
  show ?thesis using length_dropWhile_le [of ref_char t] t by simp
qed

function var_pieces :: "string \<Rightarrow> piece list" where
  "var_pieces [] = []"
| "var_pieces (c # cs) =
     (case var_ref (c # cs) of
        Some (name, rest) \<Rightarrow> Match name # var_pieces rest
      | None \<Rightarrow> Plain c # var_pieces cs)"
  by pat_completeness auto
termination
  by (relation "measure length") (auto dest: var_ref_shorter)

text \<open>\<open>s.find('${') != -1\<close>.\<close>

fun has_dollar :: "string \<Rightarrow> bool" where
  "has_dollar (a # b # cs) \<longleftrightarrow> (a = CHR ''$'' \<and> b = CHR ''{'') \<or> has_dollar (b # cs)"
| "has_dollar _ \<longleftrightarrow> False"

section \<open>References to Python code\<close>

text \<open>
  \<open>\${@(?:{.*?}|.)+?}\<close>: after the prefix one or more items, as few as possible, each a group in braces,
  as short as possible, or one character; a dot is not a newline.  The ends of an item are listed in
  the order in which the matcher tries them.
\<close>

fun brace_ends :: "string \<Rightarrow> string list" where
  "brace_ends [] = []"
| "brace_ends (c # cs) = (if c = CHR ''}'' then [cs] else []) @ (if c = newline then [] else brace_ends cs)"

definition item_ends :: "string \<Rightarrow> string list" where
  "item_ends s =
     (case s of
        [] \<Rightarrow> []
      | c # cs \<Rightarrow> (if c = CHR ''{'' then brace_ends cs else []) @ (if c = newline then [] else [cs]))"

lemma brace_ends_shorter: "e \<in> set (brace_ends s) \<Longrightarrow> length e < length s"
  by (induction s) (auto split: if_splits)

lemma item_ends_shorter: "e \<in> set (item_ends s) \<Longrightarrow> length e < length s"
  by (cases s) (auto simp: item_ends_def split: if_splits dest: brace_ends_shorter)

primrec first_some :: "('a \<Rightarrow> 'b option) \<Rightarrow> 'a list \<Rightarrow> 'b option" where
  "first_some f [] = None"
| "first_some f (x # xs) = (case f x of Some y \<Rightarrow> Some y | None \<Rightarrow> first_some f xs)"

lemma first_some_cong [fundef_cong]:
  "xs = ys \<Longrightarrow> (\<And>x. x \<in> set ys \<Longrightarrow> f x = g x) \<Longrightarrow> first_some f xs = first_some g ys"
  by (induction xs arbitrary: ys) (auto split: option.splits)

lemma first_some_Some: "first_some f xs = Some y \<Longrightarrow> \<exists>x \<in> set xs. f x = Some y"
  by (induction xs) (auto split: option.splits)

function py_items :: "bool \<Rightarrow> string \<Rightarrow> string option" where
  "py_items started s =
     (if started \<and> s \<noteq> [] \<and> hd s = CHR ''}'' then Some (tl s)
      else first_some (py_items True) (item_ends s))"
  by pat_completeness auto
termination
  by (relation "measure (\<lambda>(_, s). length s)") (auto dest: item_ends_shorter)

declare py_items.simps [simp del]

definition py_ref :: "string \<Rightarrow> (string \<times> string) option" where
  "py_ref s =
     (case s of
        a # b # d # t \<Rightarrow>
          if a = CHR ''$'' \<and> b = CHR ''{'' \<and> d = CHR ''@''
          then map_option (\<lambda>rest. (take (length t - length rest - 1) t, rest)) (py_items False t)
          else None
      | _ \<Rightarrow> None)"

lemma py_items_shorter: "py_items started s = Some rest \<Longrightarrow> length rest < length s"
proof (induction started s rule: py_items.induct)
  case (1 started s)
  show ?case
  proof (cases "started \<and> s \<noteq> [] \<and> hd s = CHR ''}''")
    case False
    then obtain e where "e \<in> set (item_ends s)" "py_items True e = Some rest"
      using "1.prems" first_some_Some [of "py_items True" "item_ends s" rest] by (auto simp: py_items.simps [of started s])
    then show ?thesis using "1.IH" [OF False] item_ends_shorter by fastforce
  next
    case True
    then show ?thesis using "1.prems" py_items.simps [of started s] by (cases s) auto
  qed
qed

lemma py_ref_shorter: "py_ref s = Some (src, rest) \<Longrightarrow> length rest < length s"
  by (auto simp: py_ref_def split: list.splits if_splits dest!: py_items_shorter)

function py_pieces :: "string \<Rightarrow> piece list" where
  "py_pieces [] = []"
| "py_pieces (c # cs) =
     (case py_ref (c # cs) of
        Some (name, rest) \<Rightarrow> Match name # py_pieces rest
      | None \<Rightarrow> Plain c # py_pieces cs)"
  by pat_completeness auto
termination
  by (relation "measure length") (auto dest: py_ref_shorter)

section \<open>Values\<close>

text \<open>
  What a variable or a flag holds: Python's \<open>None\<close>, a string, a boolean, the list of the operations
  \<open>:append\<close>, \<open>:prepend\<close> or \<open>:remove\<close> with the overrides they depend on, or a set of names, which is a
  mutable object and therefore an address.
\<close>

datatype val = NoneV | Str string | Flag bool | Ops "(val \<times> string option) list" | SetRef nat

text \<open>\<open>VariableParse\<close>; the flag \<open>removes\<close> is set only when words were to be removed.\<close>

record vparse =
  vp_value :: val
  vp_unexpanded :: val
  vp_refs :: "string list"
  vp_contains :: "string list"
  vp_removes :: "val list option"

definition new_parse :: "val \<Rightarrow> vparse" where
  "new_parse v = \<lparr>vp_value = v, vp_unexpanded = v, vp_refs = [], vp_contains = [], vp_removes = None\<rparr>"

text \<open>
  Compiling Python code and finding the variables it refers to, directly and in calls of \<open>contains\<close>,
  and evaluating it.  A syntax error that expansion tolerates is \<open>UnterminatedString\<close>.
\<close>

record 's pycode =
  compile_code :: "string \<Rightarrow> (string list \<times> string list) result"
  eval_code :: "string \<Rightarrow> 's \<Rightarrow> string result"

section \<open>Substitution\<close>

definition sub_piece ::
  "(string \<Rightarrow> 't \<Rightarrow> string result \<times> 't) \<Rightarrow> piece \<Rightarrow> string \<times> 't \<Rightarrow> unit result \<times> string \<times> 't"
where
  "sub_piece f p q =
     (case q of (out, t) \<Rightarrow>
        (case p of
           Plain c \<Rightarrow> (Inr (), out @ [c], t)
         | Match g \<Rightarrow> (case f g t of (Inl e, t1) \<Rightarrow> (Inl e, out, t1) | (Inr x, t1) \<Rightarrow> (Inr (), out @ x, t1))))"

definition re_sub :: "(string \<Rightarrow> 't \<Rightarrow> string result \<times> 't) \<Rightarrow> piece list \<Rightarrow> 't \<Rightarrow> string result \<times> 't" where
  "re_sub f ps t =
     (case foreach (sub_piece f) ps ([], t) of
        (Inl e, out, t1) \<Rightarrow> (Inl e, t1)
      | (Inr _, out, t1) \<Rightarrow> (Inr out, t1))"

type_synonym 's getter = "string \<Rightarrow> string \<Rightarrow> 's \<Rightarrow> val result \<times> 's"

definition var_sub :: "'s getter \<Rightarrow> string option \<Rightarrow> string \<Rightarrow> vparse \<times> 's \<Rightarrow> string result \<times> vparse \<times> 's" where
  "var_sub get varname key q =
     (case q of (vp, s) \<Rightarrow>
        if key \<noteq> [] \<and> varname = Some key then (Inl SelfReference, vp, s)
        else
          (case get key ''_content'' s of
             (Inl e, s1) \<Rightarrow> (Inl e, vp, s1)
           | (Inr v, s1) \<Rightarrow>
               ((case v of
                   NoneV \<Rightarrow> Inr (''${'' @ key @ ''}'')
                 | Str x \<Rightarrow> Inr x
                 | _ \<Rightarrow> Inl TypeError),
                vp\<lparr>vp_refs := append_new key (vp_refs vp)\<rparr>, s1)))"

definition python_sub ::
  "'s pycode \<Rightarrow> 's getter \<Rightarrow> string option \<Rightarrow> string \<Rightarrow> vparse \<times> 's \<Rightarrow> string result \<times> vparse \<times> 's"
where
  "python_sub P get varname src q =
     (case q of (vp, s) \<Rightarrow>
        if list_ex (\<lambda>p. case p of Match _ \<Rightarrow> True | Plain _ \<Rightarrow> False) (var_pieces src)
        then (Inr (''${@'' @ src @ ''}''), vp, s)
        else
          (case compile_code P src of
             Inl e \<Rightarrow> (Inl e, vp, s)
           | Inr (rs, cs) \<Rightarrow>
               (case (case varname of Some (a # v) \<Rightarrow> get (a # v) ''vardeps'' s | _ \<Rightarrow> (Inr NoneV, s)) of
                  (Inl e, s1) \<Rightarrow> (Inl e, vp, s1)
                | (Inr _, s1) \<Rightarrow>
                    (eval_code P src s1,
                     vp\<lparr>vp_refs := fold append_new rs (vp_refs vp), vp_contains := fold append_new cs (vp_contains vp)\<rparr>,
                     s1))))"

text \<open>
  \<open>expandWithRefs\<close>.  Whatever goes wrong becomes an \<open>ExpansionError\<close>, but for the exceptions that stop
  the parsing of a recipe or the program.  Values that refer to code that yields new references can
  be expanded for ever, so the loop has fuel.
\<close>

definition wrap_exc :: "py_exc \<Rightarrow> py_exc" where
  "wrap_exc e = (if e = SkipRecipe \<or> e = Fatal \<or> e = OutOfFuel then e else ExpansionError)"

primrec expand_loop ::
  "nat \<Rightarrow> 's pycode \<Rightarrow> 's getter \<Rightarrow> string option \<Rightarrow> string \<Rightarrow> vparse \<times> 's \<Rightarrow> string result \<times> vparse \<times> 's"
where
  "expand_loop 0 P get varname src q = (Inl OutOfFuel, q)"
| "expand_loop (Suc k) P get varname src q =
     (if \<not> has_dollar src then (Inr src, q)
      else (case re_sub (var_sub get varname) (var_pieces src) q of
              (Inl e, q1) \<Rightarrow> (Inl (wrap_exc e), q1)
            | (Inr t1, q1) \<Rightarrow>
                (case re_sub (python_sub P get varname) (py_pieces t1) q1 of
                   (Inl e, q2) \<Rightarrow>
                     if e \<noteq> UnterminatedString then (Inl (wrap_exc e), q2)
                     else if t1 = src then (Inr t1, q2) else expand_loop k P get varname t1 q2
                 | (Inr t2, q2) \<Rightarrow>
                     if t2 = src then (Inr t2, q2) else expand_loop k P get varname t2 q2)))"

definition expand_with_refs ::
  "nat \<Rightarrow> 's pycode \<Rightarrow> 's getter \<Rightarrow> val \<Rightarrow> string option \<Rightarrow> 's \<Rightarrow> vparse result \<times> 's"
where
  "expand_with_refs k P get v varname s =
     (case v of
        Str src \<Rightarrow>
          (case expand_loop k P get varname src (new_parse v, s) of
             (Inl e, _, s1) \<Rightarrow> (Inl e, s1)
           | (Inr t, vp, s1) \<Rightarrow> (Inr (vp\<lparr>vp_value := Str t\<rparr>), s1))
      | _ \<Rightarrow> (Inr (new_parse v), s))"

section \<open>What a substitution keeps\<close>

context frame
begin

lemma re_sub:
  assumes f: "\<And>g vp t. R t (snd (snd (f g (vp, t))))"
  shows "R s (snd (snd (re_sub f ps (vp, s))))"
proof -
  have one: "R (snd (snd q)) (snd (snd (snd (sub_piece f p q))))" for p q
  proof -
    obtain out vp t where q: "q = (out, vp, t)" by (cases q) auto
    show ?thesis
    proof (cases p)
      case (Match g)
      obtain r vp1 t1 where g: "f g (vp, t) = (r, vp1, t1)" by (metis prod.exhaust)
      then have "R t t1" using f [of t g vp] by simp
      then show ?thesis using g by (cases r) (simp_all add: sub_piece_def q Match)
    qed (simp add: sub_piece_def q same)
  qed
  have "R (snd (snd q)) (snd (snd (snd (foreach (sub_piece f) ps q))))" for q
    by (rule foreach_rel [where R = "\<lambda>a b. R (snd (snd a)) (snd (snd b))"]) (auto intro: same trans one)
  from this [of "([], vp, s)"] show ?thesis by (auto simp: re_sub_def split: prod.splits sum.splits)
qed

lemma var_sub:
  assumes get: "\<And>x f t. R t (snd (get x f t))"
  shows "R s (snd (snd (var_sub get varname key (vp, s))))"
  using get [of s key "''_content''"] by (auto simp: var_sub_def same split: prod.splits sum.splits)

lemma python_sub:
  assumes get: "\<And>x f t. R t (snd (get x f t))"
  shows "R s (snd (snd (python_sub P get varname src (vp, s))))"
proof -
  have "R s (snd (case varname of Some (a # v) \<Rightarrow> get (a # v) ''vardeps'' s | _ \<Rightarrow> (Inr NoneV, s)))"
    by (auto simp: get same split: option.splits list.splits)
  then show ?thesis by (auto simp: python_sub_def same split: prod.splits sum.splits)
qed

lemma expand_loop:
  assumes get: "\<And>x f t. R t (snd (get x f t))"
  shows "R s (snd (snd (expand_loop k P get varname src (vp, s))))"
proof (induction k arbitrary: src vp s)
  case (Suc k)
  let ?v = "re_sub (var_sub get varname) (var_pieces src) (vp, s)"
  obtain r1 vp1 s1 where v: "?v = (r1, vp1, s1)" by (metis prod.exhaust)
  have s1: "R s s1" using re_sub [of "var_sub get varname" s "var_pieces src" vp] var_sub [OF get] v by simp
  show ?case
  proof (cases "has_dollar src \<and> (\<exists>t1. r1 = Inr t1)")
    case True
    then obtain t1 where t1: "r1 = Inr t1" "has_dollar src" by blast
    obtain r2 vp2 s2 where p: "re_sub (python_sub P get varname) (py_pieces t1) (vp1, s1) = (r2, vp2, s2)"
      by (metis prod.exhaust)
    have "R s1 s2"
      using re_sub [of "python_sub P get varname" s1 "py_pieces t1" vp1] python_sub [OF get] p by simp
    then have s2: "R s s2" using s1 trans by blast
    then have "R s (snd (snd (expand_loop k P get varname t (vp2, s2))))" for t
      using Suc.IH trans by blast
    then show ?thesis using s2 t1 v p by (cases r2) simp_all
  qed (use s1 v in \<open>cases r1; auto simp: same\<close>)
qed (simp add: same)

lemma expand_with_refs:
  assumes get: "\<And>x f t. R t (snd (get x f t))"
  shows "R s (snd (expand_with_refs k P get v varname s))"
proof (cases v)
  case (Str src)
  obtain r vp t where e: "expand_loop k P get varname src (new_parse v, s) = (r, vp, t)" by (metis prod.exhaust)
  have "R s t" using expand_loop [where get = get and s = s and k = k and P = P and varname = varname and src = src
      and vp = "new_parse v"] get e by simp
  then show ?thesis using e Str by (cases r) (simp_all add: expand_with_refs_def)
qed (simp_all add: expand_with_refs_def same)

end

end
