(* ===== verification/Datastore.thy ===== *)
theory Datastore
  imports Expand
begin

text \<open>
  The datastore of variables, \<open>DataSmart\<close> of \<open>poky/bitbake/lib/bb/data_smart.py\<close>.  A variable is a dict
  of flags; \<open>_content\<close> is its value, the flags \<open>:append\<close>, \<open>:prepend\<close> and \<open>:remove\<close> list the operations
  to apply to it.  A copy has an empty dict of its own that refers to the dict it is a copy of; all
  reads go up this chain.  \<open>overridedata\<close> knows for a variable \<open>A\<close> the variables \<open>A:b\<close> that override it.

  The dicts of a datastore and of all its copies are the layers of a \<open>dstore\<close>, \<open>me\<close> is the one of the
  object itself; they share the set of renamed variables and the mutable sets, which are cells.  The
  other fields belong to the object.  The history of variables, which only serves messages, is not
  modelled.  The depth of the recursion that Python allows is a parameter, and the code in values reads
  the datastore but does not change it.
\<close>

section \<open>State\<close>

type_synonym flags = "(string \<times> val) list"

record layer =
  entries :: "(string \<times> flags) list"
  up :: "nat option"

record dstore =
  layers :: "layer list"
  cells :: "string list list"
  renamed :: "string list"
  me :: nat
  overridedata :: "(string \<times> (string \<times> string) list) list"
  overrides :: "string list option"
  overridesset :: "string list option"
  overridevars :: "string list"
  inoverride :: bool
  expand_cache :: "(string \<times> vparse) list"

definition bitbake_renamed_vars :: "string list" where
  "bitbake_renamed_vars =
     [''BB_ENV_WHITELIST'', ''BB_ENV_EXTRAWHITE'', ''BB_HASHBASE_WHITELIST'', ''BB_HASHCONFIG_WHITELIST'',
      ''BB_HASHTASK_WHITELIST'', ''BB_SETSCENE_ENFORCE_WHITELIST'', ''MULTI_PROVIDER_WHITELIST'',
      ''BB_STAMP_WHITELIST'', ''BB_STAMP_POLICY'']"

definition new_dstore :: dstore where
  "new_dstore =
     \<lparr>layers = [\<lparr>entries = [], up = None\<rparr>], cells = [], renamed = bitbake_renamed_vars, me = 0, overridedata = [],
      overrides = None, overridesset = None, overridevars = [''OVERRIDES'', ''FILE''], inoverride = False,
      expand_cache = []\<rparr>"

definition own :: "dstore \<Rightarrow> (string \<times> flags) list" where
  "own d = entries (layers d ! me d)"

definition set_own :: "(string \<times> flags) list \<Rightarrow> dstore \<Rightarrow> dstore" where
  "set_own es d = d\<lparr>layers := (layers d)[me d := (layers d ! me d)\<lparr>entries := es\<rparr>]\<rparr>"

definition cell :: "dstore \<Rightarrow> nat \<Rightarrow> string list" where
  "cell d a = (if a < length (cells d) then cells d ! a else [])"

definition truthy :: "dstore \<Rightarrow> val \<Rightarrow> bool" where
  "truthy d v =
     (case v of NoneV \<Rightarrow> False | Str s \<Rightarrow> s \<noteq> [] | Flag b \<Rightarrow> b | Ops l \<Rightarrow> l \<noteq> [] | SetRef a \<Rightarrow> cell d a \<noteq> [])"

text \<open>\<open>copy.copy\<close>: a set is copied to a new cell, lists are only ever replaced.\<close>

definition copy_val :: "val \<Rightarrow> dstore \<Rightarrow> val \<times> dstore" where
  "copy_val v d =
     (case v of SetRef a \<Rightarrow> (SetRef (length (cells d)), d\<lparr>cells := cells d @ [cell d a]\<rparr>) | _ \<Rightarrow> (v, d))"

text \<open>\<open>_findVar\<close>.  A layer refers to an older one, because a copy is made of an object that exists.\<close>

function find_in :: "layer list \<Rightarrow> nat \<Rightarrow> string \<Rightarrow> flags option" where
  "find_in L i var =
     (if i < length L
      then case dget (entries (L ! i)) var of
             Some fl \<Rightarrow> Some fl
           | None \<Rightarrow> (case up (L ! i) of Some p \<Rightarrow> if p < i then find_in L p var else None | None \<Rightarrow> None)
      else None)"
  by pat_completeness auto
termination
  by (relation "measure (\<lambda>(_, i, _). i)") auto

declare find_in.simps [simp del]

definition find_var :: "dstore \<Rightarrow> string \<Rightarrow> flags option" where
  "find_var d var = find_in (layers d) (me d) var"

section \<open>Overrides\<close>

text \<open>\<open>s.replace(old, new)\<close>.\<close>

function str_replace :: "string \<Rightarrow> string \<Rightarrow> string \<Rightarrow> string" where
  "str_replace old new s =
     (if old = [] then new @ concat (map (\<lambda>c. c # new) s)
      else case s of
             [] \<Rightarrow> []
           | c # cs \<Rightarrow> if prefix old s then new @ str_replace old new (drop (length old) s)
                       else c # str_replace old new cs)"
  by pat_completeness auto
termination
  by (relation "measure (\<lambda>(_, _, s). length s)") (auto simp: prefix_def)

declare str_replace.simps [simp del]

definition is_active :: "string list \<Rightarrow> string \<Rightarrow> bool" where
  "is_active oss ov \<longleftrightarrow> ov \<in> set oss \<or> (CHR '':'' \<in> set ov \<and> set (split_on (CHR '':'') ov) \<subseteq> set oss)"

definition active_overrides :: "string list \<Rightarrow> (string \<times> string) list \<Rightarrow> (string \<times> string) list" where
  "active_overrides oss l = fold (\<lambda>(r, ov) a. if is_active oss ov then dset ov r a else a) l []"

text \<open>
  One candidate against one override: the override is taken off the end of a longer list of
  overrides, or it is the whole list and the candidate is the best one so far.
\<close>

type_synonym candidates = "(string \<times> string) list \<times> string option \<times> bool"

definition resolve_key :: "string \<Rightarrow> string \<Rightarrow> candidates \<Rightarrow> candidates" where
  "resolve_key ov a p =
     (case p of (active, best, changed) \<Rightarrow>
        (case dget active a of
           None \<Rightarrow> p
         | Some t \<Rightarrow>
             if suffix (CHR '':'' # ov) a
             then (dset (str_replace (CHR '':'' # ov) [] a) t (ddel a active), best, True)
             else if a = ov then (ddel a active, Some t, changed) else p))"

definition resolve_pass :: "string list \<Rightarrow> candidates \<Rightarrow> candidates" where
  "resolve_pass os p = fold (\<lambda>ov q. fold (resolve_key ov) (dkeys (fst q)) q) os p"

lemma str_replace_shorter:
  "length (str_replace old [] s) \<le> length s"
  "old \<noteq> [] \<Longrightarrow> suffix old s \<Longrightarrow> length (str_replace old [] s) < length s"
proof -
  show len: "length (str_replace old [] s) \<le> length s" for s
  proof (induction s rule: length_induct)
    case (1 s)
    have id: "concat (map (\<lambda>c. [c]) s) = s" by (induction s) auto
    show ?case
    proof (cases s)
      case (Cons c cs)
      have "length (str_replace old [] (drop (length old) s)) \<le> length (drop (length old) s)" if "old \<noteq> []"
        using "1.IH" [rule_format, of "drop (length old) s"] Cons that by (cases old) auto
      moreover have "length (str_replace old [] cs) \<le> length cs" using "1.IH" Cons by simp
      ultimately show ?thesis using id Cons by (auto simp: str_replace.simps [of old "[]" "c # cs"])
    qed (simp add: str_replace.simps)
  qed
  show "length (str_replace old [] s) < length s" if old: "old \<noteq> []" and suf: "suffix old s"
    using suf
  proof (induction s)
    case (Cons c cs)
    show ?case
    proof (cases "prefix old (c # cs)")
      case True
      have "length (drop (length old) (c # cs)) < length (c # cs)" using old by (cases old) auto
      then show ?thesis using len [of "drop (length old) (c # cs)"] old True
        by (simp add: str_replace.simps [of old "[]" "c # cs"] del: length_drop)
    next
      case False
      then have "suffix old cs" using Cons.prems by (auto simp: suffix_Cons)
      then show ?thesis using Cons.IH old False by (simp add: str_replace.simps [of old "[]" "c # cs"])
    qed
  qed (use old in simp)
qed

definition weight_of :: "(string \<times> string) list \<Rightarrow> nat" where
  "weight_of al = sum_list (map (\<lambda>(k, _). length k) al)"

lemma weight_dset: "weight_of (dset k t al) \<le> length k + weight_of al"
  by (induction al) (auto simp: weight_of_def)

lemma weight_ddel: "dget al k = Some t \<Longrightarrow> weight_of (ddel k al) + length k \<le> weight_of al"
proof (induction al)
  case (Cons p al)
  have "weight_of (ddel k al) \<le> weight_of al" by (induction al) (auto simp: weight_of_def)
  then show ?case using Cons by (cases p) (auto simp: weight_of_def split: if_splits)
qed simp

lemma resolve_key_weight:
  "weight_of (fst (resolve_key ov a p)) + (if snd (snd (resolve_key ov a p)) \<and> \<not> snd (snd p) then 1 else 0)
     \<le> weight_of (fst p)"
proof -
  obtain active best ch where p: "p = (active, best, ch)" by (cases p) auto
  show ?thesis
  proof (cases "dget active a")
    case (Some t)
    show ?thesis
    proof (cases "suffix (CHR '':'' # ov) a")
      case True
      then show ?thesis
        using str_replace_shorter(2) [of "CHR '':'' # ov" a] weight_ddel [OF Some]
          weight_dset [of "str_replace (CHR '':'' # ov) [] a" t "ddel a active"]
        by (simp add: resolve_key_def p Some)
    qed (use weight_ddel [OF Some] in \<open>auto simp: resolve_key_def p Some\<close>)
  qed (simp add: resolve_key_def p)
qed

lemma resolve_keys_weight:
  "weight_of (fst (fold (resolve_key ov) ks p)) + (if snd (snd (fold (resolve_key ov) ks p)) \<and> \<not> snd (snd p) then 1 else 0)
     \<le> weight_of (fst p)"
proof (induction ks arbitrary: p)
  case (Cons k ks)
  show ?case using Cons.IH [of "resolve_key ov k p"] resolve_key_weight [of ov k p] by (auto split: if_splits)
qed simp

lemma resolve_pass_weight:
  "weight_of (fst (resolve_pass os p)) + (if snd (snd (resolve_pass os p)) \<and> \<not> snd (snd p) then 1 else 0)
     \<le> weight_of (fst p)"
  unfolding resolve_pass_def
proof (induction os arbitrary: p)
  case (Cons ov os)
  let ?q = "fold (resolve_key ov) (dkeys (fst p)) p"
  show ?case using Cons.IH [of ?q] resolve_keys_weight [of ov "dkeys (fst p)" p] by (auto split: if_splits)
qed simp

function resolve :: "string list \<Rightarrow> (string \<times> string) list \<Rightarrow> string option \<Rightarrow> string option" where
  "resolve os active best =
     (case resolve_pass os (active, best, False) of
        (active1, best1, changed) \<Rightarrow> if changed then resolve os active1 best1 else best1)"
  by pat_completeness auto
termination
proof (relation "measure (\<lambda>(_, active, _). weight_of active)", goal_cases)
  case (2 os active best)
  then show ?case using resolve_pass_weight [of os "(active, best, False)"]
    by (cases "resolve_pass os (active, best, False)") auto
qed simp

declare resolve.simps [simp del]

section \<open>Reading\<close>

text \<open>
  The methods that read call each other through \<open>getVarFlag\<close>: expansion reads the variables it
  refers to, an override is a variable, and the list of overrides is the value of one.  The pieces of
  \<open>getVarFlag\<close> take the reader for these calls; its flags are \<open>expand\<close>, \<open>noweakdefault\<close>, \<open>parsing\<close>
  and \<open>retparser\<close>.  The parser is returned when \<open>retparser\<close> is set.
\<close>

type_synonym reader =
  "string \<Rightarrow> string \<Rightarrow> bool \<Rightarrow> bool \<Rightarrow> bool \<Rightarrow> bool \<Rightarrow> dstore \<Rightarrow> (val \<times> vparse option) result \<times> dstore"

definition expanded :: "reader \<Rightarrow> dstore getter" where
  "expanded rd var flag d = bind_st (rd var flag True False False False d) (\<lambda>(v, _) d1. (Inr v, d1))"

text \<open>\<open>need_overrides\<close>: \<open>OVERRIDES\<close> may depend on overrides, so it is read until it does not change.\<close>

definition read_overrides :: "reader \<Rightarrow> dstore \<Rightarrow> string list result \<times> dstore" where
  "read_overrides rd d =
     bind_st (expanded rd ''OVERRIDES'' ''_content'' d) (\<lambda>v d1.
       (case (if truthy d1 v then v else Str []) of
          Str s \<Rightarrow> Inr (split_on (CHR '':'') s)
        | _ \<Rightarrow> Inl AttributeError, d1))"

primrec settle_overrides :: "nat \<Rightarrow> reader \<Rightarrow> dstore \<Rightarrow> unit result \<times> dstore" where
  "settle_overrides 0 rd d = (Inl Fatal, d)"
| "settle_overrides (Suc k) rd d =
     bind_st (read_overrides rd (d\<lparr>inoverride := True, overrides := Some [], overridesset := Some []\<rparr>)) (\<lambda>os d1.
     bind_st (read_overrides rd (d1\<lparr>overrides := Some os, overridesset := Some os, inoverride := False,
                expand_cache := []\<rparr>)) (\<lambda>newos d2.
       if newos = os then (Inr (), d2)
       else settle_overrides k rd (d2\<lparr>overrides := Some newos, overridesset := Some newos\<rparr>)))"

definition need_overrides :: "reader \<Rightarrow> dstore \<Rightarrow> unit result \<times> dstore" where
  "need_overrides rd d =
     (if overrides d \<noteq> None \<or> inoverride d then (Inr (), d) else settle_overrides 5 rd d)"

text \<open>The value of the best override, with the words it removes and its name.\<close>

definition best_override :: "dstore \<Rightarrow> (string \<times> string) list \<Rightarrow> string option result" where
  "best_override d l =
     (case (overridesset d, overrides d) of
        (oss, os) \<Rightarrow>
          if l \<noteq> [] \<and> oss = None then Inl AttributeError
          else case os of
                 None \<Rightarrow> Inl TypeError
               | Some ovs \<Rightarrow>
                   (case resolve ovs (active_overrides (case oss of None \<Rightarrow> [] | Some x \<Rightarrow> x) l) None of
                      Some (c # r) \<Rightarrow> Inr (Some (c # r))
                    | _ \<Rightarrow> Inr None))"

definition override_value ::
  "reader \<Rightarrow> string \<Rightarrow> dstore \<Rightarrow> (val \<times> val list \<times> string option) result \<times> dstore"
where
  "override_value rd var d =
     (case dget (overridedata d) var of
        None \<Rightarrow> (Inr (NoneV, [], None), d)
      | Some l \<Rightarrow>
          seq_st (need_overrides rd d) (\<lambda>d1.
            case best_override d1 l of
              Inl e \<Rightarrow> (Inl e, d1)
            | Inr None \<Rightarrow> (Inr (NoneV, [], None), d1)
            | Inr (Some r) \<Rightarrow>
                bind_st (rd r ''_content'' False False False True d1) (\<lambda>(v, sub) d2.
                  (Inr (case Option.bind sub vp_removes of
                          None \<Rightarrow> (v, [], None) | Some rs \<Rightarrow> (v, rs, Some r)), d2))))"

text \<open>The value of the variable itself or its weak default.\<close>

definition own_value :: "flags option \<Rightarrow> string \<Rightarrow> bool \<Rightarrow> val \<Rightarrow> dstore \<Rightarrow> val \<times> dstore" where
  "own_value loc flag noweak v d =
     (case loc of
        None \<Rightarrow> (v, d)
      | Some fl \<Rightarrow>
          if v \<noteq> NoneV then (v, d)
          else case dget fl flag of
                 Some x \<Rightarrow> copy_val x d
               | None \<Rightarrow>
                   if flag = ''_content'' \<and> \<not> noweak
                   then (case dget fl ''_defaultval'' of Some x \<Rightarrow> copy_val x d | None \<Rightarrow> (v, d))
                   else (v, d))"

text \<open>Operations apply when all overrides they name are set.\<close>

definition op_matches :: "string list option \<Rightarrow> string option \<Rightarrow> bool result" where
  "op_matches os ov =
     (case ov of
        None \<Rightarrow> Inr True
      | Some [] \<Rightarrow> Inr True
      | Some (c # cs) \<Rightarrow>
          (case os of None \<Rightarrow> Inl TypeError | Some ovs \<Rightarrow> Inr (set (split_on (CHR '':'') (c # cs)) \<subseteq> set ovs)))"

definition add_val :: "val \<Rightarrow> val \<Rightarrow> val result" where
  "add_val v w =
     (case (v, w) of
        (Str a, Str b) \<Rightarrow> Inr (Str (a @ b))
      | (Ops a, Ops b) \<Rightarrow> Inr (Ops (a @ b))
      | _ \<Rightarrow> Inl TypeError)"

definition ops_of :: "val \<Rightarrow> (val \<times> string option) list result" where
  "ops_of v = (case v of Ops l \<Rightarrow> Inr l | Str [] \<Rightarrow> Inr [] | Str _ \<Rightarrow> Inl ValueError | _ \<Rightarrow> Inl TypeError)"

fun fold_ops ::
  "(val \<Rightarrow> val \<Rightarrow> val result) \<Rightarrow> string list option \<Rightarrow> (val \<times> string option) list \<Rightarrow> val \<Rightarrow> val result"
where
  "fold_ops f os [] v = Inr v"
| "fold_ops f os ((r, ov) # l) v =
     bind_res (op_matches os ov) (\<lambda>m.
       if m then bind_res (f (if v = NoneV then Str [] else v) r) (fold_ops f os l) else fold_ops f os l v)"

definition with_ops ::
  "reader \<Rightarrow> flags option \<Rightarrow> string \<Rightarrow> (val \<Rightarrow> val \<Rightarrow> val result) \<Rightarrow> val \<Rightarrow> dstore \<Rightarrow> val result \<times> dstore"
where
  "with_ops rd loc op f v d =
     (case Option.bind loc (\<lambda>fl. dget fl op) of
        None \<Rightarrow> (Inr v, d)
      | Some l \<Rightarrow>
          seq_st (need_overrides rd d) (\<lambda>d1.
            (bind_res (ops_of l) (\<lambda>ops. fold_ops f (overrides d1) ops v), d1)))"

definition hashable :: "val \<Rightarrow> bool" where
  "hashable v \<longleftrightarrow> (case v of Ops _ \<Rightarrow> False | SetRef _ \<Rightarrow> False | _ \<Rightarrow> True)"

fun active_removes :: "string list option \<Rightarrow> (val \<times> string option) list \<Rightarrow> val list \<Rightarrow> val list result" where
  "active_removes os [] rs = Inr rs"
| "active_removes os ((r, ov) # l) rs =
     bind_res (op_matches os ov) (\<lambda>m.
       if \<not> m then active_removes os l rs
       else if hashable r then active_removes os l (append_new r rs) else Inl TypeError)"

text \<open>
  The words to remove.  The set that came with an override is the one in the cached parser of that
  variable, so new words are put into it there, too.
\<close>

definition gather_removes ::
  "reader \<Rightarrow> flags option \<Rightarrow> string option \<Rightarrow> val list \<Rightarrow> dstore \<Rightarrow> val list result \<times> dstore"
where
  "gather_removes rd loc owner rs d =
     (case Option.bind loc (\<lambda>fl. dget fl '':remove'') of
        None \<Rightarrow> (Inr rs, d)
      | Some l \<Rightarrow>
          seq_st (need_overrides rd d) (\<lambda>d1.
            case bind_res (ops_of l) (\<lambda>ops. active_removes (overrides d1) ops rs) of
              Inl e \<Rightarrow> (Inl e, d1)
            | Inr rs1 \<Rightarrow>
                (Inr rs1,
                 case Option.bind owner (\<lambda>r. map_option (Pair r) (dget (expand_cache d1) r)) of
                   None \<Rightarrow> d1
                 | Some (r, vp) \<Rightarrow>
                     d1\<lparr>expand_cache := dset r (vp\<lparr>vp_removes := Some rs1\<rparr>) (expand_cache d1)\<rparr>)))"

text \<open>\<open>re.split(r'(\s)', s)\<close> keeps the single spaces between the words.\<close>

fun ws_split :: "string \<Rightarrow> string list" where
  "ws_split [] = [[]]"
| "ws_split (c # cs) =
     (if is_space c then [] # [c] # ws_split cs
      else (case ws_split cs of [] \<Rightarrow> [[c]] | w # ws \<Rightarrow> (c # w) # ws))"

fun expand_removes ::
  "nat \<Rightarrow> dstore pycode \<Rightarrow> reader \<Rightarrow> val list \<Rightarrow> dstore \<Rightarrow> (val \<times> string list) list result \<times> dstore"
where
  "expand_removes k P rd [] d = (Inr [], d)"
| "expand_removes k P rd (r # rs) d =
     bind_st (expand_with_refs k P (expanded rd) r None d) (\<lambda>vp d1.
       case vp_value vp of
         Str t \<Rightarrow> bind_st (expand_removes k P rd rs d1) (\<lambda>ws d2. (Inr ((r, split_ws t) # ws), d2))
       | _ \<Rightarrow> (Inl AttributeError, d1))"

definition remove_words :: "(val \<times> string list) list \<Rightarrow> vparse \<Rightarrow> vparse result" where
  "remove_words ws vp =
     (case vp_value vp of
        Str t \<Rightarrow>
          (let ts = ws_split t;
               hit = (\<lambda>v (r, words). v \<in> set words)
           in Inr (vp\<lparr>vp_removes := Some (map fst (filter (\<lambda>rw. list_ex (\<lambda>v. hit v rw) ts) ws)),
                vp_value := Str (concat (filter (\<lambda>v. \<not> list_ex (hit v) ws) ts))\<rparr>))
      | _ \<Rightarrow> Inl TypeError)"

definition apply_removes ::
  "nat \<Rightarrow> dstore pycode \<Rightarrow> reader \<Rightarrow> val list \<Rightarrow> vparse option \<Rightarrow> dstore \<Rightarrow> vparse option result \<times> dstore"
where
  "apply_removes k P rd rs parser d =
     (case parser of
        None \<Rightarrow> (Inr None, d)
      | Some vp \<Rightarrow>
          if rs = [] then (Inr (Some vp), d)
          else bind_st (expand_removes k P rd rs d) (\<lambda>ws d1. (bind_res (remove_words ws vp) (\<lambda>vp1. Inr (Some vp1)), d1)))"

definition cache_name :: "string \<Rightarrow> string \<Rightarrow> string" where
  "cache_name var flag = (if flag = ''_content'' then var else var @ ''['' @ flag @ '']'')"

text \<open>The steps of \<open>getVarFlag\<close> that find the value, before expansion.\<close>

definition raw_value ::
  "reader \<Rightarrow> string \<Rightarrow> string \<Rightarrow> bool \<Rightarrow> bool \<Rightarrow> dstore \<Rightarrow> (val \<times> val list \<times> string option) result \<times> dstore"
where
  "raw_value rd var flag noweak parsing d =
     (let loc = find_var d var;
          full = (flag = ''_content'' \<and> \<not> parsing)
      in bind_st (if full then override_value rd var d else (Inr (NoneV, [], None), d)) (\<lambda>(v, rs, owner) d1.
         (case own_value loc flag noweak v d1 of
            (v1, d2) \<Rightarrow>
              bind_st (if full then with_ops rd loc '':append'' add_val v1 d2 else (Inr v1, d2)) (\<lambda>v2 d3.
              bind_st (if full then with_ops rd loc '':prepend'' (\<lambda>v r. add_val r v) v2 d3 else (Inr v2, d3)) (\<lambda>v3 d4.
                (Inr (v3, rs, owner), d4))))))"

definition finish_value ::
  "nat \<Rightarrow> dstore pycode \<Rightarrow> reader \<Rightarrow> string \<Rightarrow> string \<Rightarrow> bool \<Rightarrow> bool \<Rightarrow> bool \<Rightarrow> val \<times> val list \<times> string option \<Rightarrow>
     dstore \<Rightarrow> (val \<times> vparse option) result \<times> dstore"
where
  "finish_value k P rd var flag expand parsing retparser q d =
     (case q of (v, rs, owner) \<Rightarrow>
        let full = (flag = ''_content'' \<and> \<not> parsing) in
        bind_st (if expand \<or> retparser
                 then bind_st (expand_with_refs k P (expanded rd) v (Some (cache_name var flag)) d)
                        (\<lambda>vp d1. (Inr (Some vp), d1))
                 else (Inr None, d)) (\<lambda>parser d1.
          let v1 = (case parser of Some vp \<Rightarrow> if expand then vp_value vp else v | None \<Rightarrow> v)
          in bind_st (if truthy d1 v1 \<and> full then gather_removes rd (find_var d1 var) owner rs d1 else (Inr rs, d1)) (\<lambda>rs1 d2.
             bind_st (if truthy d1 v1 \<and> full then apply_removes k P rd rs1 parser d2 else (Inr parser, d2)) (\<lambda>parser1 d3.
               (Inr (case parser1 of Some vp \<Rightarrow> if expand then vp_value vp else v1 | None \<Rightarrow> v1,
                     if retparser then parser1 else None),
                (case parser1 of
                   Some vp \<Rightarrow> d3\<lparr>expand_cache := dset (cache_name var flag) vp (expand_cache d3)\<rparr>
                 | None \<Rightarrow> d3))))))"

definition flag_body :: "nat \<Rightarrow> dstore pycode \<Rightarrow> reader \<Rightarrow> reader" where
  "flag_body k P rd var flag expand noweak parsing retparser d =
     (if flag = [] then (Inr (NoneV, None), d)
      else
        (let compute = bind_st (raw_value rd var flag noweak parsing d)
               (finish_value k P rd var flag expand parsing retparser)
         in case dget (expand_cache d) (cache_name var flag) of
              None \<Rightarrow> compute
            | Some vp \<Rightarrow>
                if \<not> expand \<and> retparser then (Inr (vp_unexpanded vp, Some vp), d)
                else if expand then (Inr (vp_value vp, None), d)
                else compute))"

text \<open>\<open>getVarFlag\<close> with the depth of calls it may use.\<close>

primrec getVarFlag :: "nat \<Rightarrow> nat \<Rightarrow> dstore pycode \<Rightarrow> reader" where
  "getVarFlag 0 k P var flag expand noweak parsing retparser d = (Inl RecursionError, d)"
| "getVarFlag (Suc n) k P var flag expand noweak parsing retparser d =
     flag_body k P (getVarFlag n k P) var flag expand noweak parsing retparser d"

definition getVar :: "nat \<Rightarrow> nat \<Rightarrow> dstore pycode \<Rightarrow> string \<Rightarrow> bool \<Rightarrow> bool \<Rightarrow> bool \<Rightarrow> dstore \<Rightarrow> val result \<times> dstore" where
  "getVar n k P var expand noweak parsing d =
     bind_st (getVarFlag n k P var ''_content'' expand noweak parsing False d) (\<lambda>(v, _) d1. (Inr v, d1))"

definition read_flag :: "nat \<Rightarrow> nat \<Rightarrow> dstore pycode \<Rightarrow> string \<Rightarrow> string \<Rightarrow> dstore \<Rightarrow> val result \<times> dstore" where
  "read_flag n k P var flag d =
     bind_st (getVarFlag n k P var flag False False False False d) (\<lambda>(v, _) d1. (Inr v, d1))"

section \<open>Writing\<close>

definition init_var :: "string \<Rightarrow> dstore \<Rightarrow> dstore" where
  "init_var var d =
     (let d1 = d\<lparr>expand_cache := []\<rparr>
      in if var \<in> set (dkeys (own d1)) then d1 else set_own (dset var [] (own d1)) d1)"

text \<open>\<open>_makeShadowCopy\<close>: the flags of an older layer are copied before they are changed.\<close>

definition shadow_copy :: "string \<Rightarrow> dstore \<Rightarrow> dstore" where
  "shadow_copy var d =
     (if var \<in> set (dkeys (own d)) then d
      else case find_var d var of
             Some (f # fl) \<Rightarrow> set_own (dset var (f # fl) (own d)) d
           | _ \<Rightarrow> init_var var d)"

definition hasOverrides :: "string \<Rightarrow> dstore \<Rightarrow> bool" where
  "hasOverrides var d \<longleftrightarrow> var \<in> set (dkeys (overridedata d))"

text \<open>The flags of a variable of the own layer.\<close>

definition put_flag :: "string \<Rightarrow> string \<Rightarrow> val \<Rightarrow> dstore \<Rightarrow> unit result \<times> dstore" where
  "put_flag var flag v d = with_key (own d) var d (\<lambda>fl. (Inr (), set_own (dset var (dset flag v fl) (own d)) d))"

definition drop_flags :: "string \<Rightarrow> string list \<Rightarrow> dstore \<Rightarrow> unit result \<times> dstore" where
  "drop_flags var fs d =
     with_key (own d) var d (\<lambda>fl. (Inr (), set_own (dset var (filter (\<lambda>(f, _). f \<notin> set fs) fl) (own d)) d))"

text \<open>
  The overrides at the end of a name, one more with every turn: \<open>A:b:c\<close> overrides \<open>A:b\<close> by \<open>c\<close> and \<open>A\<close>
  by \<open>b:c\<close>.  When there is no colon, \<open>rfind\<close> is \<open>-1\<close>, so that the slices are the whole name and all
  but its last character.
\<close>

definition override_start :: "string \<Rightarrow> string \<times> string" where
  "override_start var = (case rsplit1 (CHR '':'') var of Some (a, b) \<Rightarrow> (b, a) | None \<Rightarrow> (var, butlast var))"

definition is_override :: "string \<Rightarrow> bool" where
  "is_override s =
     (case s of [] \<Rightarrow> False | c # _ \<Rightarrow> is_digit c \<or> (97 \<le> Prelude.code c \<and> Prelude.code c \<le> 122))"

lemma rsplit1_shorter: "rsplit1 c s = Some (a, b) \<Longrightarrow> length a < length s"
  by (auto dest!: rsplit1_Some)

function override_pairs :: "string \<Rightarrow> string \<Rightarrow> string \<Rightarrow> (string \<times> string) list" where
  "override_pairs var ov short =
     (if \<not> is_override ov then []
      else (short, ov) #
        (case rsplit1 (CHR '':'') short of
           None \<Rightarrow> []
         | Some (a, _) \<Rightarrow> if a = [] then [] else override_pairs var (drop (length a + 1) var) a))"
  by pat_completeness auto
termination
  by (relation "measure (\<lambda>(_, _, s). length s)") (auto dest: rsplit1_shorter)

declare override_pairs.simps [simp del]

definition add_override ::
  "string \<Rightarrow> string \<times> string \<Rightarrow> (string \<times> (string \<times> string) list) list \<Rightarrow> (string \<times> (string \<times> string) list) list"
where
  "add_override var p od =
     (case p of (short, ov) \<Rightarrow>
        let l = dget_or od short [] in dset short (if (var, ov) \<in> set l then l else l @ [(var, ov)]) od)"

definition del_override ::
  "string \<Rightarrow> string \<times> string \<Rightarrow> (string \<times> (string \<times> string) list) list \<Rightarrow> (string \<times> (string \<times> string) list) list"
where
  "del_override var p od =
     (case p of (short, ov) \<Rightarrow>
        case dget od short of None \<Rightarrow> od | Some l \<Rightarrow> dset short (remove_first (var, ov) l) od)"

definition setvar_update_overrides :: "string \<Rightarrow> dstore \<Rightarrow> dstore" where
  "setvar_update_overrides var d =
     (case override_start var of (ov, short) \<Rightarrow>
        d\<lparr>overridedata := fold (add_override var) (override_pairs var ov short) (overridedata d)\<rparr>)"

text \<open>\<open>_setvar_update_overridevars\<close>: the variables that \<open>OVERRIDES\<close> depends on.\<close>

definition refs_of :: "vparse \<Rightarrow> string list" where
  "refs_of vp = fold append_new (vp_contains vp) (vp_refs vp)"

fun gather_refs ::
  "nat \<Rightarrow> nat \<Rightarrow> dstore pycode \<Rightarrow> string list \<Rightarrow> string list \<Rightarrow> dstore \<Rightarrow> string list result \<times> dstore"
where
  "gather_refs n k P [] acc d = (Inr acc, d)"
| "gather_refs n k P (i # is) acc d =
     bind_st (getVar n k P i True False False d) (\<lambda>v d1.
     bind_st (expand_with_refs k P (expanded (getVarFlag n k P)) v (Some i) d1) (\<lambda>vp d2.
       gather_refs n k P is (fold append_new (refs_of vp) acc) d2))"

fun overridevars_loop ::
  "nat \<Rightarrow> nat \<Rightarrow> nat \<Rightarrow> dstore pycode \<Rightarrow> string list \<Rightarrow> dstore \<Rightarrow> unit result \<times> dstore"
where
  "overridevars_loop 0 n k P new d = (Inl OutOfFuel, d)"
| "overridevars_loop (Suc j) n k P new d =
     (if set new \<subseteq> set (overridevars d) then (Inr (), d)
      else bind_st (gather_refs n k P new [] (d\<lparr>overridevars := fold append_new new (overridevars d)\<rparr>))
             (overridevars_loop j n k P))"

definition setvar_update_overridevars ::
  "nat \<Rightarrow> nat \<Rightarrow> dstore pycode \<Rightarrow> string \<Rightarrow> val \<Rightarrow> dstore \<Rightarrow> unit result \<times> dstore"
where
  "setvar_update_overridevars n k P var v d =
     bind_st (expand_with_refs k P (expanded (getVarFlag n k P)) v (Some var) d) (\<lambda>vp d1.
     seq_st (overridevars_loop k n k P (refs_of vp) d1) (\<lambda>d2.
       (Inr (), d2\<lparr>overrides := None, expand_cache := []\<rparr>)))"

definition delVar :: "string \<Rightarrow> dstore \<Rightarrow> dstore" where
  "delVar var d =
     (let d1 = set_own (dset var [] (own d)) (d\<lparr>expand_cache := []\<rparr>);
          od = ddel var (overridedata d1)
      in d1\<lparr>overridedata :=
           (if CHR '':'' \<in> set var
            then (case override_start var of (ov, short) \<Rightarrow> fold (del_override var) (override_pairs var ov short) od)
            else od)\<rparr>)"

text \<open>
  \<open>setVarFlag\<close>.  \<open>fail\<close> marks that a renamed variable was used.  The names of exported variables are
  collected in a set, which a shadow copy shares with the layer below.
\<close>

definition export_var :: "string \<Rightarrow> dstore \<Rightarrow> unit result \<times> dstore" where
  "export_var var d =
     (let d1 = shadow_copy ''__exportlist'' d
      in with_key (own d1) ''__exportlist'' d1 (\<lambda>fl.
           case dget fl ''_content'' of
             None \<Rightarrow>
               put_flag ''__exportlist'' ''_content'' (SetRef (length (cells d1))) (d1\<lparr>cells := cells d1 @ [[var]]\<rparr>)
           | Some (SetRef a) \<Rightarrow> (Inr (), d1\<lparr>cells := (cells d1)[a := append_new var (cell d1 a)]\<rparr>)
           | Some _ \<Rightarrow> (Inl AttributeError, d1)))"

definition setVarFlag_by ::
  "(dstore \<Rightarrow> unit result \<times> dstore) \<Rightarrow> nat \<Rightarrow> nat \<Rightarrow> dstore pycode \<Rightarrow> string \<Rightarrow> string \<Rightarrow> val \<Rightarrow> dstore \<Rightarrow>
     unit result \<times> dstore"
where
  "setVarFlag_by fail n k P var flag v d =
     (let d1 = d\<lparr>expand_cache := []\<rparr>;
          d2 = (if var = ''BB_RENAMED_VARIABLES'' then d1\<lparr>renamed := append_new flag (renamed d1)\<rparr> else d1)
      in seq_st (if var \<in> set (renamed d2) then fail d2 else (Inr (), d2)) (\<lambda>d3.
         seq_st (put_flag var flag v (shadow_copy var d3)) (\<lambda>d4.
           (let d5 = (if flag = ''_defaultval'' \<and> CHR '':'' \<in> set var then setvar_update_overrides var d4 else d4)
            in seq_st (if flag = ''_defaultval'' \<and> var \<in> set (overridevars d5)
                       then setvar_update_overridevars n k P var v d5 else (Inr (), d5)) (\<lambda>d6.
                 if flag = ''unexport'' \<or> flag = ''export'' then export_var var d6 else (Inr (), d6))))))"

text \<open>
  \<open>(?P<base>.*?)(?P<keyword>:append|:prepend|:remove)(:(?P<add>[^A-Z]*))?$\<close>: the first place where an
  operation is followed by nothing (but a newline) or by overrides without capital letters.
\<close>

definition op_keywords :: "string list" where
  "op_keywords = ['':append'', '':prepend'', '':remove'']"

definition is_upper :: "char \<Rightarrow> bool" where
  "is_upper c \<longleftrightarrow> 65 \<le> Prelude.code c \<and> Prelude.code c \<le> 90"

definition op_at :: "string \<Rightarrow> (string \<times> string option) option" where
  "op_at s =
     first_some (\<lambda>kw.
       if \<not> prefix kw s then None
       else case drop (length kw) s of
              [] \<Rightarrow> Some (kw, None)
            | c # add \<Rightarrow>
                if c = CHR '':'' \<and> \<not> list_ex is_upper add then Some (kw, Some add)
                else if c = newline \<and> add = [] then Some (kw, None) else None) op_keywords"

fun split_op :: "string \<Rightarrow> (string \<times> string \<times> string option) option" where
  "split_op s =
     (case op_at s of
        Some (kw, add) \<Rightarrow> Some ([], kw, add)
      | None \<Rightarrow>
          (case s of
             [] \<Rightarrow> None
           | c # cs \<Rightarrow>
               if c = newline then None else map_option (\<lambda>(base, kw, add). (c # base, kw, add)) (split_op cs)))"

declare split_op.simps [simp del]

fun contains :: "string \<Rightarrow> string \<Rightarrow> bool" where
  "contains p [] \<longleftrightarrow> p = []"
| "contains p (c # cs) \<longleftrightarrow> prefix p (c # cs) \<or> contains p cs"

definition old_syntax :: "string \<Rightarrow> bool" where
  "old_syntax var \<longleftrightarrow> \<not> prefix ''__anon_'' var \<and>
     (contains ''_append'' var \<or> contains ''_prepend'' var \<or> contains ''_remove'' var)"

definition failed_var :: string where
  "failed_var = ''_FAILPARSINGERRORHANDLED''"

text \<open>
  The branches of \<open>setVar\<close>: an operation is added to its list; a plain value replaces the operations
  and the overrides that apply now, unless a file is being parsed.
\<close>

definition set_operation ::
  "(dstore \<Rightarrow> unit result \<times> dstore) \<Rightarrow> nat \<Rightarrow> nat \<Rightarrow> dstore pycode \<Rightarrow> string \<Rightarrow> string \<Rightarrow> string \<Rightarrow> string option \<Rightarrow>
     val \<Rightarrow> dstore \<Rightarrow> unit result \<times> dstore"
where
  "set_operation fail n k P var base kw add v d =
     bind_st (read_flag n k P base kw d) (\<lambda>l d1.
       case (if truthy d1 l then l else Ops []) of
         Ops ops \<Rightarrow>
           seq_st (setVarFlag_by fail n k P base kw (Ops (ops @ [(v, add)])) d1) (\<lambda>d2.
             (let d3 = setvar_update_overrides base d2
              in if base \<in> set (overridevars d3) then setvar_update_overridevars n k P var v d3 else (Inr (), d3)))
       | _ \<Rightarrow> (Inl AttributeError, d1))"

definition drop_overrides :: "nat \<Rightarrow> nat \<Rightarrow> dstore pycode \<Rightarrow> string \<Rightarrow> dstore \<Rightarrow> unit result \<times> dstore" where
  "drop_overrides n k P var d =
     (case dget (overridedata d) var of
        None \<Rightarrow> (Inr (), d)
      | Some l \<Rightarrow>
          seq_st (need_overrides (getVarFlag n k P) d) (\<lambda>d1.
            if l \<noteq> [] \<and> overridesset d1 = None then (Inl AttributeError, d1)
            else
              (let oss = (case overridesset d1 of None \<Rightarrow> [] | Some x \<Rightarrow> x);
                   d2 = fold delVar (map fst (filter (\<lambda>(r, ov). is_active oss ov) l)) d1
               in with_key (overridedata d2) var d2 (\<lambda>_.
                    (Inr (), d2\<lparr>overridedata := ddel var (overridedata d2)\<rparr>)))))"

definition set_content :: "nat \<Rightarrow> nat \<Rightarrow> dstore pycode \<Rightarrow> string \<Rightarrow> val \<Rightarrow> bool \<Rightarrow> dstore \<Rightarrow> unit result \<times> dstore" where
  "set_content n k P var v parsing d =
     (let d1 = shadow_copy var d
      in seq_st (if parsing then (Inr (), d1) else seq_st (drop_flags var op_keywords d1) (drop_overrides n k P var)) (\<lambda>d2.
           (let d3 = (if CHR '':'' \<in> set var then setvar_update_overrides var d2 else d2)
            in seq_st (put_flag var ''_content'' v d3) (\<lambda>d4.
                 if var \<in> set (overridevars d4) then setvar_update_overridevars n k P var v d4 else (Inr (), d4)))))"

primrec setVar ::
  "nat \<Rightarrow> nat \<Rightarrow> dstore pycode \<Rightarrow> string \<Rightarrow> val \<Rightarrow> bool \<Rightarrow> dstore \<Rightarrow> unit result \<times> dstore"
where
  "setVar 0 k P var v parsing d = (Inl RecursionError, d)"
| "setVar (Suc n) k P var v parsing d =
     (if old_syntax var then (Inl Fatal, d)
      else
        seq_st (if takeWhile (\<lambda>c. c \<noteq> CHR '':'') var \<in> set (renamed d)
                then setVar n k P failed_var (Flag True) False d else (Inr (), d)) (\<lambda>d1.
          (let d2 = d1\<lparr>expand_cache := []\<rparr>
           in case split_op var of
                Some (base, kw, add) \<Rightarrow>
                  set_operation (setVar n k P failed_var (Flag True) False) n k P var base kw add v d2
              | None \<Rightarrow> set_content n k P var v parsing d2)))"

definition setVarFlag :: "nat \<Rightarrow> nat \<Rightarrow> dstore pycode \<Rightarrow> string \<Rightarrow> string \<Rightarrow> val \<Rightarrow> dstore \<Rightarrow> unit result \<times> dstore" where
  "setVarFlag n k P = setVarFlag_by (setVar n k P failed_var (Flag True) False) n k P"

definition appendVar :: "nat \<Rightarrow> nat \<Rightarrow> dstore pycode \<Rightarrow> string \<Rightarrow> val \<Rightarrow> dstore \<Rightarrow> unit result \<times> dstore" where
  "appendVar n k P var v d = setVar n k P (var @ '':append'') v True d"

definition prependVar :: "nat \<Rightarrow> nat \<Rightarrow> dstore pycode \<Rightarrow> string \<Rightarrow> val \<Rightarrow> dstore \<Rightarrow> unit result \<times> dstore" where
  "prependVar n k P var v d = setVar n k P (var @ '':prepend'') v True d"

section \<open>Flags\<close>

definition delVarFlag :: "string \<Rightarrow> string \<Rightarrow> dstore \<Rightarrow> unit result \<times> dstore" where
  "delVarFlag var flag d =
     (let d1 = d\<lparr>expand_cache := []\<rparr>
      in case find_var d1 var of
           Some (_ # _) \<Rightarrow> drop_flags var [flag] (shadow_copy var d1)
         | _ \<Rightarrow> (Inr (), d1))"

definition changed_flag ::
  "nat \<Rightarrow> nat \<Rightarrow> dstore pycode \<Rightarrow> (val \<Rightarrow> val result) \<Rightarrow> string \<Rightarrow> string \<Rightarrow> dstore \<Rightarrow> unit result \<times> dstore"
where
  "changed_flag n k P f var flag d =
     bind_st (read_flag n k P var flag d) (\<lambda>v d1.
       case f (if truthy d1 v then v else Str []) of
         Inl e \<Rightarrow> (Inl e, d1)
       | Inr w \<Rightarrow> setVarFlag n k P var flag w d1)"

definition appendVarFlag :: "nat \<Rightarrow> nat \<Rightarrow> dstore pycode \<Rightarrow> string \<Rightarrow> string \<Rightarrow> val \<Rightarrow> dstore \<Rightarrow> unit result \<times> dstore" where
  "appendVarFlag n k P var flag w = changed_flag n k P (\<lambda>v. add_val v w) var flag"

definition prependVarFlag :: "nat \<Rightarrow> nat \<Rightarrow> dstore pycode \<Rightarrow> string \<Rightarrow> string \<Rightarrow> val \<Rightarrow> dstore \<Rightarrow> unit result \<times> dstore" where
  "prependVarFlag n k P var flag w = changed_flag n k P (\<lambda>v. add_val w v) var flag"

definition setVarFlags :: "string \<Rightarrow> flags \<Rightarrow> dstore \<Rightarrow> unit result \<times> dstore" where
  "setVarFlags var fs d =
     foreach (\<lambda>(f, v). put_flag var f v) (filter (\<lambda>(f, _). f \<noteq> ''_content'') fs)
       (shadow_copy var (d\<lparr>expand_cache := []\<rparr>))"

definition delVarFlags :: "string \<Rightarrow> dstore \<Rightarrow> unit result \<times> dstore" where
  "delVarFlags var d =
     (let d1 = shadow_copy var (d\<lparr>expand_cache := []\<rparr>)
      in with_key (own d1) var d1 (\<lambda>fl.
           (Inr (),
            case dget fl ''_content'' of
              Some v \<Rightarrow> set_own (dset var [(''_content'', v)] (own d1)) d1
            | None \<Rightarrow> set_own (ddel var (own d1)) d1)))"

fun expand_flags ::
  "nat \<Rightarrow> nat \<Rightarrow> dstore pycode \<Rightarrow> string \<Rightarrow> string list \<Rightarrow> flags \<Rightarrow> dstore \<Rightarrow> flags result \<times> dstore"
where
  "expand_flags n k P var ex [] d = (Inr [], d)"
| "expand_flags n k P var ex ((f, v) # fs) d =
     bind_st (if f \<in> set ex
              then bind_st (expand_with_refs k P (expanded (getVarFlag n k P)) v (Some (var @ ''['' @ f @ '']'')) d)
                     (\<lambda>vp d1. (Inr (vp_value vp), d1))
              else (Inr v, d)) (\<lambda>w d1.
     bind_st (expand_flags n k P var ex fs d1) (\<lambda>ws d2. (Inr ((f, w) # ws), d2)))"

definition getVarFlags ::
  "nat \<Rightarrow> nat \<Rightarrow> dstore pycode \<Rightarrow> string \<Rightarrow> string list \<Rightarrow> bool \<Rightarrow> dstore \<Rightarrow> flags option result \<times> dstore"
where
  "getVarFlags n k P var ex internal d =
     bind_st (expand_flags n k P var ex
                (filter (\<lambda>(f, _). internal \<or> \<not> (prefix ''_'' f \<or> prefix '':'' f))
                  (case find_var d var of None \<Rightarrow> [] | Some fl \<Rightarrow> fl)) d)
       (\<lambda>fs d1. (Inr (if fs = [] then None else Some fs), d1))"

section \<open>Renaming and copying\<close>

definition move_ops :: "nat \<Rightarrow> nat \<Rightarrow> dstore pycode \<Rightarrow> string \<Rightarrow> string \<times> val \<Rightarrow> dstore \<Rightarrow> unit result \<times> dstore" where
  "move_ops n k P newkey p d =
     (case p of (f, src) \<Rightarrow>
        if f \<notin> set op_keywords then (Inr (), d)
        else bind_st (read_flag n k P newkey f d) (\<lambda>v d1.
               case (if truthy d1 v then v else Ops [], src) of
                 (Ops a, Ops b) \<Rightarrow> setVarFlag n k P newkey f (Ops (a @ b)) d1
               | (Ops a, _) \<Rightarrow> (Inl TypeError, d1)
               | _ \<Rightarrow> (Inl AttributeError, d1)))"

primrec renameVar :: "nat \<Rightarrow> nat \<Rightarrow> dstore pycode \<Rightarrow> string \<Rightarrow> string \<Rightarrow> dstore \<Rightarrow> unit result \<times> dstore" where
  "renameVar 0 k P key newkey d = (Inl RecursionError, d)"
| "renameVar (Suc n) k P key newkey d =
     (if key = newkey then (Inr (), d)
      else
        bind_st (getVar n k P key False False True d) (\<lambda>v d1.
        seq_st (if v \<noteq> NoneV then setVar n k P newkey v True d1 else (Inr (), d1)) (\<lambda>d2.
        bind_st (getVarFlags n k P key [] True d2) (\<lambda>fs d3.
        seq_st (foreach (move_ops n k P newkey) (case fs of None \<Rightarrow> [] | Some l \<Rightarrow> l) d3) (\<lambda>d4.
        seq_st (case dget (overridedata d4) key of
                  None \<Rightarrow> (Inr (), d4)
                | Some l \<Rightarrow>
                    foreach (\<lambda>(r, ov) d5.
                      with_key (overridedata d5) newkey d5 (\<lambda>l'.
                        renameVar n k P r (str_replace key newkey r)
                          (d5\<lparr>overridedata := dset newkey (l' @ [(str_replace key newkey r, ov)]) (overridedata d5)\<rparr>)))
                      l (d4\<lparr>overridedata := dset newkey [] (overridedata d4)\<rparr>)) (\<lambda>d5.
          (Inr (), delVar key
             (if CHR '':'' \<in> set newkey \<and> v = NoneV then setvar_update_overrides newkey d5 else d5))))))))"

definition createCopy :: "dstore \<Rightarrow> dstore" where
  "createCopy d =
     d\<lparr>layers := layers d @ [\<lparr>entries = [], up = Some (me d)\<rparr>], me := length (layers d), overrides := None,
       overridesset := None, inoverride := False, expand_cache := []\<rparr>"

section \<open>The keys\<close>

definition localkeys :: "dstore \<Rightarrow> string list" where
  "localkeys d = dkeys (own d)"

function keys_in :: "layer list \<Rightarrow> nat \<Rightarrow> string list \<Rightarrow> string list \<Rightarrow> string list" where
  "keys_in L i ovs gone =
     (if i < length L
      then
        (let ks = filter (\<lambda>(x, _). x \<notin> set gone \<and> x \<notin> set ovs) (entries (L ! i));
             here = map fst (filter (\<lambda>(_, fl). fl \<noteq> []) ks);
             gone1 = gone @ map fst (filter (\<lambda>(_, fl). fl = []) ks)
         in case up (L ! i) of
              Some p \<Rightarrow> if p < i then fold append_new (keys_in L p ovs gone1) here else here
            | None \<Rightarrow> here)
      else [])"
  by pat_completeness auto
termination
  by (relation "measure (\<lambda>(_, i, _). i)") auto

declare keys_in.simps [simp del]

definition iter_keys :: "nat \<Rightarrow> nat \<Rightarrow> dstore pycode \<Rightarrow> dstore \<Rightarrow> string list result \<times> dstore" where
  "iter_keys n k P d =
     seq_st (need_overrides (getVarFlag n k P) d) (\<lambda>d1.
       if overridesset d1 = None \<and> list_ex (\<lambda>(_, l). l \<noteq> []) (overridedata d1) then (Inl AttributeError, d1)
       else
         (let oss = (case overridesset d1 of None \<Rightarrow> [] | Some x \<Rightarrow> x);
              ovs = map fst (filter (\<lambda>(_, l). list_ex (\<lambda>(_, ov). is_active oss ov) l) (overridedata d1))
          in (Inr (keys_in (layers d1) (me d1) ovs [] @ ovs), d1)))"

definition get_item :: "nat \<Rightarrow> nat \<Rightarrow> dstore pycode \<Rightarrow> string \<Rightarrow> dstore \<Rightarrow> val result \<times> dstore" where
  "get_item n k P var d =
     bind_st (getVar n k P var False False False d) (\<lambda>v d1. (if v = NoneV then Inl KeyError else Inr v, d1))"

end
