(* ===== verification/Copies.thy ===== *)
theory Copies
  imports Datastore
begin

text \<open>
  What the methods of a datastore change.  Reading changes neither a variable nor, once they are known,
  the overrides (the locale \<open>reading\<close>, which a reader gets from the readers it calls).  Writing
  changes the own layer only, so that a copy never shows in the datastore it was made of, but for
  the names of exported variables, which are one shared set.  A value that is set is read back.
  The value of an overridden variable is computed from the override that comes last in \<open>OVERRIDES\<close>.
\<close>

section \<open>Reading\<close>

definition reads :: "dstore \<Rightarrow> dstore \<Rightarrow> bool" where
  "reads d d' \<longleftrightarrow> layers d' = layers d \<and> me d' = me d \<and> renamed d' = renamed d \<and>
     overridedata d' = overridedata d \<and> overridevars d' = overridevars d \<and> prefix (cells d) (cells d')"

definition settled :: "dstore \<Rightarrow> dstore \<Rightarrow> bool" where
  "settled d d' \<longleftrightarrow> reads d d' \<and>
     (overrides d \<noteq> None \<longrightarrow> overrides d' = overrides d \<and> overridesset d' = overridesset d)"

interpretation rd: frame reads
  by unfold_locales (auto simp: reads_def intro: prefix_order.trans)

interpretation st: frame settled
  by unfold_locales (auto simp: settled_def reads_def intro: prefix_order.trans)

lemma reads_upd [simp]:
  "reads d (d\<lparr>expand_cache := c\<rparr>)" "reads d (d\<lparr>overrides := os\<rparr>)"
  "reads d (d\<lparr>overrides := os, overridesset := oss\<rparr>)"
  "reads d (d\<lparr>inoverride := b, overrides := os, overridesset := oss\<rparr>)"
  "reads d (d\<lparr>overrides := os, overridesset := oss, inoverride := b, expand_cache := c\<rparr>)"
  "settled d (d\<lparr>expand_cache := c\<rparr>)"
  by (simp_all add: reads_def settled_def)

lemma settled_reads: "settled d d' \<Longrightarrow> reads d d'"
  by (simp add: settled_def)

lemma copy_val_settled: "settled d (snd (copy_val v d))"
  by (auto simp: copy_val_def settled_def reads_def split: val.splits)

lemma own_value_settled: "settled d (snd (own_value loc flag noweak v d))"
  by (auto simp: own_value_def st.same copy_val_settled split: option.splits)

lemma own_value_eq: "own_value loc flag noweak v d = (v1, d1) \<Longrightarrow> settled d d1"
  using own_value_settled [of d loc flag noweak v] by simp

locale reading =
  fixes rd :: reader
  assumes keeps: "settled d (snd (rd var flag expand noweak parsing retparser d))"
begin

lemma expanded: "settled d (snd (expanded rd var flag d))"
  unfolding expanded_def by (rule st.bind [OF keeps]) (simp add: st.same split: prod.split)

lemma read_overrides: "settled d (snd (read_overrides rd d))"
  unfolding read_overrides_def by (rule st.bind [OF expanded]) (simp add: st.same)

lemma settle_overrides: "reads d (snd (settle_overrides k rd d))"
proof (induction k arbitrary: d)
  case (Suc k)
  show ?case unfolding settle_overrides.simps
    apply (rule rd.after [OF reads_upd(4)])
    apply (rule rd.bind [OF settled_reads [OF read_overrides]])
    apply (rule rd.after [OF reads_upd(5)])
    apply (rule rd.bind [OF settled_reads [OF read_overrides]])
    apply (auto simp: rd.same intro!: rd.after [OF reads_upd(3) Suc])
    done
qed (simp add: rd.same)

lemma need_overrides: "settled d (snd (need_overrides rd d))"
  using settle_overrides [of d 5] by (simp add: need_overrides_def st.same) (simp add: settled_def)

lemma override_value: "settled d (snd (override_value rd var d))"
  unfolding override_value_def
  by (auto simp: st.same split: option.splits sum.splits prod.splits intro!: st.seq need_overrides st.bind keeps)

lemma with_ops: "settled d (snd (with_ops rd loc op f v d))"
  unfolding with_ops_def by (auto simp: st.same split: option.splits intro!: st.seq need_overrides)

lemma raw_value: "settled d (snd (raw_value rd var flag noweak parsing d))"
  unfolding raw_value_def Let_def
  by (intro st.bind) (auto simp: st.same split: prod.splits intro!: override_value st.bind with_ops
      intro: own_value_eq st.trans [OF own_value_eq with_ops])

lemma gather_removes: "settled d (snd (gather_removes rd loc owner rs d))"
  unfolding gather_removes_def
  by (auto simp: st.same split: option.splits sum.splits intro!: st.seq need_overrides)

lemma expand_removes: "settled d (snd (expand_removes k P rd rs d))"
proof (induction rs arbitrary: d)
  case (Cons r rs)
  show ?case unfolding expand_removes.simps
    by (rule st.bind [OF st.expand_with_refs [OF expanded]])
      (auto simp: st.same split: val.splits intro!: st.bind Cons)
qed (simp add: st.same)

lemma apply_removes: "settled d (snd (apply_removes k P rd rs parser d))"
  unfolding apply_removes_def
  by (auto simp: st.same split: option.splits intro!: st.bind expand_removes)

lemma finish_value: "settled d (snd (finish_value k P rd var flag expand parsing retparser q d))"
  unfolding finish_value_def Let_def
  by (auto simp: st.same split: prod.splits option.splits
      intro!: st.bind st.expand_with_refs expanded gather_removes apply_removes)

lemma flag_body: "settled d (snd (flag_body k P rd var flag expand noweak parsing retparser d))"
  unfolding flag_body_def Let_def
  by (auto simp: st.same split: option.splits intro!: st.bind raw_value finish_value)

end

lemma getVarFlag_settled: "settled d (snd (getVarFlag n k P var flag expand noweak parsing retparser d))"
proof (induction n arbitrary: var flag expand noweak parsing retparser d)
  case (Suc n)
  then have "reading (getVarFlag n k P)" by unfold_locales
  then show ?case by (simp add: reading.flag_body)
qed (simp add: st.same)

interpretation reader: reading "getVarFlag n k P" for n k P
  by unfold_locales (rule getVarFlag_settled)

lemma getVar_settled: "settled d (snd (getVar n k P var expand noweak parsing d))"
  unfolding getVar_def by (rule st.bind [OF getVarFlag_settled]) (simp add: st.same split: prod.split)

lemma getVar_fst:
  "fst (getVar n k P var expand noweak parsing d) =
     map_sum id fst (fst (getVarFlag n k P var ''_content'' expand noweak parsing False d))"
  by (simp add: getVar_def bind_st_def split: prod.split sum.split)

lemma read_flag_settled: "settled d (snd (read_flag n k P var flag d))"
  unfolding read_flag_def by (rule st.bind [OF getVarFlag_settled]) (simp add: st.same split: prod.split)

section \<open>Writing\<close>

text \<open>Only the own layer changes; new sets may be made.\<close>

definition writes :: "dstore \<Rightarrow> dstore \<Rightarrow> bool" where
  "writes d d' \<longleftrightarrow> me d' = me d \<and> length (layers d') = length (layers d) \<and>
     (\<forall>j. up (layers d' ! j) = up (layers d ! j) \<and> (j \<noteq> me d \<longrightarrow> layers d' ! j = layers d ! j)) \<and>
     prefix (cells d) (cells d')"

interpretation wr: frame writes
  by unfold_locales (auto simp: writes_def intro: prefix_order.trans)

lemma settled_writes: "settled d d' \<Longrightarrow> writes d d'"
  by (simp add: settled_def reads_def writes_def)

lemma writes_upd [simp]:
  "writes d (d\<lparr>expand_cache := c\<rparr>)" "writes d (d\<lparr>overridedata := od\<rparr>)" "writes d (d\<lparr>renamed := rn\<rparr>)"
  "writes d (d\<lparr>overridevars := ovs\<rparr>)" "writes d (d\<lparr>overrides := os, expand_cache := c\<rparr>)"
  by (simp_all add: writes_def)

lemma set_own_writes [simp]: "writes d (set_own es d)"
  by (cases "me d < length (layers d)") (auto simp: writes_def set_own_def nth_list_update not_less list_update_beyond)

lemma init_var_writes: "writes d (init_var var d)"
  using wr.trans [OF writes_upd(1) set_own_writes] by (simp add: init_var_def Let_def)

lemma shadow_copy_writes: "writes d (shadow_copy var d)"
  by (auto simp: shadow_copy_def wr.same init_var_writes split: option.splits list.splits)

lemma put_flag_writes: "writes d (snd (put_flag var flag v d))"
  unfolding put_flag_def by (rule wr.key) simp

lemma drop_flags_writes: "writes d (snd (drop_flags var fs d))"
  unfolding drop_flags_def by (rule wr.key) simp

lemma setvar_update_overrides_writes: "writes d (setvar_update_overrides var d)"
  by (simp add: setvar_update_overrides_def split: prod.split)

lemma expand_writes: "writes d (snd (expand_with_refs k P (expanded (getVarFlag n k P)) v varname d))"
  by (rule settled_writes [OF st.expand_with_refs [OF reader.expanded]])

lemma gather_refs_writes: "writes d (snd (gather_refs n k P is acc d))"
proof (induction "is" arbitrary: acc d)
  case (Cons i "is")
  show ?case unfolding gather_refs.simps
    by (intro wr.bind settled_writes [OF getVar_settled] expand_writes Cons)
qed (simp add: wr.same)

lemma overridevars_loop_writes: "writes d (snd (overridevars_loop j n k P new d))"
proof (induction j arbitrary: new d)
  case (Suc j)
  show ?case
    by (auto simp: wr.same intro!: wr.bind wr.after [OF writes_upd(4) gather_refs_writes] Suc)
qed (simp add: wr.same)

lemma setvar_update_overridevars_writes: "writes d (snd (setvar_update_overridevars n k P var v d))"
  unfolding setvar_update_overridevars_def
  by (intro wr.bind wr.seq expand_writes overridevars_loop_writes) simp

lemma delVar_writes: "writes d (delVar var d)"
  unfolding delVar_def Let_def
  by (rule wr.trans [OF wr.trans [OF writes_upd(1) set_own_writes] writes_upd(2)])

lemma delVars_writes: "writes d (fold delVar vs d)"
  by (induction vs arbitrary: d) (auto intro: wr.same wr.trans delVar_writes)

lemma drop_overrides_writes: "writes d (snd (drop_overrides n k P var d))"
proof -
  have "writes d (snd (with_key od var (fold delVar vs d) (\<lambda>x. (Inr (), (fold delVar vs d)\<lparr>overridedata := od'\<rparr>))))"
    for od vs d and od' :: "(string \<times> (string \<times> string) list) list"
    by (rule wr.trans [OF delVars_writes wr.key]) simp
  then show ?thesis unfolding drop_overrides_def Let_def
    by (auto simp: wr.same split: option.split intro!: wr.seq settled_writes [OF reader.need_overrides])
      (rule wr.key, simp)+
qed

text \<open>Exported names are the exception.\<close>

definition exports :: "string \<Rightarrow> bool" where
  "exports flag \<longleftrightarrow> flag = ''export'' \<or> flag = ''unexport''"

lemma setVarFlag_by_writes:
  assumes "\<And>d. writes d (snd (fail d))" "\<not> exports flag"
  shows "writes d (snd (setVarFlag_by fail n k P var flag v d))"
proof -
  let ?d1 = "d\<lparr>expand_cache := []\<rparr>"
  define d2 where "d2 = (if var = ''BB_RENAMED_VARIABLES'' then ?d1\<lparr>renamed := append_new flag (renamed ?d1)\<rparr> else ?d1)"
  have start: "writes d d2" by (simp add: d2_def writes_def)
  have up: "writes d (if b then setvar_update_overrides var d else d)" for b d
    by (simp add: wr.same setvar_update_overrides_writes)
  have "writes d (snd (setVarFlag_by fail n k P var flag v d)) \<longleftrightarrow>
      writes d (snd (seq_st (if var \<in> set (renamed d2) then fail d2 else (Inr (), d2)) (\<lambda>d3.
         seq_st (put_flag var flag v (shadow_copy var d3)) (\<lambda>d4.
           (let d5 = (if flag = ''_defaultval'' \<and> CHR '':'' \<in> set var then setvar_update_overrides var d4 else d4)
            in seq_st (if flag = ''_defaultval'' \<and> var \<in> set (overridevars d5)
                       then setvar_update_overridevars n k P var v d5 else (Inr (), d5)) (Pair (Inr ())))))))"
    using assms(2) by (simp add: setVarFlag_by_def exports_def Let_def d2_def cong: if_cong)
  also have "\<dots>"
    unfolding Let_def
    apply (rule wr.after [OF start])
    apply (rule wr.seq)
     apply (simp add: assms(1) wr.same)
    apply (rule wr.seq)
     apply (rule wr.after [OF shadow_copy_writes put_flag_writes])
    apply (rule wr.after [OF up [where b = "flag = ''_defaultval'' \<and> CHR '':'' \<in> set var"]])
    apply (rule wr.seq)
     apply (simp_all add: wr.same setvar_update_overridevars_writes)
    done
  finally show ?thesis .
qed

lemma set_operation_writes:
  assumes "\<And>d. writes d (snd (fail d))" "kw \<in> set op_keywords"
  shows "writes d (snd (set_operation fail n k P var base kw add v d))"
proof -
  have kw: "\<not> exports kw" using assms(2) by (auto simp: op_keywords_def exports_def)
  show ?thesis unfolding set_operation_def Let_def
    by (auto simp: wr.same split: val.split intro!: wr.bind wr.seq settled_writes [OF read_flag_settled]
        setVarFlag_by_writes [OF assms(1) kw] setvar_update_overrides_writes
        wr.after [OF setvar_update_overrides_writes setvar_update_overridevars_writes])
qed

lemma set_content_writes: "writes d (snd (set_content n k P var v parsing d))"
proof -
  have up: "writes d (if b then setvar_update_overrides var d else d)" for b d
    by (simp add: wr.same setvar_update_overrides_writes)
  show ?thesis unfolding set_content_def Let_def
    apply (rule wr.after [OF shadow_copy_writes [of d var]])
    apply (rule wr.seq)
     apply (simp add: wr.same wr.seq drop_flags_writes drop_overrides_writes)
    apply (rule wr.after [OF up [where b = "CHR '':'' \<in> set var"]])
    apply (rule wr.seq [OF put_flag_writes])
    apply (simp add: wr.same setvar_update_overridevars_writes)
    done
qed

lemma op_at_kw: "op_at s = Some (kw, add) \<Longrightarrow> kw \<in> set op_keywords"
  by (auto simp: op_at_def dest!: first_some_Some split: if_splits list.splits)

lemma split_op_kw: "split_op s = Some (base, kw, add) \<Longrightarrow> kw \<in> set op_keywords"
proof (induction s arbitrary: base)
  case Nil
  then show ?case by (auto simp: split_op.simps [of "[]"] split: option.splits dest: op_at_kw)
next
  case (Cons c cs)
  then show ?case by (auto simp: split_op.simps [of "c # cs"] split: option.splits if_splits dest: op_at_kw)
qed

lemma setVar_writes: "writes d (snd (setVar n k P var v parsing d))"
proof (induction n arbitrary: var v parsing d)
  case (Suc n)
  have fail: "writes d (snd (setVar n k P failed_var (Flag True) False d))" for d by (rule Suc)
  show ?case
    by (auto simp: wr.same Let_def split: option.split prod.split
        intro!: wr.seq fail wr.after [OF writes_upd(1) set_content_writes]
          wr.after [OF writes_upd(1) set_operation_writes [OF fail]] dest: split_op_kw)
qed (simp add: wr.same)

lemma setVarFlag_writes: "\<not> exports flag \<Longrightarrow> writes d (snd (setVarFlag n k P var flag v d))"
  unfolding setVarFlag_def by (rule setVarFlag_by_writes [OF setVar_writes])

lemma delVarFlag_writes: "writes d (snd (delVarFlag var flag d))"
  unfolding delVarFlag_def Let_def
  by (rule wr.after [OF writes_upd(1) [of d "[]"]])
    (auto simp: wr.same split: option.split list.split intro!: wr.after [OF shadow_copy_writes drop_flags_writes])

lemma changed_flag_writes: "\<not> exports flag \<Longrightarrow> writes d (snd (changed_flag n k P f var flag d))"
  unfolding changed_flag_def
  by (auto simp: wr.same split: sum.split intro!: wr.bind settled_writes [OF read_flag_settled] setVarFlag_writes)

lemma setVarFlags_writes: "writes d (snd (setVarFlags var fs d))"
  unfolding setVarFlags_def
  by (rule wr.after [OF wr.trans [OF writes_upd(1) shadow_copy_writes] wr.loop]) (simp add: put_flag_writes split: prod.split)

lemma delVarFlags_writes: "writes d (snd (delVarFlags var d))"
  unfolding delVarFlags_def Let_def
  by (rule wr.after [OF wr.trans [OF writes_upd(1) shadow_copy_writes] wr.key]) (simp split: option.split)

lemma expand_flags_settled: "settled d (snd (expand_flags n k P var ex fs d))"
proof (induction n k P var ex fs d rule: expand_flags.induct)
  case (2 n k P var ex f v fs d)
  show ?case unfolding expand_flags.simps
    by (rule st.bind, auto simp: st.same intro!: st.bind st.expand_with_refs reader.expanded 2)
qed (simp add: st.same)

lemma getVarFlags_settled: "settled d (snd (getVarFlags n k P var ex internal d))"
  unfolding getVarFlags_def by (rule st.bind [OF expand_flags_settled]) (simp add: st.same)

lemma move_ops_writes: "writes d (snd (move_ops n k P newkey p d))"
proof -
  have "\<not> exports f" if "f \<in> set op_keywords" for f using that by (auto simp: op_keywords_def exports_def)
  then show ?thesis unfolding move_ops_def
    by (auto simp: wr.same split: val.split prod.split
        intro!: wr.bind settled_writes [OF read_flag_settled] setVarFlag_writes)
qed

lemma renameVar_writes: "writes d (snd (renameVar n k P key newkey d))"
proof (induction n arbitrary: key newkey d)
  case (Suc n)
  have up: "writes d (if b then setvar_update_overrides newkey d else d)" for b d
    by (simp add: wr.same setvar_update_overrides_writes)
  show ?case
    apply (simp add: wr.same)
    apply (intro impI wr.bind wr.seq settled_writes [OF getVar_settled] settled_writes [OF getVarFlags_settled]
        wr.loop move_ops_writes)
      apply (simp add: wr.same setVar_writes)
     apply (auto simp: wr.same split: option.split
        intro!: wr.after [OF writes_upd(2) wr.loop] wr.key wr.after [OF writes_upd(2) Suc])[1]
    apply (simp add: wr.trans [OF up delVar_writes] wr.trans [OF setvar_update_overrides_writes delVar_writes] delVar_writes)
    done
qed (simp add: wr.same)

section \<open>Copies\<close>

datatype store_op =
    SetVar string val bool | AppendVar string val | PrependVar string val | DelVar string
  | SetVarFlag string string val | DelVarFlag string string
  | AppendVarFlag string string val | PrependVarFlag string string val
  | SetVarFlags string flags | DelVarFlags string | RenameVar string string
  | GetVar string bool bool bool | GetVarFlag string string bool | GetVarFlags string "string list" bool

text \<open>A statement that calls a method and ignores its result.\<close>

definition run_op :: "nat \<Rightarrow> nat \<Rightarrow> dstore pycode \<Rightarrow> store_op \<Rightarrow> dstore \<Rightarrow> unit result \<times> dstore" where
  "run_op n k P op d =
     (case op of
        SetVar var v parsing \<Rightarrow> setVar n k P var v parsing d
      | AppendVar var v \<Rightarrow> appendVar n k P var v d
      | PrependVar var v \<Rightarrow> prependVar n k P var v d
      | DelVar var \<Rightarrow> (Inr (), delVar var d)
      | SetVarFlag var flag v \<Rightarrow> setVarFlag n k P var flag v d
      | DelVarFlag var flag \<Rightarrow> delVarFlag var flag d
      | AppendVarFlag var flag v \<Rightarrow> appendVarFlag n k P var flag v d
      | PrependVarFlag var flag v \<Rightarrow> prependVarFlag n k P var flag v d
      | SetVarFlags var fs \<Rightarrow> setVarFlags var fs d
      | DelVarFlags var \<Rightarrow> delVarFlags var d
      | RenameVar key newkey \<Rightarrow> renameVar n k P key newkey d
      | GetVar var expand noweak parsing \<Rightarrow> bind_st (getVar n k P var expand noweak parsing d) (\<lambda>_ d1. (Inr (), d1))
      | GetVarFlag var flag expand \<Rightarrow>
          bind_st (getVarFlag n k P var flag expand False False False d) (\<lambda>_ d1. (Inr (), d1))
      | GetVarFlags var ex internal \<Rightarrow> bind_st (getVarFlags n k P var ex internal d) (\<lambda>_ d1. (Inr (), d1)))"

definition exporting :: "store_op \<Rightarrow> bool" where
  "exporting op \<longleftrightarrow>
     (case op of
        SetVarFlag var flag v \<Rightarrow> exports flag
      | AppendVarFlag var flag v \<Rightarrow> exports flag
      | PrependVarFlag var flag v \<Rightarrow> exports flag
      | _ \<Rightarrow> False)"

lemma run_op_writes: "\<not> exporting op \<Longrightarrow> writes d (snd (run_op n k P op d))"
  by (cases op) (auto simp: run_op_def exporting_def appendVar_def prependVar_def appendVarFlag_def prependVarFlag_def
      setVar_writes delVar_writes setVarFlag_writes delVarFlag_writes changed_flag_writes setVarFlags_writes
      delVarFlags_writes renameVar_writes wr.same
      intro!: wr.bind settled_writes [OF getVar_settled] settled_writes [OF getVarFlag_settled]
        settled_writes [OF getVarFlags_settled])

lemma find_in_older:
  assumes "take (length L) L' = L" "i < length L"
  shows "find_in L' i var = find_in L i var"
  using assms
proof (induction L i var rule: find_in.induct)
  case (1 L i var)
  have i: "i < length L'" using "1.prems" by (metis length_take min_less_iff_conj)
  have eq: "L' ! i = L ! i" using "1.prems" by (metis nth_take)
  have rec: "find_in L' p var = find_in L p var" if "dget (entries (L ! i)) var = None" "up (L ! i) = Some p" "p < i" for p
    using "1.IH" [OF "1.prems"(2) that] "1.prems" that by simp
  show ?case using i "1.prems"(2) rec by (auto simp: find_in.simps [of _ i] eq split: option.splits)
qed

text \<open>The original with what the copy may have done to the dicts and sets they share.\<close>

definition shared_from :: "dstore \<Rightarrow> dstore \<Rightarrow> dstore" where
  "shared_from c d = d\<lparr>layers := layers c, cells := cells c, renamed := renamed c\<rparr>"

text \<open>
  C8: a copy starts with all variables of the original, and whatever is done to the copy afterwards,
  by any methods but the export of a variable, with any arguments and whether they raise or not, the
  original still finds the same flags for every variable: none of the dicts that hold its variables and
  none of the sets in them has changed.
\<close>
theorem copy_isolated:
  assumes "me d < length (layers d)" and "\<forall>op \<in> set ops. \<not> exporting op"
    and "fold (\<lambda>op d. snd (run_op n k P op d)) ops (createCopy d) = c"
  shows "find_var (createCopy d) var = find_var d var \<and> find_var (shared_from c d) var = find_var d var \<and>
    take (length (layers d)) (layers c) = layers d \<and> take (length (cells d)) (cells c) = cells d"
proof -
  let ?L = "layers d @ [\<lparr>entries = [], up = Some (me d)\<rparr>]"
  have "writes e (fold (\<lambda>op d. snd (run_op n k P op d)) ops e)" for e
    using assms(2) by (induction ops arbitrary: e) (auto intro: wr.same wr.trans [OF run_op_writes])
  then have w: "writes (createCopy d) c" using assms(3) by blast
  have len: "length (layers c) = Suc (length (layers d))" and pre: "prefix (cells d) (cells c)"
    using w by (auto simp: writes_def createCopy_def)
  have old: "layers c ! j = ?L ! j" if "j < length (layers d)" for j
    using w that by (auto simp: writes_def createCopy_def)
  have layers: "take (length (layers d)) (layers c) = layers d"
    using len old by (intro nth_equalityI) (auto simp: nth_append)
  have "find_in ?L (length (layers d)) var = find_in ?L (me d) var"
    using assms(1) by (simp add: find_in.simps [of ?L "length (layers d)"])
  also have "\<dots> = find_in (layers d) (me d) var" using assms(1) by (intro find_in_older) simp_all
  finally have "find_var (createCopy d) var = find_var d var" by (simp add: find_var_def createCopy_def)
  moreover have "find_var (shared_from c d) var = find_var d var"
    using find_in_older [OF layers assms(1)] by (simp add: find_var_def shared_from_def)
  ultimately show ?thesis using layers pre by (auto simp: prefix_def)
qed

lemma own_set_own [simp]: "me d < length (layers d) \<Longrightarrow> own (set_own es d) = es"
  by (simp add: own_def set_own_def)

lemma set_own_simps [simp]: "cells (set_own es d) = cells d" "me (set_own es d) = me d"
  "length (layers (set_own es d)) = length (layers d)" "overridevars (set_own es d) = overridevars d"
  by (simp_all add: set_own_def)

lemma shadow_copy_own:
  assumes "me d < length (layers d)" "var \<notin> set (dkeys (own d))"
  shows "\<exists>fl. own (shadow_copy var d) = own d @ [(var, fl)] \<and> cells (shadow_copy var d) = cells d \<and>
    (\<forall>f fs. find_var d var = Some (f # fs) \<longrightarrow> fl = f # fs)"
proof -
  have "own (d\<lparr>expand_cache := []\<rparr>) = own d" by (simp add: own_def)
  then show ?thesis using assms
    by (auto simp: shadow_copy_def init_var_def Let_def dset_new simp del: set_map split: option.split list.split)
qed

text \<open>What a copy does not have itself it finds in the original.\<close>

lemma find_in_copy:
  assumes "writes (createCopy d) e" "me d < length (layers d)" "x \<notin> set (dkeys (own e))"
  shows "find_var e x = find_var d x"
proof -
  let ?L = "layers d @ [\<lparr>entries = [], up = Some (me d)\<rparr>]"
  have e: "me e = length (layers d)" "length (layers e) = Suc (length (layers d))"
    "up (layers e ! length (layers d)) = Some (me d)" "\<And>j. j < length (layers d) \<Longrightarrow> layers e ! j = ?L ! j"
    using assms(1) by (auto simp: writes_def createCopy_def)
  have older: "take (length (layers d)) (layers e) = layers d"
    using e(2,4) by (intro nth_equalityI) (auto simp: nth_append)
  have "dget (own e) x = None" using assms(3) dget_None_dkeys [of "own e" x] by blast
  then have "find_var e x = find_in (layers e) (me d) x"
    using e assms(2) by (simp add: find_var_def own_def find_in.simps [of "layers e" "length (layers d)"])
  then show ?thesis using find_in_older [OF older assms(2)] by (simp add: find_var_def)
qed

text \<open>
  C30: the exception.  When a variable is exported in a copy, and the original knows exported
  variables already, the original then lists the variable among its exported ones: the shadow copy of
  \<open>__exportlist\<close> is shallow and the set of names in it is the one of the original.
\<close>
theorem exports_shared:
  assumes "me d < length (layers d)" "exports flag" "var \<noteq> ''__exportlist''"
    and "var \<noteq> ''BB_RENAMED_VARIABLES''" "var \<notin> set (renamed d)"
    and fl: "find_var d ''__exportlist'' = Some fl" "dget fl ''_content'' = Some (SetRef a)" "a < length (cells d)"
  shows "\<exists>c. setVarFlag n k P var flag v (createCopy d) = (Inr (), c) \<and>
    find_var (shared_from c d) ''__exportlist'' = Some fl \<and> cell (shared_from c d) a = append_new var (cell d a)"
proof -
  let ?d = "(createCopy d)\<lparr>expand_cache := []\<rparr>"
  have d: "me ?d < length (layers ?d)" "own ?d = []" by (simp_all add: createCopy_def own_def)
  obtain g where g: "own (shadow_copy var ?d) = [(var, g)]" "cells (shadow_copy var ?d) = cells d"
    using shadow_copy_own [of ?d var] d by (auto simp: createCopy_def)
  have w: "writes (createCopy d) (shadow_copy var ?d)"
    by (rule wr.trans [OF writes_upd(1) [of _ "[]"] shadow_copy_writes])
  define e where "e = set_own [(var, dset flag v g)] (shadow_copy var ?d)"
  have we: "writes (createCopy d) e" unfolding e_def by (rule wr.trans [OF w set_own_writes])
  have me: "me (shadow_copy var ?d) < length (layers (shadow_copy var ?d))" using w by (simp add: writes_def createCopy_def)
  have e: "own e = [(var, dset flag v g)]" "cells e = cells d" "me e < length (layers e)"
    using me g(2) by (simp_all add: e_def)
  have put: "put_flag var flag v (shadow_copy var ?d) = (Inr (), e)"
    using g(1) by (simp add: put_flag_def e_def)
  have find: "find_var e ''__exportlist'' = Some fl"
    using find_in_copy [OF we assms(1)] e(1) assms(3) fl(1) by simp
  obtain f fs where ffs: "fl = f # fs" using fl(2) by (cases fl) auto
  have own_s: "own (shadow_copy ''__exportlist'' e) = own e @ [(''__exportlist'', fl)]"
    "cells (shadow_copy ''__exportlist'' e) = cells d"
    using shadow_copy_own [of e "''__exportlist''"] e find ffs assms(3) by auto
  let ?s = "shadow_copy ''__exportlist'' e"
  let ?c = "?s\<lparr>cells := (cells ?s)[a := append_new var (cell ?s a)]\<rparr>"
  have "export_var var e = (Inr (), ?c)"
    using own_s(1) e(1) fl(2) assms(3) by (simp add: export_var_def Let_def)
  then have "setVarFlag n k P var flag v (createCopy d) = (Inr (), ?c)"
    using assms(2,4,5) put by (auto simp: setVarFlag_def setVarFlag_by_def Let_def exports_def createCopy_def)
  moreover have "writes (createCopy d) ?s" by (rule wr.trans [OF we shadow_copy_writes])
  then have "length (layers ?s) = Suc (length (layers d))"
    "\<And>j. j < length (layers d) \<Longrightarrow> layers ?s ! j = layers d ! j"
    by (auto simp: writes_def createCopy_def nth_append)
  then have older: "take (length (layers d)) (layers ?s) = layers d" by (intro nth_equalityI) auto
  have "find_var (shared_from ?c d) ''__exportlist'' = find_in (layers ?s) (me d) ''__exportlist''"
    by (simp add: find_var_def shared_from_def)
  then have "find_var (shared_from ?c d) ''__exportlist'' = Some fl"
    using find_in_older [OF older assms(1)] fl(1) by (simp add: find_var_def)
  moreover have "cell (shared_from ?c d) a = append_new var (cell d a)"
    using own_s(2) fl(3) by (simp add: shared_from_def cell_def)
  ultimately show ?thesis by (intro exI [of _ ?c] conjI)
qed

section \<open>The value of an overridden variable\<close>

text \<open>The reference: of the overrides that the variable has, the one that \<open>OVERRIDES\<close> names last.\<close>

definition last_for :: "(string \<times> string) list \<Rightarrow> string \<Rightarrow> string option" where
  "last_for l ov = dget (rev (map (\<lambda>(r, ov). (ov, r)) l)) ov"

definition winner :: "string list \<Rightarrow> (string \<times> string) list \<Rightarrow> string option" where
  "winner os l = (case rev (filter (\<lambda>ov. last_for l ov \<noteq> None) os) of [] \<Rightarrow> None | ov # _ \<Rightarrow> last_for l ov)"

lemma last_for_snoc: "last_for (l @ [(r, ov)]) o' = (if o' = ov then Some r else last_for l o')"
  by (simp add: last_for_def)

lemma active_overrides_single:
  assumes "\<forall>(r, ov) \<in> set l. CHR '':'' \<notin> set ov"
  shows "dget (active_overrides oss l) ov = (if ov \<in> set oss then last_for l ov else None) \<and>
    set (dkeys (active_overrides oss l)) \<subseteq> snd ` set l"
  using assms
proof (induction l rule: rev_induct)
  case (snoc p l)
  obtain r o' where p: "p = (r, o')" by (cases p)
  have act: "is_active oss o' \<longleftrightarrow> o' \<in> set oss" using snoc.prems p by (auto simp: is_active_def)
  have step: "active_overrides oss (l @ [(r, o')]) =
      (if o' \<in> set oss then dset o' r (active_overrides oss l) else active_overrides oss l)"
    by (simp add: active_overrides_def act)
  show ?case using snoc by (auto simp: step p last_for_snoc simp del: set_map)
qed (simp add: active_overrides_def last_for_def)

text \<open>Without longer lists of overrides a pass takes each candidate once and changes none.\<close>

lemma resolve_key_single:
  assumes "CHR '':'' \<notin> set a"
  shows "resolve_key ov a (active, best, ch) =
    (if a = ov \<and> dget active ov \<noteq> None then (ddel ov active, dget active ov, ch) else (active, best, ch))"
  using assms by (auto simp: resolve_key_def suffix_def split: option.splits)

lemma resolve_keys_single:
  assumes "\<forall>a \<in> set ks. CHR '':'' \<notin> set a" "ov \<in> set ks \<longleftrightarrow> dget active ov \<noteq> None"
  shows "fold (resolve_key ov) ks (active, best, ch) =
    (if dget active ov \<noteq> None then (ddel ov active, dget active ov, ch) else (active, best, ch))"
proof -
  have gone: "fold (resolve_key ov) ks (active, best, ch) = (active, best, ch)"
    if "dget active ov = None" "\<forall>a \<in> set ks. CHR '':'' \<notin> set a" for ks active best
    using that by (induction ks) (auto simp: resolve_key_single)
  show ?thesis using assms
  proof (induction ks)
    case (Cons a ks)
    have "dget (ddel ov active) ov = None" by (simp add: delete_conv)
    then show ?case using Cons gone [of "ddel ov active" ks] gone [of active ks] by (auto simp: resolve_key_single)
  qed (simp add: gone)
qed

lemma resolve_pass_single:
  assumes "\<forall>a \<in> set (dkeys active). CHR '':'' \<notin> set a" "distinct os"
  shows "\<exists>rest. resolve_pass os (active, best, False) =
    (rest, case rev (filter (\<lambda>ov. dget active ov \<noteq> None) os) of [] \<Rightarrow> best | ov # _ \<Rightarrow> dget active ov, False)"
  using assms
proof (induction os arbitrary: active best)
  case (Cons ov os)
  have keys: "ov \<in> set (dkeys active) \<longleftrightarrow> dget active ov \<noteq> None"
    using dget_in_dkeys [of ov active] by (cases "dget active ov") (simp_all del: set_map)
  let ?q = "if dget active ov \<noteq> None then (ddel ov active, dget active ov, False) else (active, best, False)"
  have q: "fold (resolve_key ov) (dkeys active) (active, best, False) = ?q"
    using resolve_keys_single [OF Cons.prems(1) keys] .
  have same: "dget (ddel ov active) o' = dget active o'" if "o' \<in> set os" for o'
    using that Cons.prems(2) by (auto simp: delete_conv)
  have f: "filter (\<lambda>o'. dget (ddel ov active) o' \<noteq> None) os = filter (\<lambda>o'. dget active o' \<noteq> None) os"
    using same by (auto intro: filter_cong)
  have "set (dkeys (ddel ov active)) \<subseteq> set (dkeys active)" by (auto simp: delete_keys)
  then have k: "\<forall>a \<in> set (dkeys (ddel ov active)). CHR '':'' \<notin> set a" using Cons.prems(1) by blast
  show ?case
  proof (cases "dget active ov")
    case None
    then show ?thesis using Cons.IH [OF Cons.prems(1), of best] Cons.prems(2) q by (simp add: resolve_pass_def)
  next
    case (Some t)
    obtain rest where "resolve_pass os (ddel ov active, Some t, False) =
        (rest, case rev (filter (\<lambda>o'. dget active o' \<noteq> None) os) of [] \<Rightarrow> Some t | o' # _ \<Rightarrow> dget (ddel ov active) o', False)"
      using Cons.IH [OF k, of "Some t"] Cons.prems(2) f by auto
    moreover have "(case rev (filter (\<lambda>o'. dget active o' \<noteq> None) os) of [] \<Rightarrow> Some t | o' # _ \<Rightarrow> dget (ddel ov active) o') =
        (case rev (filter (\<lambda>o'. dget active o' \<noteq> None) (ov # os)) of [] \<Rightarrow> best | o' # _ \<Rightarrow> dget active o')"
    proof (cases "rev (filter (\<lambda>o'. dget active o' \<noteq> None) os)")
      case (Cons o' l)
      then have "o' \<in> set (rev (filter (\<lambda>o'. dget active o' \<noteq> None) os))" by simp
      then have "o' \<in> set os" by simp
      then show ?thesis using Cons same Some by simp
    qed (simp add: Some)
    ultimately show ?thesis using q Some by (simp add: resolve_pass_def)
  qed
qed (simp add: resolve_pass_def)

lemma resolve_winner:
  assumes "\<forall>(r, ov) \<in> set l. CHR '':'' \<notin> set ov" "distinct os" "set oss = set os"
  shows "resolve os (active_overrides oss l) None = winner os l"
proof -
  let ?a = "active_overrides oss l"
  have "\<forall>a \<in> set (dkeys ?a). CHR '':'' \<notin> set a" using active_overrides_single [OF assms(1), of oss] assms(1) by fastforce
  then obtain rest where r: "resolve_pass os (?a, None, False) =
      (rest, case rev (filter (\<lambda>ov. dget ?a ov \<noteq> None) os) of [] \<Rightarrow> None | ov # _ \<Rightarrow> dget ?a ov, False)"
    using resolve_pass_single assms(2) by blast
  have f: "filter (\<lambda>ov. dget ?a ov \<noteq> None) os = filter (\<lambda>ov. last_for l ov \<noteq> None) os"
    using assms(3) by (auto simp: active_overrides_single [OF assms(1)] intro: filter_cong)
  have "(case rev (filter (\<lambda>ov. last_for l ov \<noteq> None) os) of [] \<Rightarrow> None | ov # _ \<Rightarrow> dget ?a ov) = winner os l"
  proof (cases "rev (filter (\<lambda>ov. last_for l ov \<noteq> None) os)")
    case (Cons ov t)
    then have "ov \<in> set (rev (filter (\<lambda>ov. last_for l ov \<noteq> None) os))" by simp
    then have "ov \<in> set os" by simp
    then show ?thesis using Cons assms(3) by (simp add: winner_def active_overrides_single [OF assms(1)])
  qed (simp add: winner_def)
  then show ?thesis using r unfolding f by (simp add: resolve.simps [of os ?a])
qed

text \<open>The value of a variable's own flags, and an operation applied to a value.\<close>

definition base_value :: "flags option \<Rightarrow> bool \<Rightarrow> val" where
  "base_value loc noweak =
     (case loc of
        None \<Rightarrow> NoneV
      | Some fl \<Rightarrow>
          (case dget fl ''_content'' of
             Some v \<Rightarrow> v
           | None \<Rightarrow> if noweak then NoneV else (case dget fl ''_defaultval'' of Some v \<Rightarrow> v | None \<Rightarrow> NoneV)))"

definition applied ::
  "flags option \<Rightarrow> string list \<Rightarrow> string \<Rightarrow> (val \<Rightarrow> val \<Rightarrow> val result) \<Rightarrow> val \<Rightarrow> val result"
where
  "applied loc os op f v =
     (case Option.bind loc (\<lambda>fl. dget fl op) of
        Some (Ops l) \<Rightarrow> fold_ops f (Some os) l v
      | _ \<Rightarrow> Inr v)"

text \<open>Flags with no sets among them, and operations that are lists of strings.\<close>

definition plain_flags :: "flags \<Rightarrow> bool" where
  "plain_flags fl \<longleftrightarrow> (\<forall>(f, v) \<in> set fl.
     (case v of
        SetRef _ \<Rightarrow> False
      | Ops l \<Rightarrow> \<forall>(w, _) \<in> set l. hashable w
      | _ \<Rightarrow> f \<notin> set op_keywords))"

lemma plain_flagsD:
  assumes "plain_flags fl" "dget fl f = Some v"
  shows "copy_val v d = (v, d)" "f \<in> set op_keywords \<Longrightarrow> \<exists>l. v = Ops l \<and> (\<forall>(w, _) \<in> set l. hashable w)"
proof -
  have "(f, v) \<in> set fl" using assms(2) by (rule map_of_SomeD)
  then have p: "case v of SetRef _ \<Rightarrow> False | Ops l \<Rightarrow> \<forall>(w, _) \<in> set l. hashable w | _ \<Rightarrow> f \<notin> set op_keywords"
    using assms(1) by (auto simp: plain_flags_def)
  show "copy_val v d = (v, d)" using p by (cases v) (simp_all add: copy_val_def)
  show "\<exists>l. v = Ops l \<and> (\<forall>(w, _) \<in> set l. hashable w)" if "f \<in> set op_keywords" using p that by (cases v) auto
qed

lemma own_value_base:
  assumes "\<And>fl. loc = Some fl \<Longrightarrow> plain_flags fl"
  shows "own_value loc ''_content'' noweak v d = (if v = NoneV then base_value loc noweak else v, d)"
  using plain_flagsD(1) assms by (auto simp: own_value_def base_value_def split: option.splits)

lemma with_ops_applied:
  assumes "\<And>fl. loc = Some fl \<Longrightarrow> plain_flags fl" "op \<in> set op_keywords" "overrides d = Some os"
  shows "with_ops rd loc op f v d = (applied loc os op f v, d)"
proof (cases "Option.bind loc (\<lambda>fl. dget fl op)")
  case (Some l)
  then obtain fl where fl: "loc = Some fl" "dget fl op = Some l" by (auto simp: bind_eq_Some_conv)
  then obtain ops where "l = Ops ops" using plain_flagsD(2) [OF assms(1) fl(2) assms(2)] by blast
  then show ?thesis using Some assms(3) by (simp add: with_ops_def applied_def need_overrides_def ops_of_def)
qed (simp add: with_ops_def applied_def)

lemma op_matches_known [simp]: "\<exists>b. op_matches (Some os) ov = Inr b"
  by (auto simp: op_matches_def split: option.split list.split)

lemma active_removes_known:
  "\<forall>(w, _) \<in> set l. hashable w \<Longrightarrow> \<exists>rs'. active_removes (Some os) l rs = Inr rs'"
proof (induction l arbitrary: rs)
  case (Cons p l)
  obtain w ov where p: "p = (w, ov)" by (cases p)
  obtain b where "op_matches (Some os) ov = Inr b" using op_matches_known by blast
  then show ?case using Cons p by auto
qed simp

lemma gather_removes_known:
  assumes "\<And>fl. loc = Some fl \<Longrightarrow> plain_flags fl" "overrides d = Some os"
  shows "\<exists>rs'. fst (gather_removes rd loc owner rs d) = Inr rs'"
proof (cases "Option.bind loc (\<lambda>fl. dget fl '':remove'')")
  case (Some l)
  then obtain fl where fl: "loc = Some fl" "dget fl '':remove'' = Some l" by (auto simp: bind_eq_Some_conv)
  have "'':remove'' \<in> set op_keywords" by (simp add: op_keywords_def)
  then obtain ops where l: "l = Ops ops" "\<forall>(w, _) \<in> set ops. hashable w"
    using plain_flagsD(2) [OF assms(1) fl(2)] fl(1) by blast
  then obtain rs' where "active_removes (Some os) ops rs = Inr rs'" using active_removes_known by blast
  then show ?thesis using Some assms(2) l
    by (auto simp: gather_removes_def need_overrides_def ops_of_def split: option.split)
qed (simp add: gather_removes_def)

lemma unexpanded_finish:
  assumes "\<And>fl. find_var d var = Some fl \<Longrightarrow> plain_flags fl" "overrides d = Some os"
  shows "fst (finish_value k P rd var ''_content'' False False False (v, rs, owner) d) = Inr (v, None)"
proof -
  obtain rs' d' where "gather_removes rd (find_var d var) owner rs d = (Inr rs', d')"
    using gather_removes_known [of "find_var d var" d os rd owner rs] assms by (metis fst_conv prod.exhaust)
  then show ?thesis by (simp add: finish_value_def Let_def apply_removes_def)
qed

lemma winner_mem: "winner os l = Some r \<Longrightarrow> r \<in> fst ` set l"
  by (auto simp: winner_def last_for_def split: list.splits dest!: map_of_SomeD) force+


section \<open>Setting a variable\<close>

lemma find_in_below:
  assumes "length L' = length L" "\<And>j. j \<le> i \<Longrightarrow> L' ! j = L ! j"
  shows "find_in L' i var = find_in L i var"
  using assms
proof (induction L i var rule: find_in.induct)
  case (1 L i var)
  have eq: "L' ! i = L ! i" using "1.prems"(2) by simp
  have rec: "find_in L' p var = find_in L p var"
    if "i < length L" "dget (entries (L ! i)) var = None" "up (L ! i) = Some p" "p < i" for p
    using "1.IH" [OF that(1-4) "1.prems"(1)] "1.prems"(2) that(4) by simp
  show ?case using rec "1.prems"(1)
    by (auto simp: find_in.simps [of L' i] find_in.simps [of L i] eq split: option.split)
qed

lemma find_own: "me d < length (layers d) \<Longrightarrow> dget (own d) x = Some fl \<Longrightarrow> find_var d x = Some fl"
  by (simp add: find_var_def own_def find_in.simps [of "layers d"])

lemma find_set_own:
  assumes "me d < length (layers d)" "\<And>x. x \<noteq> var \<Longrightarrow> dget es x = dget (own d) x" "x \<noteq> var"
  shows "find_var (set_own es d) x = find_var d x"
proof -
  let ?L = "layers (set_own es d)"
  have i: "?L ! me d = (layers d ! me d)\<lparr>entries := es\<rparr>" using assms(1) by (simp add: set_own_def)
  have below: "find_in ?L p x = find_in (layers d) p x" if "p < me d" for p
    using that by (intro find_in_below) (auto simp: set_own_def)
  show ?thesis using assms(1) assms(2) [OF assms(3)] below
    by (auto simp: find_var_def own_def i find_in.simps [of ?L "me d"] find_in.simps [of "layers d" "me d"]
        split: option.split)
qed

text \<open>What setting a variable without overrides needs of the shadow copy.\<close>

lemma shadow_copy_shadows:
  assumes "me d < length (layers d)"
  shows "\<exists>fl. dget (own (shadow_copy var d)) var = Some fl" "me (shadow_copy var d) = me d"
    "me d < length (layers (shadow_copy var d))" "overridedata (shadow_copy var d) = overridedata d"
    "overridevars (shadow_copy var d) = overridevars d" "x \<noteq> var \<Longrightarrow> find_var (shadow_copy var d) x = find_var d x"
proof -
  have cache: "own (d\<lparr>expand_cache := []\<rparr>) = own d" "find_var (d\<lparr>expand_cache := []\<rparr>) x = find_var d x"
    by (simp_all add: own_def find_var_def)
  show "\<exists>fl. dget (own (shadow_copy var d)) var = Some fl"
    using assms dget_in_dkeys [of var "own d"]
    by (auto simp: shadow_copy_def init_var_def Let_def cache simp del: set_map split: option.split list.split)
  show "me (shadow_copy var d) = me d" "me d < length (layers (shadow_copy var d))"
    "overridevars (shadow_copy var d) = overridevars d" "overridedata (shadow_copy var d) = overridedata d"
    using assms by (auto simp: shadow_copy_def init_var_def Let_def set_own_def simp del: set_map
        split: option.split list.split)
  show "find_var (shadow_copy var d) x = find_var d x" if "x \<noteq> var"
    using assms that cache
    by (auto simp: shadow_copy_def init_var_def Let_def simp del: set_map split: option.split list.split
        intro!: find_set_own [where var = var] trans [OF find_set_own [where var = var]])
qed

lemma no_colon_no_op: "CHR '':'' \<notin> set var \<Longrightarrow> split_op var = None"
proof (induction var)
  case (Cons c cs)
  have "op_at (c # cs) = None" using Cons.prems by (auto simp: op_at_def op_keywords_def)
  then show ?case using Cons by (simp add: split_op.simps [of "c # cs"])
qed (simp add: split_op.simps op_at_def op_keywords_def)


section \<open>Examples\<close>

text \<open>A store without Python code in its values, and what a sequence of calls makes of it.\<close>

definition no_code :: "dstore pycode" where
  "no_code = \<lparr>compile_code = (\<lambda>_. Inl TypeError), eval_code = (\<lambda>_ _. Inl TypeError)\<rparr>"

definition after_ops :: "store_op list \<Rightarrow> dstore \<Rightarrow> dstore" where
  "after_ops ops d = fold (\<lambda>op d. snd (run_op 5 5 no_code op d)) ops d"

definition store_arm :: dstore where
  "store_arm = after_ops
     [SetVar ''OVERRIDES'' (Str ''linux:${M}'') False, SetVar ''M'' (Str ''arm'') False, SetVar ''A'' (Str ''x'') False,
      SetVar ''A:arm'' (Str ''y'') False, SetVar ''A:linux'' (Str ''z'') False, AppendVar ''A'' (Str '' tail''),
      SetVarFlag ''A'' ''export'' (Flag True), GetVar ''A'' True False False] new_dstore"

definition edits :: "store_op list" where
  "edits = [SetVar ''A'' (Str ''new'') False, DelVar ''M'', RenameVar ''A'' ''B'', AppendVarFlag ''A'' ''doc'' (Str ''d'')]"

theorem copy_isolated_witness:
  "find_var (after_ops edits (createCopy store_arm)) ''M'' = Some [] \<and>
   find_var (shared_from (after_ops edits (createCopy store_arm)) store_arm) ''M'' = Some [(''_content'', Str ''arm'')]"
proof -
  have ok: "me store_arm < length (layers store_arm)" by code_simp
  have no: "\<forall>op \<in> set edits. \<not> exporting op" by (simp add: edits_def exporting_def exports_def)
  have "find_var store_arm ''M'' = Some [(''_content'', Str ''arm'')]" by code_simp
  then have "find_var (shared_from (after_ops edits (createCopy store_arm)) store_arm) ''M'' = Some [(''_content'', Str ''arm'')]"
    using copy_isolated [OF ok no, where n = 5 and k = 5 and P = no_code and var = "''M''"] by (simp add: after_ops_def)
  moreover have "find_var (after_ops edits (createCopy store_arm)) ''M'' = Some []" by code_simp
  ultimately show ?thesis by simp
qed

theorem exports_shared_witness:
  "\<exists>c. setVarFlag 5 5 no_code ''B'' ''export'' (Flag True) (createCopy store_arm) = (Inr (), c) \<and>
     cell (shared_from c store_arm) 0 = [''A'', ''B'']"
proof -
  have ok: "me store_arm < length (layers store_arm)" by code_simp
  have fl: "find_var store_arm ''__exportlist'' = Some [(''_content'', SetRef 0)]" "0 < length (cells store_arm)" by code_simp+
  have new: "''B'' \<notin> set (renamed store_arm)" by code_simp
  have "cell store_arm 0 = [''A'']" by code_simp
  then show ?thesis
    using exports_shared [OF ok _ _ _ new fl(1), of "''export''" 0 5 5 no_code "Flag True"] fl(2)
    by (auto simp: exports_def append_new_def)
qed


definition store_tail :: dstore where
  "store_tail = after_ops [SetVar ''A'' (Str ''x'') False, AppendVar ''A'' (Str '' tail'')] new_dstore"


text \<open>
  An append to a name in lower case without overrides registers the name as an override of the name
  without its last character, so that a variable that was never set gets a value.
\<close>

lemma append_overrides_shorter_name:
  defines "d \<equiv> after_ops [SetVar ''OVERRIDES'' (Str ''arm'') False, SetVar ''arm'' (Str ''v'') True,
      SetVar ''arm:append'' (Str ''w'') True] new_dstore"
  shows "find_var d ''ar'' = None" "fst (getVar 5 5 no_code ''ar'' True False False d) = Inr (Str ''vw'')"
  unfolding d_def by code_simp+

text \<open>
  When \<open>OVERRIDES\<close> cannot be expanded the first read raises an exception, and later ones ignore all
  overrides.
\<close>

lemma overrides_lost_after_error:
  defines "d \<equiv> after_ops [SetVar ''OVERRIDES'' (Str ''arm'') False, SetVar ''A'' (Str ''x'') False,
      SetVar ''A:arm'' (Str ''y'') False, SetVar ''M'' (Str ''${M}'') False, SetVar ''OVERRIDES'' (Str ''arm:${M}'') True] new_dstore"
  shows "fst (getVar 5 5 no_code ''A'' True False False d) = Inl ExpansionError"
    "fst (getVar 5 5 no_code ''A'' True False False (snd (getVar 5 5 no_code ''A'' True False False d))) = Inr (Str ''x'')"
  unfolding d_def by code_simp+

text \<open>In a copy, \<open>delVarFlags\<close> of a variable without a value has no effect on its flags.\<close>

lemma delVarFlags_undone:
  defines "d \<equiv> after_ops [SetVarFlag ''A'' ''doc'' (Str ''x'')] new_dstore"
  shows "find_var (snd (delVarFlags ''A'' d)) ''A'' = None"
    "find_var (snd (delVarFlags ''A'' (createCopy d))) ''A'' = Some [(''doc'', Str ''x'')]"
  unfolding d_def by code_simp+

end
