(* ===== verification/Spec2Isabelle.thy ===== *)
theory Spec2Isabelle
  imports Versions DepStrings Tids Providers Taskdata Weights Schedulers Loops Prepare Build Rehash Copies
begin

text \<open>
  A verification development of the core of BitBake, the task executor of the Yocto project, in
  \<open>poky/bitbake/lib/bb\<close>: the way from the targets of a command line to a graph of tasks, and the
  execution of that graph.


  The program.

  A build goes through these parts.  \<open>providers.py\<close> orders the recipes that provide a target by the
  priority of their layers, preferred versions (compared by \<open>utils.py\<close>) and preferences of the
  configuration.  \<open>taskdata.py\<close> (\<open>TaskData\<close>) uses it to resolve the targets and, transitively, their
  dependencies to recipe files, and removes what cannot be built together with all that needs it.
  \<open>RunQueueData.prepare\<close> in \<open>runqueue.py\<close> makes the run queue of it: the tasks of all recipes, their
  dependencies, the loops in them, the tasks that the targets need, their weights and hashes.
  \<open>RunQueueExecute\<close>, driven by \<open>RunQueue.execute_runqueue\<close>, then starts the tasks in dependency order:
  first it collapses the graph to the setscene tasks, which can stand in for real tasks, it asks which of
  these are available, starts them, and starts the real tasks that are not covered, at most as many as
  configured at once, until all are complete; the workers that run the tasks answer by messages, one of
  which says that the hash of a finished task is equivalent to another one, and then the tasks that
  depend on it are hashed anew.

  All of these read variables of the configuration and the recipes from the datastore, \<open>DataSmart\<close> in
  \<open>data_smart.py\<close>: variables with flags, overrides that select variants of them, references to other
  variables that are expanded on reading, and copies that share what they do not change.


  The theories, in the order of their imports, and the code they model.

  \<open>Prelude\<close>: Python values, dicts as association lists in insertion order, exceptions as \<open>py_exc\<close>, loops
  over statements that may raise (\<open>foreach\<close>), string methods.

  \<open>Versions\<close>: \<open>explode_version\<close>, \<open>split_version\<close>, \<open>vercmp_part\<close>, \<open>vercmp\<close>, \<open>vercmp_string\<close> and
  \<open>vercmp_string_op\<close> of \<open>utils.py\<close>.  The locale \<open>ver_order\<close> states the laws of a comparison; it is
  interpreted for exploded parts, for version triples and, in \<open>Providers\<close>, for recipe files.

  \<open>DepStrings\<close>: \<open>explode_deps\<close>, \<open>explode_dep_versions2\<close>, \<open>explode_dep_versions\<close>, \<open>join_deps\<close> of
  \<open>utils.py\<close>, with the round trip of printing and parsing.

  \<open>Providers\<close>: \<open>providers.py\<close>, every function.  \<open>data_cache\<close> is the recipe cache, \<open>getVar\<close> of the
  datastore a function.

  \<open>Tids\<close>: the functions on task ids and \<open>RunQueueStats\<close> of \<open>runqueue.py\<close>.

  \<open>Taskdata\<close>: \<open>taskdata.py\<close>; \<open>td_state\<close> is the object \<open>TaskData\<close>.  The method \<open>fail_fn\<close> and the two
  removal methods call each other.  The locale \<open>failing\<close> states what a version of \<open>fail_fn\<close> keeps,
  \<open>fuelled\<close> adds that it returns and \<open>culling\<close> that the state it is applied to is closed under losing
  targets; the result is compared with the least set of files that must go.

  \<open>Weights\<close>: \<open>runtaskentries\<close> (\<open>run_entry\<close>), \<open>calculate_task_weights\<close>.  \<open>graph_ok\<close>, the well-formed
  graph that all later theories share, is defined here.

  \<open>Schedulers\<close>: the three classes of schedulers; the locale \<open>priority_map\<close> is what \<open>next_buildable_task\<close>
  needs of a priority map, interpreted for the speed and the completion scheduler.

  \<open>Loops\<close>: \<open>circular_depchains_handler\<close>.

  \<open>RunDeps\<close>, \<open>RunRecur\<close>, \<open>RunPrune\<close>, \<open>Prepare\<close>: the method \<open>RunQueueData.prepare\<close>, step by step:
  dependencies of every task; recursive dependencies, with the recipes below every task; marking,
  \<open>runall\<close> and \<open>runonly\<close>, pruning; then checks, setscene tasks, hashes and the whole method, which is
  shown to end with a proper queue or with one of its messages.

  \<open>Stamps\<close>: \<open>check_stamp_task\<close>, the enforcement of setscene tasks, and the stamp functions of
  \<open>build.py\<close>.  \<open>conf\<close> is what the executor reads of the configuration and the task data.

  \<open>ExecState\<close>: the object \<open>RunQueueExecute\<close> (\<open>exec\<close>) and how tasks end.  \<open>SceneQueue\<close>:
  \<open>build_scenequeue_data\<close>.  \<open>Migrate\<close>: \<open>update_holdofftasks\<close>, \<open>build_taskdepdata\<close>,
  \<open>process_possible_migrations\<close>.  \<open>Execute\<close>: \<open>execute\<close> and the driver.  The locale \<open>frame\<close> (in \<open>Prelude\<close>) is the
  calculus of relations that every statement of a sequence, a branch or a loop keeps; it is interpreted
  for the relations that the executor's operations respect (\<open>scene_step\<close>, \<open>unskip_step\<close>, \<open>core_step\<close>)
  and for those of the datastore (\<open>reads\<close>, \<open>settled\<close>, \<open>writes\<close>).
  The locale \<open>wave\<close> is the contract of the program's worklist loops, which collect new elements for a
  next round and leave out those already seen: it gives their termination and is interpreted for the
  three of them.

  \<open>Expand\<close>, \<open>Datastore\<close>, \<open>Copies\<close>: \<open>DataSmart\<close> and \<open>VariableParse\<close> of \<open>data_smart.py\<close>.  \<open>Expand\<close> has
  the regular expressions and the substitution of references, over a state of any type; \<open>Datastore\<close> has
  the object (\<open>dstore\<close>: its dict and those it is a copy of are \<open>layers\<close>, shared sets are \<open>cells\<close>) and its
  methods; \<open>Copies\<close> the proofs: what reading changes (the locale \<open>reading\<close>, interpreted for
  \<open>getVarFlag\<close> by induction on the depth of calls), what writing changes, and which override wins.

  \<open>ExecInv\<close>, \<open>Build\<close>, \<open>Rehash\<close>: proofs about the executor.  \<open>ExecInv\<close> has the invariants and shows that
  every operation keeps them; \<open>Build\<close> defines the reachable states of a whole build (\<open>reached\<close>, any
  number of calls of the driver with any honest answers of the workers, any clock and any answers of the
  hash functions) and has the theorems about all of them; \<open>Rehash\<close> shows what a changed hash does.


  The model.

  An object is a record, a method a function on it that returns its result or exception next to the new
  state, so that the state at a raise is kept.  Python sets that are iterated over are lists; the
  theorems hold for every order of them.  What the modelled code calls and the repository's other parts
  or the outside world provide is a parameter: to the other parts the datastore
  (\<open>getVar\<close>), Python code in the values of variables, the recipe cache, the
  signature generator, the validation functions for hashes and setscene dependencies, the system
  pressure, the clock, the stamp directory and the messages of the workers.

  Fuel.  Recursive methods that are not structural have fuel, and a lemma that it is enough.  \<open>fail_fn\<close> has
  two more than the files something could depend on (\<open>fail_fn_returns\<close>: each nested call fails another
  file).  \<open>cum_loop\<close>, \<open>mark_active\<close>, \<open>find_chains\<close>, \<open>process_endpoints\<close> and \<open>check_stamp_fuel\<close> have one
  more than the tasks of the queue and \<open>hash_loop\<close> as many: each step or nested call handles a new task,
  and the theorems about these methods state that the calls return.  \<open>runall_loop\<close> has two more than the tasks of the
  queue, because every round but the last adds one.  \<open>getVarFlag\<close>, \<open>setVar\<close> and
  \<open>renameVar\<close> count the depth of their calls, whose limit is Python's; variables can refer to each other in a
  circle, so no depth is enough for all, and the theorems hold for every depth.  Expansion with Python code
  that yields new references may go on for ever, so its rounds are counted, too.  All other loops are
  shown to terminate outright.


  Not modelled.

  In the datastore: the history of variables and included files, which serves messages, \<open>get_hash\<close> and
  \<open>expandVarref\<close>, and changes that Python code in a value makes while it is expanded.
  Events, progress bars and log messages, and with them the texts of error reports.  The worker
  processes and their pipes: a message that has arrived is a value, of which \<open>honest\<close> (in \<open>ExecInv\<close>) says that it
  is about a task that runs.  The pressure regulation, which reads files under \<open>/proc\<close>.  Task
  execution (\<open>build.py\<close> other than stamps), signature generation (\<open>siggen.py\<close>), the parser, the recipe
  caches, the fetchers, the server and the user interfaces: they run foreign programs, evaluate Python
  code of recipes or exchange bytes with other processes.
\<close>

end
